theory Spec2Isabelle
  imports Complex_Main "HOL-Library.Multiset" "HOL-Library.Product_Lexorder"
begin

section \<open>Numbers, arrays and failures\<close>

text \<open>
  The library computes with TypeScript numbers.  Node ids, cluster ids, counts and array
  indices are modelled as natural numbers, weights and coordinates as real numbers (the
  arithmetic of the code without rounding).  Arrays are lists.

  Three things the code can do have no counterpart among the reals and the lists, and the
  model writes them out as failures: \<open>new Array(n)\<close> with a negative \<open>n\<close> throws a
  RangeError, a property read on \<open>undefined\<close> throws a TypeError, and a division by
  zero or a read outside an array puts \<open>NaN\<close>, an infinity or \<open>undefined\<close> into the data.
  \<open>IllegalArgument\<close> is the error \<open>checkIntegrity\<close> throws.
\<close>

datatype error = RangeError | TypeError | NotANumber | IllegalArgument

text \<open>\<open>x / y\<close> of the code: a zero divisor gives \<open>NaN\<close> or an infinity, never a number.\<close>

definition divide_number :: "real \<Rightarrow> real \<Rightarrow> error + real" where
  "divide_number x y = (if y = 0 then Inl NotANumber else Inr (x / y))"

subsection \<open>utils/arrays.ts\<close>

definition calcSum :: "real list \<Rightarrow> real" where
  "calcSum vs = fold (\<lambda>i s. s + vs ! i) [0..<length vs] 0"

definition calcSumWithinRange :: "real list \<Rightarrow> nat \<Rightarrow> nat \<Rightarrow> real" where
  "calcSumWithinRange vs beginIndex endIndex = fold (\<lambda>i s. s + vs ! i) [beginIndex..<endIndex] 0"

text \<open>\<open>calcMaximum\<close> starts from \<open>values[0]\<close>, which is \<open>undefined\<close> for an empty array.\<close>

definition calcMaximum :: "nat list \<Rightarrow> error + nat" where
  "calcMaximum vs =
     (if vs = [] then Inl NotANumber
      else Inr (fold (\<lambda>i m. max m (vs ! i)) [1..<length vs] (vs ! 0)))"

section \<open>Clustering (clustering.ts)\<close>

text \<open>
  The fields of the class.  \<open>cnNodes\<close> is the field \<open>nNodes\<close> of the class \<open>Clustering\<close>;
  the plain name is kept for the field of \<open>Network\<close>.
\<close>

record clustering =
  clusters :: "nat list"
  nClusters :: nat
  cnNodes :: nat

definition initSingletonClustersHelper :: "clustering \<Rightarrow> clustering" where
  "initSingletonClustersHelper c =
     c\<lparr>clusters := fold (\<lambda>i cs. cs[i := i]) [0..<cnNodes c] (replicate (cnNodes c) 0),
       nClusters := cnNodes c\<rparr>"

definition initializeBasedOnNNodes :: "nat \<Rightarrow> clustering" where
  "initializeBasedOnNNodes n =
     initSingletonClustersHelper \<lparr>clusters = [], nClusters = 0, cnNodes = n\<rparr>"

definition initializeBasedOnClusters :: "nat list \<Rightarrow> error + clustering" where
  "initializeBasedOnClusters cs =
     (case calcMaximum cs of
        Inl e \<Rightarrow> Inl e
      | Inr m \<Rightarrow> Inr \<lparr>clusters = cs, nClusters = m + 1, cnNodes = length cs\<rparr>)"

definition getNNodesPerCluster :: "clustering \<Rightarrow> nat list" where
  "getNNodesPerCluster c =
     fold (\<lambda>i a. a[clusters c ! i := a ! (clusters c ! i) + 1]) [0..<cnNodes c]
       (replicate (nClusters c) 0)"

definition getNodesPerCluster :: "clustering \<Rightarrow> nat list list" where
  "getNodesPerCluster c =
     (let nNodesPerCluster = getNNodesPerCluster c;
          nodesPerCluster = map (\<lambda>i. replicate (nNodesPerCluster ! i) 0) [0..<nClusters c];
          nNodesPerCluster = replicate (nClusters c) 0
      in fst (fold (\<lambda>i (npc, cnt).
                 (npc[clusters c ! i := (npc ! (clusters c ! i))[cnt ! (clusters c ! i) := i]],
                  cnt[clusters c ! i := cnt ! (clusters c ! i) + 1]))
               [0..<cnNodes c] (nodesPerCluster, nNodesPerCluster)))"

text \<open>The nodes of cluster \<open>k\<close> in increasing order: what \<open>getNodesPerCluster\<close> collects.\<close>

definition members :: "clustering \<Rightarrow> nat \<Rightarrow> nat list" where
  "members c k = filter (\<lambda>i. clusters c ! i = k) [0..<cnNodes c]"

text \<open>The two arrays of the second pass of \<open>getNodesPerCluster\<close> after \<open>m\<close> nodes.\<close>

definition bucketInv :: "clustering \<Rightarrow> nat \<Rightarrow> nat list list \<times> nat list \<Rightarrow> bool" where
  "bucketInv c m st = (case st of (npc, cnt) \<Rightarrow>
      length npc = nClusters c \<and> length cnt = nClusters c \<and>
      (\<forall>k<nClusters c.
         cnt ! k = length (filter (\<lambda>i. clusters c ! i = k) [0..<m]) \<and>
         npc ! k = filter (\<lambda>i. clusters c ! i = k) [0..<m]
                   @ replicate (length (members c k) - cnt ! k) 0))"

text \<open>
  \<open>setCluster\<close> writes \<open>clusters[node]\<close> and tests nothing.  A write at the end of a
  JavaScript array appends, and a write beyond the end lengthens the array and leaves
  holes before the new entry; a hole stands as \<open>0\<close> here.  The field \<open>nNodes\<close> stays as it
  is, so the entries at \<open>nNodes\<close> and beyond are entries no loop of the class reads.
\<close>

definition setCluster :: "nat \<Rightarrow> nat \<Rightarrow> clustering \<Rightarrow> clustering" where
  "setCluster node cluster c =
     c\<lparr>clusters :=
         (if node < length (clusters c) then (clusters c)[node := cluster]
          else clusters c @ replicate (node - length (clusters c)) 0 @ [cluster]),
       nClusters := max (nClusters c) (cluster + 1)\<rparr>"

definition removeEmptyClusters :: "clustering \<Rightarrow> clustering" where
  "removeEmptyClusters c =
     (let nonEmptyClusters =
            fold (\<lambda>i ne. ne[clusters c ! i := True]) [0..<cnNodes c]
              (replicate (nClusters c) False);
          (newClusters, i) =
            fold (\<lambda>j (nc, i). if nonEmptyClusters ! j then (nc[j := i], i + 1) else (nc, i))
              [0..<nClusters c] (replicate (nClusters c) 0, 0)
      in c\<lparr>clusters := fold (\<lambda>i cs. cs[i := newClusters ! (cs ! i)]) [0..<cnNodes c] (clusters c),
           nClusters := i\<rparr>)"

text \<open>
  What \<open>removeEmptyClusters\<close> computes: a cluster is non-empty when some node carries its
  id, and the new id of a cluster is the number of non-empty clusters before it.
\<close>

definition nonEmpty :: "clustering \<Rightarrow> nat \<Rightarrow> bool" where
  "nonEmpty c k = (\<exists>i<cnNodes c. clusters c ! i = k)"

definition rank :: "(nat \<Rightarrow> bool) \<Rightarrow> nat \<Rightarrow> nat" where
  "rank P j = card {j'. j' < j \<and> P j'}"

text \<open>
  \<open>orderClustersByWeight\<close>: the clusters are sorted by decreasing weight with the stable
  \<open>Array.prototype.sort\<close>; the do-while loop then numbers the clusters in that order for as
  long as their weight is positive.  It reads \<open>clusters[0].cluster\<close> before any test, which
  throws when there is no cluster at all.  With fewer weights than nodes a cluster weight
  is \<open>NaN\<close>; the comparator then is not a consistent comparison and ECMAScript leaves the
  order of the sorted array to the implementation, so the model has no result for such a
  call (\<open>NotANumber\<close>).
\<close>

function orderLoop :: "(nat \<times> real) list \<Rightarrow> nat \<Rightarrow> nat list \<Rightarrow> nat \<Rightarrow> nat list \<times> nat" where
  "orderLoop srt nC newClusters i =
     (let newClusters = newClusters[fst (srt ! i) := i];
          i = i + 1
      in if i < nC \<and> snd (srt ! i) > 0 then orderLoop srt nC newClusters i
         else (newClusters, i))"
  by pat_completeness auto
termination
  by (relation "measure (\<lambda>(srt, nC, newClusters, i). nC - i)") auto

declare orderLoop.simps [simp del]

definition orderClustersByWeight :: "real list \<Rightarrow> clustering \<Rightarrow> error + clustering" where
  "orderClustersByWeight nodeWeights c =
     (if length nodeWeights < cnNodes c then Inl NotANumber
      else if nClusters c = 0 then Inl TypeError
      else
        let clusterWeights =
              fold (\<lambda>i a. a[clusters c ! i := a ! (clusters c ! i) + nodeWeights ! i])
                [0..<cnNodes c] (replicate (nClusters c) 0);
            srt = sort_key (\<lambda>p. - snd p)
                       (map (\<lambda>i. (i, clusterWeights ! i)) [0..<nClusters c]);
            (newClusters, i) = orderLoop srt (nClusters c) (replicate (nClusters c) 0) 0
        in Inr (c\<lparr>clusters := fold (\<lambda>i cs. cs[i := newClusters ! (cs ! i)])
                                  [0..<cnNodes c] (clusters c),
                    nClusters := i\<rparr>))"

definition orderClustersByNNodes :: "clustering \<Rightarrow> error + clustering" where
  "orderClustersByNNodes c = orderClustersByWeight (replicate (cnNodes c) 1) c"

text \<open>
  \<open>mergeClusters\<close> reads \<open>clustering.clusters[this.clusters[i]]\<close>; a cluster id that is
  not an index of the argument's array reads \<open>undefined\<close>.  \<open>mergeClusters arg c\<close> is the
  call on \<open>c\<close> with another object \<open>arg\<close>.  In the call \<open>c.mergeClusters(c)\<close> the array that
  is read is the array that is written, entry by entry: that call is \<open>mergeClustersSelf\<close>.
\<close>

definition mergeClusters :: "clustering \<Rightarrow> clustering \<Rightarrow> error + clustering" where
  "mergeClusters arg c =
     (if \<forall>i \<in> {0..<cnNodes c}. clusters c ! i < length (clusters arg)
      then Inr (c\<lparr>clusters := fold (\<lambda>i cs. cs[i := clusters arg ! (cs ! i)])
                                  [0..<cnNodes c] (clusters c),
                  nClusters := nClusters arg\<rparr>)
      else Inl NotANumber)"

definition mergeClustersSelf :: "clustering \<Rightarrow> error + clustering" where
  "mergeClustersSelf c =
     (if \<forall>i \<in> {0..<cnNodes c}. clusters c ! i < length (clusters c)
      then Inr (c\<lparr>clusters := fold (\<lambda>i cs. cs[i := cs ! (cs ! i)])
                                  [0..<cnNodes c] (clusters c)\<rparr>)
      else Inl NotANumber)"

text \<open>
  The range invariant of a clustering: the array has one entry per node and every entry
  is a cluster id below \<open>nClusters\<close> (ids are naturals, so the lower bound is in the type).
  \<open>entriesInRange\<close> is the same for an array that may have grown: it speaks of the entries
  of the nodes only.
\<close>

definition rangeInvariant :: "clustering \<Rightarrow> bool" where
  "rangeInvariant c =
     (length (clusters c) = cnNodes c \<and> (\<forall>i \<in> {0..<cnNodes c}. clusters c ! i < nClusters c))"

definition entriesInRange :: "clustering \<Rightarrow> bool" where
  "entriesInRange c =
     (cnNodes c \<le> length (clusters c) \<and> (\<forall>i \<in> {0..<cnNodes c}. clusters c ! i < nClusters c))"

text \<open>
  The clusterings a caller can build with the public operations of the class, starting
  from one of the two constructors, when every call is made within its domain:
  \<open>setCluster\<close> on a node of the clustering, \<open>orderClustersByWeight\<close> with a weight for
  every node, \<open>mergeClusters\<close> with a clustering whose array has an entry for every cluster
  id that is read.
\<close>

inductive reachable :: "clustering \<Rightarrow> bool" where
  fromNNodes: "reachable (initializeBasedOnNNodes n)"
| fromClusters: "initializeBasedOnClusters cs = Inr c \<Longrightarrow> reachable c"
| bySetCluster: "reachable c \<Longrightarrow> node < cnNodes c \<Longrightarrow> reachable (setCluster node cluster c)"
| byRemoveEmptyClusters: "reachable c \<Longrightarrow> reachable (removeEmptyClusters c)"
| byOrderClustersByNNodes: "reachable c \<Longrightarrow> orderClustersByNNodes c = Inr c' \<Longrightarrow> reachable c'"
| byOrderClustersByWeight:
    "reachable c \<Longrightarrow> cnNodes c \<le> length nodeWeights
     \<Longrightarrow> orderClustersByWeight nodeWeights c = Inr c' \<Longrightarrow> reachable c'"
| byMergeClusters: "reachable c \<Longrightarrow> reachable arg \<Longrightarrow> mergeClusters arg c = Inr c' \<Longrightarrow> reachable c'"
| byMergeClustersSelf: "reachable c \<Longrightarrow> mergeClustersSelf c = Inr c' \<Longrightarrow> reachable c'"

section \<open>Network (network.ts)\<close>

record network =
  nNodes :: nat
  nodeWeights :: "real list"
  firstNeighborIndices :: "nat list"
  neighbors :: "nat list"
  edgeWeights :: "real list"
  totalEdgeWeightSelfLinks :: real
  nEdges :: nat

text \<open>
  The conditions \<open>checkIntegrity\<close> tests: the array lengths, the offsets from \<open>0\<close> to
  \<open>nEdges\<close> in non-decreasing order, neighbour ids below \<open>nNodes\<close> and strictly increasing
  within the slice of a node, and every edge stored in both directions with one weight.
  \<open>checkIntegrity\<close> does not test for self-loops; \<open>noSelfLoops\<close> is the separate condition.
\<close>

definition integrity :: "network \<Rightarrow> bool" where
  "integrity nw =
     (even (nEdges nw) \<and>
      length (nodeWeights nw) = nNodes nw \<and>
      length (firstNeighborIndices nw) = nNodes nw + 1 \<and>
      firstNeighborIndices nw ! 0 = 0 \<and>
      firstNeighborIndices nw ! nNodes nw = nEdges nw \<and>
      length (neighbors nw) = nEdges nw \<and>
      length (edgeWeights nw) = nEdges nw \<and>
      (\<forall>i \<in> {0..<nNodes nw}.
         firstNeighborIndices nw ! i \<le> firstNeighborIndices nw ! (i + 1) \<and>
         (\<forall>j \<in> {firstNeighborIndices nw ! i..<firstNeighborIndices nw ! (i + 1)}.
            neighbors nw ! j < nNodes nw \<and>
            (firstNeighborIndices nw ! i < j \<longrightarrow> neighbors nw ! (j - 1) < neighbors nw ! j))) \<and>
      (\<forall>i \<in> {0..<nNodes nw}.
         \<forall>j \<in> {firstNeighborIndices nw ! i..<firstNeighborIndices nw ! (i + 1)}.
           \<exists>l \<in> {firstNeighborIndices nw ! (neighbors nw ! j)..<
                   firstNeighborIndices nw ! (neighbors nw ! j + 1)}.
             neighbors nw ! l = i \<and> edgeWeights nw ! l = edgeWeights nw ! j))"

definition noSelfLoops :: "network \<Rightarrow> bool" where
  "noSelfLoops nw =
     (\<forall>i \<in> {0..<nNodes nw}.
        \<forall>j \<in> {firstNeighborIndices nw ! i..<firstNeighborIndices nw ! (i + 1)}.
          neighbors nw ! j \<noteq> i)"

definition positiveNodeWeights :: "network \<Rightarrow> bool" where
  "positiveNodeWeights nw = (\<forall>i \<in> {0..<nNodes nw}. 0 < nodeWeights nw ! i)"

definition getTotalNodeWeight :: "network \<Rightarrow> real" where
  "getTotalNodeWeight nw = calcSum (nodeWeights nw)"

text \<open>\<open>getTotalEdgeWeight()\<close> without a node: half the sum of the stored weights.\<close>

definition getTotalEdgeWeight :: "network \<Rightarrow> real" where
  "getTotalEdgeWeight nw = calcSum (edgeWeights nw) / 2"

definition getTotalEdgeWeightPerNodeHelper :: "network \<Rightarrow> real list" where
  "getTotalEdgeWeightPerNodeHelper nw =
     map (\<lambda>i. calcSumWithinRange (edgeWeights nw) (firstNeighborIndices nw ! i)
                 (firstNeighborIndices nw ! (i + 1))) [0..<nNodes nw]"

text \<open>
  \<open>createNormalizedNetworkUsingAssociationStrength\<close>.  The new weight array starts
  as \<open>new Array(nEdges)\<close>; its entries stand as \<open>0\<close> here until the loop writes them.
\<close>

definition createNormalizedNetworkUsingAssociationStrength :: "network \<Rightarrow> network" where
  "createNormalizedNetworkUsingAssociationStrength nw =
     (let totalNodeWeight = getTotalNodeWeight nw;
          ew = fold (\<lambda>i ew.
                 fold (\<lambda>j ew.
                     ew[j := edgeWeights nw ! j /
                             ((nodeWeights nw ! i * nodeWeights nw ! (neighbors nw ! j))
                               / totalNodeWeight)])
                   [firstNeighborIndices nw ! i..<firstNeighborIndices nw ! (i + 1)] ew)
               [0..<nNodes nw] (replicate (nEdges nw) 0)
      in \<lparr>nNodes = nNodes nw,
          nodeWeights = replicate (nNodes nw) 1,
          firstNeighborIndices = firstNeighborIndices nw,
          neighbors = neighbors nw,
          edgeWeights = ew,
          totalEdgeWeightSelfLinks = 0,
          nEdges = nEdges nw\<rparr>)"

subsection \<open>The constructor from an edge list\<close>

text \<open>
  The constructor receives \<open>edges\<close> and \<open>edgeWeights\<close> by reference and writes through
  one of them, so this part of the model has a store: arrays live at addresses, \<open>edges\<close> is
  the address of an array of two addresses, and \<open>slice\<close> and \<open>new Array\<close> allocate.
\<close>

type_synonym addr = nat

datatype jsArray = NodeArray "nat list" | WeightArray "real list" | RefArray "addr list"

type_synonym heap = "jsArray list"

definition alloc :: "heap \<Rightarrow> jsArray \<Rightarrow> heap \<times> addr" where
  "alloc h a = (h @ [a], length h)"

definition nodeArrayAt :: "heap \<Rightarrow> addr \<Rightarrow> nat list" where
  "nodeArrayAt h a = (case h ! a of NodeArray xs \<Rightarrow> xs | _ \<Rightarrow> [])"

definition weightArrayAt :: "heap \<Rightarrow> addr \<Rightarrow> real list" where
  "weightArrayAt h a = (case h ! a of WeightArray xs \<Rightarrow> xs | _ \<Rightarrow> [])"

definition refArrayAt :: "heap \<Rightarrow> addr \<Rightarrow> addr list" where
  "refArrayAt h a = (case h ! a of RefArray xs \<Rightarrow> xs | _ \<Rightarrow> [])"

text \<open>\<open>Object.assign(target, source)\<close> on arrays: the entries of the source overwrite.\<close>

definition objectAssign :: "real list \<Rightarrow> real list \<Rightarrow> real list" where
  "objectAssign target source = source @ drop (length source) target"

text \<open>
  \<open>sortEdges\<close>: the indices are sorted with the comparator \<open>compareEdges\<close>, which orders
  the pairs \<open>(edges[0][i], edges[1][i])\<close> lexicographically; \<open>Array.prototype.sort\<close> is
  stable.  The sorted columns are new arrays stored into the two slots of \<open>edges\<close>; the
  weights are written back into the array the argument \<open>edgeWeights\<close> refers to.
\<close>

definition sortEdges :: "heap \<Rightarrow> addr \<Rightarrow> addr option \<Rightarrow> heap" where
  "sortEdges h edges edgeWeightsRef =
     (let e0 = nodeArrayAt h (refArrayAt h edges ! 0);
          e1 = nodeArrayAt h (refArrayAt h edges ! 1);
          len = length e0;
          indices = sort_key (\<lambda>i. (e0 ! i, e1 ! i)) [0..<len];
          edgesSorted0 = map (\<lambda>i. e0 ! (indices ! i)) [0..<len];
          edgesSorted1 = map (\<lambda>i. e1 ! (indices ! i)) [0..<len];
          (h, b0) = alloc h (NodeArray edgesSorted0);
          (h, b1) = alloc h (NodeArray edgesSorted1);
          h = h[edges := RefArray ((refArrayAt h edges)[0 := b0])];
          h = h[edges := RefArray ((refArrayAt h edges)[1 := b1])]
      in case edgeWeightsRef of
           None \<Rightarrow> h
         | Some w \<Rightarrow>
             let edgeWeightsSorted = map (\<lambda>i. weightArrayAt h w ! (indices ! i)) [0..<len]
             in h[w := WeightArray (objectAssign (weightArrayAt h w) edgeWeightsSorted)])"

text \<open>
  The first loop of \<open>initializeNetworkBasedOnEdges\<close>: every edge is copied, and copied
  once more with its ends swapped unless it is a self-link.  The result is the two columns,
  the weights if there are any, and the number of entries written.
\<close>

definition symmetrizeStep ::
  "nat list \<Rightarrow> nat list \<Rightarrow> real list option \<Rightarrow> nat
   \<Rightarrow> nat list \<times> nat list \<times> real list option \<times> nat
   \<Rightarrow> nat list \<times> nat list \<times> real list option \<times> nat" where
  "symmetrizeStep e0 e1 edgeWeightsArg j st =
     (case st of (x0, x1, w2, i) \<Rightarrow>
        let x0 = x0[i := e0 ! j];
            x1 = x1[i := e1 ! j];
            w2 = (case edgeWeightsArg of None \<Rightarrow> w2
                  | Some ws \<Rightarrow> map_option (\<lambda>w2. w2[i := ws ! j]) w2);
            i = i + 1
        in if e0 ! j \<noteq> e1 ! j
           then (x0[i := e1 ! j], x1[i := e0 ! j],
                 (case edgeWeightsArg of None \<Rightarrow> w2
                  | Some ws \<Rightarrow> map_option (\<lambda>w2. w2[i := ws ! j]) w2),
                 i + 1)
           else (x0, x1, w2, i))"

definition symmetrizeEdges ::
  "nat list \<Rightarrow> nat list \<Rightarrow> real list option \<Rightarrow> nat list \<times> nat list \<times> real list option \<times> nat" where
  "symmetrizeEdges e0 e1 edgeWeightsArg =
     fold (symmetrizeStep e0 e1 edgeWeightsArg) [0..<length e0]
       (replicate (2 * length e0) 0, replicate (2 * length e0) 0,
        map_option (\<lambda>ws. replicate (2 * length e0) 0) edgeWeightsArg, 0)"

text \<open>
  The second loop writes the CSR arrays from the sorted edge list: a self-link adds its
  weight to \<open>totalEdgeWeightSelfLinks\<close>, any other edge is appended after the offsets up to
  its first end have been filled in.  The state is \<open>(i, nEdges, firstNeighborIndices,
  neighbors, edgeWeights, totalEdgeWeightSelfLinks)\<close>.
\<close>

definition buildCSR ::
  "nat \<Rightarrow> nat list \<Rightarrow> nat list \<Rightarrow> real list option
   \<Rightarrow> nat \<times> nat \<times> nat list \<times> nat list \<times> real list \<times> real" where
  "buildCSR n e0 e1 edgeWeightsArg =
     (let (i, nE, fni, nbrs, ews, selfLinks) =
            fold (\<lambda>j (i, nE, fni, nbrs, ews, selfLinks).
                if e0 ! j \<noteq> e1 ! j
                then (max i (e0 ! j + 1), nE + 1,
                      fold (\<lambda>i fni. fni[i := nE]) [i..<e0 ! j + 1] fni,
                      nbrs[nE := e1 ! j],
                      ews[nE := (case edgeWeightsArg of None \<Rightarrow> 1 | Some ws \<Rightarrow> ws ! j)],
                      selfLinks)
                else (i, nE, fni, nbrs, ews,
                      selfLinks + (case edgeWeightsArg of None \<Rightarrow> 1 | Some ws \<Rightarrow> ws ! j)))
              [0..<length e0]
              (1, 0, replicate (n + 1) 0, replicate (length e0) 0, replicate (length e0) 0, 0)
      in (max i (n + 1), nE, fold (\<lambda>i fni. fni[i := nE]) [i..<n + 1] fni,
          take nE nbrs, take nE ews, selfLinks))"

text \<open>
  \<open>initializeNetworkBasedOnEdges\<close>, with the store before and after.  \<open>ewRef\<close> is the
  local variable \<open>edgeWeights\<close> of the method: after the first loop it refers to a fresh
  array, and it is this array that \<open>sortEdges\<close> sorts.  With \<open>checkIntegrity\<close> set, a network that fails the
  integrity conditions makes the constructor throw.
\<close>

definition initializeNetworkBasedOnEdges ::
  "heap \<Rightarrow> nat \<Rightarrow> real list option \<Rightarrow> bool \<Rightarrow> addr \<Rightarrow> addr option \<Rightarrow> bool \<Rightarrow> bool
   \<Rightarrow> heap \<times> (error + network)" where
  "initializeNetworkBasedOnEdges h n nodeWeightsArg setNodeWeightsToTotalEdgeWeights edges
     edgeWeightsArg sortedEdges checkIntegrityArg =
     (let (h, ewRef) =
            (if \<not> sortedEdges
             then
               let e0 = nodeArrayAt h (refArrayAt h edges ! 0);
                   e1 = nodeArrayAt h (refArrayAt h edges ! 1);
                   (x0, x1, w2, i) =
                     symmetrizeEdges e0 e1 (map_option (weightArrayAt h) edgeWeightsArg);
                   (h, s0) = alloc h (NodeArray (take i x0));
                   h = h[edges := RefArray ((refArrayAt h edges)[0 := s0])];
                   (h, s1) = alloc h (NodeArray (take i x1));
                   h = h[edges := RefArray ((refArrayAt h edges)[1 := s1])];
                   (h, ewRef) =
                     (case w2 of None \<Rightarrow> (h, edgeWeightsArg)
                      | Some w2 \<Rightarrow> let (h, w) = alloc h (WeightArray (take i w2)) in (h, Some w))
               in (sortEdges h edges ewRef, ewRef)
             else (h, edgeWeightsArg));
          e0 = nodeArrayAt h (refArrayAt h edges ! 0);
          e1 = nodeArrayAt h (refArrayAt h edges ! 1);
          (i, nE, fni, nbrs, ews, selfLinks) =
            buildCSR n e0 e1 (map_option (weightArrayAt h) ewRef);
          nw0 = \<lparr>nNodes = n, nodeWeights = [], firstNeighborIndices = fni, neighbors = nbrs,
                 edgeWeights = ews, totalEdgeWeightSelfLinks = selfLinks, nEdges = nE\<rparr>;
          nw = nw0\<lparr>nodeWeights :=
                 (case nodeWeightsArg of
                    Some ws \<Rightarrow> ws
                  | None \<Rightarrow> if setNodeWeightsToTotalEdgeWeights
                            then getTotalEdgeWeightPerNodeHelper nw0
                            else replicate n 1)\<rparr>
      in (h, if checkIntegrityArg \<and> \<not> integrity nw then Inl IllegalArgument else Inr nw))"

text \<open>
  \<open>initializeNetworkBasedOnNeighbors\<close>: the arrays are copied, an absent array of edge
  weights stands for weights \<open>1\<close>, and there is no self-link weight.
\<close>

definition initializeNetworkBasedOnNeighbors ::
  "nat \<Rightarrow> real list option \<Rightarrow> bool \<Rightarrow> nat list \<Rightarrow> nat list \<Rightarrow> real list option \<Rightarrow> bool
   \<Rightarrow> error + network" where
  "initializeNetworkBasedOnNeighbors n nodeWeightsArg setNodeWeightsToTotalEdgeWeights
     firstNeighborIndicesArg neighborsArg edgeWeightsArg checkIntegrityArg =
     (let nw0 = \<lparr>nNodes = n, nodeWeights = [], firstNeighborIndices = firstNeighborIndicesArg,
                 neighbors = neighborsArg,
                 edgeWeights = (case edgeWeightsArg of Some ws \<Rightarrow> ws
                                | None \<Rightarrow> replicate (length neighborsArg) 1),
                 totalEdgeWeightSelfLinks = 0, nEdges = length neighborsArg\<rparr>;
          nw = nw0\<lparr>nodeWeights :=
                 (case nodeWeightsArg of
                    Some ws \<Rightarrow> ws
                  | None \<Rightarrow> if setNodeWeightsToTotalEdgeWeights
                            then getTotalEdgeWeightPerNodeHelper nw0
                            else replicate n 1)\<rparr>
      in if checkIntegrityArg \<and> \<not> integrity nw then Inl IllegalArgument else Inr nw)"

text \<open>
  The parameter object of the constructor.  Every field is optional; the fields \<open>edges\<close> and
  \<open>edgeWeights\<close> are references into the caller's store.
\<close>

record networkConstructorParameters =
  pNNodes :: "nat option"
  pSetNodeWeightsToTotalEdgeWeights :: "bool option"
  pNodeWeights :: "real list option"
  pEdges :: "addr option"
  pFirstNeighborIndices :: "nat list option"
  pNeighbors :: "nat list option"
  pEdgeWeights :: "addr option"
  pSortedEdges :: "bool option"
  pCheckIntegrity :: "bool option"

text \<open>
  The tests of the constructor are tests for truthiness: an array is truthy when it is
  present, a number when it is present and not \<open>0\<close>, a flag when it is present and \<open>true\<close>.
\<close>

definition truthyNumber :: "nat option \<Rightarrow> bool" where
  "truthyNumber n = (case n of None \<Rightarrow> False | Some n \<Rightarrow> n \<noteq> 0)"

definition truthyFlag :: "bool option \<Rightarrow> bool" where
  "truthyFlag b = (case b of None \<Rightarrow> False | Some b \<Rightarrow> b)"

text \<open>
  The constructor of \<open>Network\<close>, with the store before and after.  It chooses one of the
  two initialisation methods by the parameters that are present; when none of the four
  tests succeeds, or when there is no parameter object, the fields of the new object stay
  undefined (\<open>None\<close>) and nothing is written.
\<close>

definition networkConstructor ::
  "heap \<Rightarrow> networkConstructorParameters option \<Rightarrow> heap \<times> (error + network option)" where
  "networkConstructor h parameters =
     (case parameters of
        None \<Rightarrow> (h, Inr None)
      | Some p \<Rightarrow>
          if pNodeWeights p \<noteq> None \<and> pEdges p \<noteq> None
          then
            let (h, r) = initializeNetworkBasedOnEdges h (length (the (pNodeWeights p)))
                           (pNodeWeights p) (truthyFlag (pSetNodeWeightsToTotalEdgeWeights p))
                           (the (pEdges p)) (pEdgeWeights p) (truthyFlag (pSortedEdges p))
                           (truthyFlag (pCheckIntegrity p))
            in (h, map_sum id Some r)
          else if pNodeWeights p \<noteq> None \<and> pFirstNeighborIndices p \<noteq> None \<and> pNeighbors p \<noteq> None
          then
            (h, map_sum id Some
                  (initializeNetworkBasedOnNeighbors (length (the (pNodeWeights p)))
                     (pNodeWeights p) (truthyFlag (pSetNodeWeightsToTotalEdgeWeights p))
                     (the (pFirstNeighborIndices p)) (the (pNeighbors p))
                     (map_option (weightArrayAt h) (pEdgeWeights p))
                     (truthyFlag (pCheckIntegrity p))))
          else if truthyNumber (pNNodes p) \<and> pEdges p \<noteq> None
          then
            let (h, r) = initializeNetworkBasedOnEdges h (the (pNNodes p))
                           (pNodeWeights p) (truthyFlag (pSetNodeWeightsToTotalEdgeWeights p))
                           (the (pEdges p)) (pEdgeWeights p) (truthyFlag (pSortedEdges p))
                           (truthyFlag (pCheckIntegrity p))
            in (h, map_sum id Some r)
          else if truthyNumber (pNNodes p) \<and> pFirstNeighborIndices p \<noteq> None \<and> pNeighbors p \<noteq> None
          then
            (h, map_sum id Some
                  (initializeNetworkBasedOnNeighbors (the (pNNodes p))
                     (pNodeWeights p) (truthyFlag (pSetNodeWeightsToTotalEdgeWeights p))
                     (the (pFirstNeighborIndices p)) (the (pNeighbors p))
                     (map_option (weightArrayAt h) (pEdgeWeights p))
                     (truthyFlag (pCheckIntegrity p))))
          else (h, Inr None))"

text \<open>
  A parameter object selects the edge list when it holds \<open>edges\<close> together with node weights
  or with a number of nodes that is not \<open>0\<close>.
\<close>

definition selectsEdgeList :: "networkConstructorParameters \<Rightarrow> bool" where
  "selectsEdgeList p =
     (pEdges p \<noteq> None \<and> (pNodeWeights p \<noteq> None \<or> truthyNumber (pNNodes p)))"

text \<open>
  The edge list after the first loop, as the specification describes it: both directions
  of every edge that is not a self-link, a self-link once.
\<close>

definition symmetrized :: "(nat \<times> nat) list \<Rightarrow> (nat \<times> nat) list" where
  "symmetrized es = concat (map (\<lambda>(u, v). if u \<noteq> v then [(u, v), (v, u)] else [(u, v)]) es)"

text \<open>The state of the first loop after \<open>m\<close> edges have been read.\<close>

definition symInv :: "nat list \<Rightarrow> nat list \<Rightarrow> real list option \<Rightarrow> nat \<Rightarrow> nat list \<times> nat list \<times> real list option \<times> nat \<Rightarrow> bool" where
  "symInv e0 e1 wo m st = (case st of (x0, x1, w2, i) \<Rightarrow>
        i = length (symmetrized (take m (zip e0 e1))) \<and>
        length x0 = 2 * length e0 \<and> length x1 = 2 * length e0 \<and>
        take i x0 = map fst (symmetrized (take m (zip e0 e1))) \<and>
        take i x1 = map snd (symmetrized (take m (zip e0 e1))) \<and>
        (w2 = None \<longleftrightarrow> wo = None))"

text \<open>
  The edge list a caller reads through \<open>edges\<close>, and what the types of the arguments say about
  the store: \<open>edges\<close> holds two columns of one length, \<open>edgeWeights\<close> is absent or an array of
  weights.
\<close>

definition edgeListAt :: "heap \<Rightarrow> addr \<Rightarrow> (nat \<times> nat) list" where
  "edgeListAt h edges =
     zip (nodeArrayAt h (refArrayAt h edges ! 0)) (nodeArrayAt h (refArrayAt h edges ! 1))"

definition wellTypedArgs :: "heap \<Rightarrow> addr \<Rightarrow> addr option \<Rightarrow> bool" where
  "wellTypedArgs h edges edgeWeightsRef =
     (edges < length h \<and>
      (case h ! edges of
         RefArray [a0, a1] \<Rightarrow>
           a0 < length h \<and> a1 < length h \<and>
           (case (h ! a0, h ! a1) of
              (NodeArray e0, NodeArray e1) \<Rightarrow> length e0 = length e1
            | _ \<Rightarrow> False)
       | _ \<Rightarrow> False) \<and>
      (case edgeWeightsRef of
         None \<Rightarrow> True
       | Some w \<Rightarrow> w < length h \<and> (case h ! w of WeightArray ws \<Rightarrow> True | _ \<Rightarrow> False)))"

text \<open>
  A caller's store: the edge list \<open>(0,1), (0,0)\<close> at address \<open>2\<close> with its two columns at
  \<open>0\<close> and \<open>1\<close>, and the weights \<open>1, 1\<close> at address \<open>3\<close>.
\<close>

definition callerHeap :: heap where
  "callerHeap = [NodeArray [0, 0], NodeArray [1, 0], RefArray [0, 1], WeightArray [1, 1]]"

text \<open>
  Parameter objects over the caller's store \<open>callerHeap\<close>: the edge list and the weights with
  two nodes, and the same without a number of nodes.
\<close>

definition edgeListParameters :: networkConstructorParameters where
  "edgeListParameters =
     \<lparr>pNNodes = Some 2, pSetNodeWeightsToTotalEdgeWeights = None, pNodeWeights = None,
      pEdges = Some 2, pFirstNeighborIndices = None, pNeighbors = None,
      pEdgeWeights = Some 3, pSortedEdges = None, pCheckIntegrity = Some True\<rparr>"

definition edgesOnlyParameters :: networkConstructorParameters where
  "edgesOnlyParameters = edgeListParameters\<lparr>pNNodes := None\<rparr>"

subsection \<open>Reduced networks\<close>

text \<open>
  \<open>createReducedNetwork\<close>.  The state of its loops is a record: the fields of the network
  under construction that the loops write, the two result arrays \<open>reducedNetworkNeighbors1\<close>
  and \<open>reducedNetworkEdgeWeights1\<close>, the two scratch arrays \<open>reducedNetworkNeighbors2\<close> and
  \<open>reducedNetworkEdgeWeights2\<close>, and the counter \<open>j\<close>.  The scratch array of neighbours is
  allocated with \<open>nClusters - 1\<close> entries, which throws for a clustering without clusters.
\<close>

record reduceState =
  rNEdges :: nat
  rNodeWeights :: "real list"
  rFirstNeighborIndices :: "nat list"
  rSelfLinks :: real
  rNeighbors1 :: "nat list"
  rEdgeWeights1 :: "real list"
  rNeighbors2 :: "nat list"
  rEdgeWeights2 :: "real list"
  rJ :: nat

text \<open>The body of the loop over the neighbours \<open>m\<close> of a node of cluster \<open>i\<close>.\<close>

definition reduceEdge :: "network \<Rightarrow> clustering \<Rightarrow> nat \<Rightarrow> nat \<Rightarrow> reduceState \<Rightarrow> reduceState" where
  "reduceEdge nw cl i m st =
     (let n = clusters cl ! (neighbors nw ! m)
      in if n \<noteq> i
         then (let st = (if rEdgeWeights2 st ! n = 0
                         then st\<lparr>rNeighbors2 := (rNeighbors2 st)[rJ st := n], rJ := rJ st + 1\<rparr>
                         else st)
               in st\<lparr>rEdgeWeights2 := (rEdgeWeights2 st)[n := rEdgeWeights2 st ! n + edgeWeights nw ! m]\<rparr>)
         else st\<lparr>rSelfLinks := rSelfLinks st + edgeWeights nw ! m\<rparr>)"

text \<open>The body of the loop over the nodes \<open>l\<close> of cluster \<open>i\<close>.\<close>

definition reduceNode :: "network \<Rightarrow> clustering \<Rightarrow> nat \<Rightarrow> nat \<Rightarrow> reduceState \<Rightarrow> reduceState" where
  "reduceNode nw cl i l st =
     fold (reduceEdge nw cl i)
       [firstNeighborIndices nw ! l..<firstNeighborIndices nw ! (l + 1)]
       (st\<lparr>rNodeWeights := (rNodeWeights st)[i := rNodeWeights st ! i + nodeWeights nw ! l]\<rparr>)"

text \<open>The body of the loop that copies the \<open>j\<close> collected neighbours of cluster \<open>i\<close>.\<close>

definition reduceCopy :: "nat \<Rightarrow> reduceState \<Rightarrow> reduceState" where
  "reduceCopy k st =
     st\<lparr>rNeighbors1 := (rNeighbors1 st)[rNEdges st + k := rNeighbors2 st ! k],
        rEdgeWeights1 := (rEdgeWeights1 st)[rNEdges st + k := rEdgeWeights2 st ! (rNeighbors2 st ! k)],
        rEdgeWeights2 := (rEdgeWeights2 st)[rNeighbors2 st ! k := 0]\<rparr>"

text \<open>The body of the loop over the clusters \<open>i\<close>.\<close>

definition reduceCluster ::
  "network \<Rightarrow> clustering \<Rightarrow> nat list list \<Rightarrow> nat \<Rightarrow> reduceState \<Rightarrow> reduceState" where
  "reduceCluster nw cl nodesPerCluster i st =
     (let st = st\<lparr>rJ := 0\<rparr>;
          st = fold (\<lambda>k st. reduceNode nw cl i (nodesPerCluster ! i ! k) st)
                 [0..<length (nodesPerCluster ! i)] st;
          st = fold reduceCopy [0..<rJ st] st;
          st = st\<lparr>rNEdges := rNEdges st + rJ st\<rparr>
      in st\<lparr>rFirstNeighborIndices := (rFirstNeighborIndices st)[i + 1 := rNEdges st]\<rparr>)"

definition createReducedNetwork :: "network \<Rightarrow> clustering \<Rightarrow> error + network" where
  "createReducedNetwork nw cl =
     (if nClusters cl = 0 then Inl RangeError
      else
        let st0 = \<lparr>rNEdges = 0,
                   rNodeWeights = replicate (nClusters cl) 0,
                   rFirstNeighborIndices = replicate (nClusters cl + 1) 0,
                   rSelfLinks = totalEdgeWeightSelfLinks nw,
                   rNeighbors1 = replicate (nEdges nw) 0,
                   rEdgeWeights1 = replicate (nEdges nw) 0,
                   rNeighbors2 = replicate (nClusters cl - 1) 0,
                   rEdgeWeights2 = replicate (nClusters cl) 0,
                   rJ = 0\<rparr>;
            nodesPerCluster = getNodesPerCluster cl;
            st = fold (reduceCluster nw cl nodesPerCluster) [0..<nClusters cl] st0
        in Inr \<lparr>nNodes = nClusters cl,
                nodeWeights = rNodeWeights st,
                firstNeighborIndices = rFirstNeighborIndices st,
                neighbors = take (rNEdges st) (rNeighbors1 st),
                edgeWeights = take (rNEdges st) (rEdgeWeights1 st),
                totalEdgeWeightSelfLinks = rSelfLinks st,
                nEdges = rNEdges st\<rparr>)"

text \<open>
  The state of \<open>createReducedNetwork\<close> under the singleton clustering when the clusters
  below \<open>i\<close> have been handled: the arrays built so far agree with those of the network.
\<close>

definition reduceInv :: "network \<Rightarrow> nat \<Rightarrow> reduceState \<Rightarrow> bool" where
  "reduceInv nw i st =
     (rNEdges st = firstNeighborIndices nw ! i \<and>
      rSelfLinks st = totalEdgeWeightSelfLinks nw \<and>
      rEdgeWeights2 st = replicate (nNodes nw) 0 \<and>
      length (rNeighbors2 st) = nNodes nw - 1 \<and>
      length (rNeighbors1 st) = nEdges nw \<and>
      length (rEdgeWeights1 st) = nEdges nw \<and>
      length (rNodeWeights st) = nNodes nw \<and>
      length (rFirstNeighborIndices st) = nNodes nw + 1 \<and>
      (\<forall>x<firstNeighborIndices nw ! i.
         rNeighbors1 st ! x = neighbors nw ! x \<and> rEdgeWeights1 st ! x = edgeWeights nw ! x) \<and>
      (\<forall>x<nNodes nw. rNodeWeights st ! x = (if x < i then nodeWeights nw ! x else 0)) \<and>
      (\<forall>x\<le>i. rFirstNeighborIndices st ! x = firstNeighborIndices nw ! x))"

subsection \<open>Subnetworks\<close>




section \<open>The CPM quality function (CPMClusteringAlgorithm.ts)\<close>

definition calcQuality :: "real \<Rightarrow> network \<Rightarrow> clustering \<Rightarrow> error + real" where
  "calcQuality resolution nw cl =
     (let quality =
            fold (\<lambda>i q.
                fold (\<lambda>k q.
                    if clusters cl ! (neighbors nw ! k) = clusters cl ! i
                    then q + edgeWeights nw ! k else q)
                  [firstNeighborIndices nw ! i..<firstNeighborIndices nw ! (i + 1)] q)
              [0..<nNodes nw] 0;
          quality = quality + totalEdgeWeightSelfLinks nw;
          clusterWeights =
            fold (\<lambda>i a. a[clusters cl ! i := a ! (clusters cl ! i) + nodeWeights nw ! i])
              [0..<nNodes nw] (replicate (nClusters cl) 0);
          quality =
            fold (\<lambda>i q. q - clusterWeights ! i * clusterWeights ! i * resolution)
              [0..<nClusters cl] quality
      in divide_number quality (2 * getTotalEdgeWeight nw + totalEdgeWeightSelfLinks nw))"

subsection \<open>The quality function as the specification writes it\<close>

text \<open>
  \<open>adjacency nw i j\<close> is the entry \<open>a\<^sub>i\<^sub>j\<close> of the adjacency matrix that the CSR arrays
  store, \<open>totalUndirectedEdgeWeight\<close> is \<open>W\<close> (every undirected edge once), and
  \<open>cpmQualitySpec\<close> is the formula of the specification.
\<close>

definition adjacency :: "network \<Rightarrow> nat \<Rightarrow> nat \<Rightarrow> real" where
  "adjacency nw i j =
     (\<Sum>k = firstNeighborIndices nw ! i..<firstNeighborIndices nw ! (i + 1).
        if neighbors nw ! k = j then edgeWeights nw ! k else 0)"

definition totalUndirectedEdgeWeight :: "network \<Rightarrow> real" where
  "totalUndirectedEdgeWeight nw = (\<Sum>i = 0..<nNodes nw. \<Sum>j = 0..<i. adjacency nw i j)"

definition clusterWeight :: "network \<Rightarrow> nat list \<Rightarrow> nat \<Rightarrow> real" where
  "clusterWeight nw cs k = (\<Sum>i \<in> {i \<in> {0..<nNodes nw}. cs ! i = k}. nodeWeights nw ! i)"

definition cpmNumerator :: "real \<Rightarrow> network \<Rightarrow> nat list \<Rightarrow> real" where
  "cpmNumerator resolution nw cs =
     (\<Sum>i = 0..<nNodes nw. \<Sum>j = 0..<nNodes nw. if cs ! i = cs ! j then adjacency nw i j else 0)
     + totalEdgeWeightSelfLinks nw
     - resolution * (\<Sum>k \<in> set (take (nNodes nw) cs). (clusterWeight nw cs k)\<^sup>2)"

definition cpmQualitySpec :: "real \<Rightarrow> network \<Rightarrow> clustering \<Rightarrow> error + real" where
  "cpmQualitySpec resolution nw cl =
     divide_number (cpmNumerator resolution nw (clusters cl))
       (2 * totalUndirectedEdgeWeight nw + totalEdgeWeightSelfLinks nw)"

section \<open>The local moving algorithms\<close>

subsection \<open>generateRandomPermutation (utils/arrays.ts)\<close>

text \<open>
  The random number generator is the sequence of its results: \<open>nextInt i\<close> is what the
  \<open>i\<close>-th call \<open>random.nextInt(nElements)\<close> returns, a number below \<open>nElements\<close>.
\<close>

definition validDraws :: "nat \<Rightarrow> (nat \<Rightarrow> nat) \<Rightarrow> bool" where
  "validDraws n nextInt = (\<forall>i \<in> {0..<n}. nextInt i < n)"

definition generateRandomPermutation :: "nat \<Rightarrow> (nat \<Rightarrow> nat) \<Rightarrow> nat list" where
  "generateRandomPermutation nElements nextInt =
     fold (\<lambda>i permutation.
         let j = nextInt i;
             k = permutation ! i
         in permutation[i := permutation ! j, j := k])
       [0..<nElements]
       (fold (\<lambda>i permutation. permutation[i := i]) [0..<nElements] (replicate nElements 0))"

subsection \<open>The state of a sweep\<close>

text \<open>
  The local variables of \<open>improveClustering\<close> of the standard local moving algorithm and the
  two fields of the clustering it mutates (\<open>mClusters\<close> and \<open>mNClusters\<close>); \<open>pos\<close> is the loop
  variable \<open>i\<close>.  The counters of nodes per cluster are integers: the code decrements them.
  The fast local moving algorithm also writes the array \<open>nodeOrder\<close> and keeps \<open>stableNodes\<close>.
\<close>

record movingState =
  mClusters :: "nat list"
  mNClusters :: nat
  clusterWeights :: "real list"
  nNodesPerCluster :: "int list"
  unusedClusters :: "nat list"
  nUnusedClusters :: nat
  edgeWeightPerCluster :: "real list"
  neighboringClusters :: "nat list"
  nNeighboringClusters :: nat
  bestCluster :: nat
  maxQualityValueIncrement :: real
  nUnstableNodes :: nat
  pos :: nat
  update :: bool

record fastState = movingState +
  nodeOrder :: "nat list"
  stableNodes :: "bool list"

subsection \<open>Visiting a node\<close>

text \<open>
  The part of the loop body the two algorithms share, for the node \<open>j\<close>: remove the node
  from its cluster, collect the neighbouring clusters (the empty cluster on top of the
  stack first), choose the best one, and add the node to it.  \<open>mClusters\<close> still holds the
  old cluster of \<open>j\<close> afterwards, and \<open>bestCluster\<close> the chosen one.
\<close>

definition removeNode :: "network \<Rightarrow> nat \<Rightarrow> 'a movingState_scheme \<Rightarrow> 'a movingState_scheme" where
  "removeNode nw j st =
     (let currentCluster = mClusters st ! j;
          st = st\<lparr>clusterWeights := (clusterWeights st)[currentCluster :=
                     clusterWeights st ! currentCluster - nodeWeights nw ! j],
                  nNodesPerCluster := (nNodesPerCluster st)[currentCluster :=
                     nNodesPerCluster st ! currentCluster - 1]\<rparr>
      in if nNodesPerCluster st ! currentCluster = 0
         then st\<lparr>unusedClusters := (unusedClusters st)[nUnusedClusters st := currentCluster],
                 nUnusedClusters := nUnusedClusters st + 1\<rparr>
         else st)"

definition collectNeighbor :: "network \<Rightarrow> nat \<Rightarrow> 'a movingState_scheme \<Rightarrow> 'a movingState_scheme" where
  "collectNeighbor nw k st =
     (let l = mClusters st ! (neighbors nw ! k);
          st = (if edgeWeightPerCluster st ! l = 0
                then st\<lparr>neighboringClusters :=
                          (neighboringClusters st)[nNeighboringClusters st := l],
                        nNeighboringClusters := nNeighboringClusters st + 1\<rparr>
                else st)
      in st\<lparr>edgeWeightPerCluster :=
              (edgeWeightPerCluster st)[l := edgeWeightPerCluster st ! l + edgeWeights nw ! k]\<rparr>)"

definition identifyNeighboringClusters ::
  "network \<Rightarrow> nat \<Rightarrow> 'a movingState_scheme \<Rightarrow> 'a movingState_scheme" where
  "identifyNeighboringClusters nw j st =
     fold (collectNeighbor nw)
       [firstNeighborIndices nw ! j..<firstNeighborIndices nw ! (j + 1)]
       (st\<lparr>neighboringClusters :=
             (neighboringClusters st)[0 := unusedClusters st ! (nUnusedClusters st - 1)],
           nNeighboringClusters := 1\<rparr>)"

definition considerCluster ::
  "real \<Rightarrow> network \<Rightarrow> nat \<Rightarrow> nat \<Rightarrow> 'a movingState_scheme \<Rightarrow> 'a movingState_scheme" where
  "considerCluster resolution nw j k st =
     (let l = neighboringClusters st ! k;
          qualityValueIncrement =
            edgeWeightPerCluster st ! l - nodeWeights nw ! j * clusterWeights st ! l * resolution;
          st = (if qualityValueIncrement > maxQualityValueIncrement st
                then st\<lparr>bestCluster := l, maxQualityValueIncrement := qualityValueIncrement\<rparr>
                else st)
      in st\<lparr>edgeWeightPerCluster := (edgeWeightPerCluster st)[l := 0]\<rparr>)"

definition findBestCluster ::
  "real \<Rightarrow> network \<Rightarrow> nat \<Rightarrow> 'a movingState_scheme \<Rightarrow> 'a movingState_scheme" where
  "findBestCluster resolution nw j st =
     (let currentCluster = mClusters st ! j
      in fold (considerCluster resolution nw j) [0..<nNeighboringClusters st]
           (st\<lparr>bestCluster := currentCluster,
               maxQualityValueIncrement :=
                 edgeWeightPerCluster st ! currentCluster
                 - nodeWeights nw ! j * clusterWeights st ! currentCluster * resolution\<rparr>))"

definition addNode :: "network \<Rightarrow> nat \<Rightarrow> 'a movingState_scheme \<Rightarrow> 'a movingState_scheme" where
  "addNode nw j st =
     (let b = bestCluster st;
          st = st\<lparr>clusterWeights := (clusterWeights st)[b := clusterWeights st ! b + nodeWeights nw ! j],
                  nNodesPerCluster := (nNodesPerCluster st)[b := nNodesPerCluster st ! b + 1]\<rparr>
      in if b = unusedClusters st ! (nUnusedClusters st - 1)
         then st\<lparr>nUnusedClusters := nUnusedClusters st - 1\<rparr>
         else st)"

definition moveNode :: "real \<Rightarrow> network \<Rightarrow> nat \<Rightarrow> 'a movingState_scheme \<Rightarrow> 'a movingState_scheme" where
  "moveNode resolution nw j st =
     addNode nw j (findBestCluster resolution nw j (identifyNeighboringClusters nw j (removeNode nw j st)))"

text \<open>The statistics both algorithms compute before their loop.\<close>

definition initialClusterWeights :: "network \<Rightarrow> clustering \<Rightarrow> real list" where
  "initialClusterWeights nw cl =
     fold (\<lambda>i a. a[clusters cl ! i := a ! (clusters cl ! i) + nodeWeights nw ! i])
       [0..<nNodes nw] (replicate (nNodes nw) 0)"

definition initialNNodesPerCluster :: "network \<Rightarrow> clustering \<Rightarrow> int list" where
  "initialNNodesPerCluster nw cl =
     fold (\<lambda>i a. a[clusters cl ! i := a ! (clusters cl ! i) + 1])
       [0..<nNodes nw] (replicate (nNodes nw) 0)"

definition initialUnusedClusters :: "nat \<Rightarrow> int list \<Rightarrow> nat list \<times> nat" where
  "initialUnusedClusters n counts =
     fold (\<lambda>i (unused, nUnused).
         if counts ! i = 0 then (unused[nUnused := i], nUnused + 1) else (unused, nUnused))
       (rev [0..<n]) (replicate (n - 1) 0, 0)"

definition initialMovingState :: "network \<Rightarrow> clustering \<Rightarrow> movingState" where
  "initialMovingState nw cl =
     (let counts = initialNNodesPerCluster nw cl
      in \<lparr>mClusters = clusters cl,
          mNClusters = nClusters cl,
          clusterWeights = initialClusterWeights nw cl,
          nNodesPerCluster = counts,
          unusedClusters = fst (initialUnusedClusters (nNodes nw) counts),
          nUnusedClusters = snd (initialUnusedClusters (nNodes nw) counts),
          edgeWeightPerCluster = replicate (nNodes nw) 0,
          neighboringClusters = replicate (nNodes nw) 0,
          nNeighboringClusters = 0,
          bestCluster = 0,
          maxQualityValueIncrement = 0,
          nUnstableNodes = nNodes nw,
          pos = 0,
          update = False\<rparr>)"

text \<open>The clustering object as a state of the sweep leaves it.\<close>

definition clusteringOf :: "clustering \<Rightarrow> 'a movingState_scheme \<Rightarrow> clustering" where
  "clusteringOf cl st = cl\<lparr>clusters := mClusters st, nClusters := mNClusters st\<rparr>"

subsection \<open>The standard local moving algorithm (class StandardLocalMovingAlgorithm)\<close>

definition standardStep :: "real \<Rightarrow> network \<Rightarrow> nat list \<Rightarrow> movingState \<Rightarrow> movingState" where
  "standardStep resolution nw order st =
     (let j = order ! pos st;
          st = moveNode resolution nw j st;
          st = st\<lparr>nUnstableNodes := nUnstableNodes st - 1\<rparr>;
          st = (if bestCluster st \<noteq> mClusters st ! j
                then st\<lparr>mClusters := (mClusters st)[j := bestCluster st],
                        mNClusters := (if bestCluster st \<ge> mNClusters st
                                       then bestCluster st + 1 else mNClusters st),
                        nUnstableNodes := nNodes nw,
                        update := True\<rparr>
                else st)
      in st\<lparr>pos := (if pos st < nNodes nw - 1 then pos st + 1 else 0)\<rparr>)"

text \<open>
  The do-while loop.  Nothing in the code bounds the number of its rounds, so the loop is a
  partial function: \<open>None\<close> is a loop that never ends.
\<close>

partial_function (option) standardLoop ::
  "real \<Rightarrow> network \<Rightarrow> nat list \<Rightarrow> movingState \<Rightarrow> movingState option" where
  "standardLoop resolution nw order st =
     (let st = standardStep resolution nw order st
      in if nUnstableNodes st > 0 then standardLoop resolution nw order st else Some st)"

declare standardLoop.simps [code]

text \<open>
  \<open>improveClustering\<close> of the standard algorithm.  A network of one node is left alone; for
  a network without nodes the allocation of \<open>unusedClusters\<close> with \<open>nNodes - 1\<close> entries throws.
\<close>

definition improveClusteringStandard ::
  "real \<Rightarrow> (nat \<Rightarrow> nat) \<Rightarrow> network \<Rightarrow> clustering \<Rightarrow> (error + clustering \<times> bool) option" where
  "improveClusteringStandard resolution nextInt nw cl =
     (if nNodes nw = 1 then Some (Inr (cl, False))
      else if nNodes nw = 0 then Some (Inl RangeError)
      else
        case standardLoop resolution nw (generateRandomPermutation (nNodes nw) nextInt)
               (initialMovingState nw cl) of
          None \<Rightarrow> None
        | Some st \<Rightarrow>
            Some (Inr (if update st then removeEmptyClusters (clusteringOf cl st)
                       else clusteringOf cl st,
                       update st)))"

subsection \<open>The fast local moving algorithm (fastLocalMovingAlgorithm.ts)\<close>

text \<open>The body of the loop that puts the neighbours of a moved node \<open>j\<close> back into the queue.\<close>

definition enqueueNeighbor :: "network \<Rightarrow> nat \<Rightarrow> fastState \<Rightarrow> fastState" where
  "enqueueNeighbor nw k st =
     (if stableNodes st ! (neighbors nw ! k) \<and> mClusters st ! (neighbors nw ! k) \<noteq> bestCluster st
      then
        let st = st\<lparr>stableNodes := (stableNodes st)[neighbors nw ! k := False],
                    nUnstableNodes := nUnstableNodes st + 1\<rparr>
        in st\<lparr>nodeOrder := (nodeOrder st)
                  [(if pos st + nUnstableNodes st < nNodes nw
                    then pos st + nUnstableNodes st
                    else pos st + nUnstableNodes st - nNodes nw) := neighbors nw ! k]\<rparr>
      else st)"

definition fastStep :: "real \<Rightarrow> network \<Rightarrow> fastState \<Rightarrow> fastState" where
  "fastStep resolution nw st =
     (let j = nodeOrder st ! pos st;
          st = moveNode resolution nw j st;
          st = st\<lparr>stableNodes := (stableNodes st)[j := True],
                  nUnstableNodes := nUnstableNodes st - 1\<rparr>;
          st = (if bestCluster st \<noteq> mClusters st ! j
                then
                  let st = st\<lparr>mClusters := (mClusters st)[j := bestCluster st],
                              mNClusters := (if bestCluster st \<ge> mNClusters st
                                             then bestCluster st + 1 else mNClusters st)\<rparr>;
                      st = fold (enqueueNeighbor nw)
                             [firstNeighborIndices nw ! j..<firstNeighborIndices nw ! (j + 1)] st
                  in st\<lparr>update := True\<rparr>
                else st)
      in st\<lparr>pos := (if pos st < nNodes nw - 1 then pos st + 1 else 0)\<rparr>)"

partial_function (option) fastLoop :: "real \<Rightarrow> network \<Rightarrow> fastState \<Rightarrow> fastState option" where
  "fastLoop resolution nw st =
     (let st = fastStep resolution nw st
      in if nUnstableNodes st > 0 then fastLoop resolution nw st else Some st)"

declare fastLoop.simps [code]

definition initialFastState :: "network \<Rightarrow> clustering \<Rightarrow> nat list \<Rightarrow> fastState" where
  "initialFastState nw cl order =
     movingState.extend (initialMovingState nw cl)
       \<lparr>nodeOrder = order, stableNodes = replicate (nNodes nw) False\<rparr>"

definition improveClusteringOneIterationFast ::
  "real \<Rightarrow> (nat \<Rightarrow> nat) \<Rightarrow> network \<Rightarrow> clustering \<Rightarrow> (error + clustering \<times> bool) option" where
  "improveClusteringOneIterationFast resolution nextInt nw cl =
     (if nNodes nw = 1 then Some (Inr (cl, False))
      else if nNodes nw = 0 then Some (Inl RangeError)
      else
        case fastLoop resolution nw
               (initialFastState nw cl (generateRandomPermutation (nNodes nw) nextInt)) of
          None \<Rightarrow> None
        | Some st \<Rightarrow>
            Some (Inr (if update st then removeEmptyClusters (clusteringOf cl st)
                       else clusteringOf cl st,
                       update st)))"

subsection \<open>What a sweep maintains\<close>

text \<open>
  The notions the correctness proof of the two loops is stated with: the numerator of the
  quality as a sum over the pairs of nodes of one cluster, the gain of moving node \<open>j\<close> to a
  cluster, and the relation between the arrays of a sweep and the clustering they describe.
\<close>

definition pairSum :: "nat \<Rightarrow> (nat \<Rightarrow> nat \<Rightarrow> real) \<Rightarrow> nat list \<Rightarrow> real" where
  "pairSum n b cs = (\<Sum>i = 0..<n. \<Sum>x = 0..<n. if cs ! i = cs ! x then b i x else 0)"

definition edgesToCluster :: "network \<Rightarrow> nat list \<Rightarrow> nat \<Rightarrow> nat \<Rightarrow> real" where
  "edgesToCluster nw cs j c =
     (\<Sum>k = firstNeighborIndices nw ! j..<firstNeighborIndices nw ! (j + 1).
        if cs ! (neighbors nw ! k) = c then edgeWeights nw ! k else 0)"

definition weightOn :: "network \<Rightarrow> nat set \<Rightarrow> nat list \<Rightarrow> nat \<Rightarrow> real" where
  "weightOn nw D cs c = (\<Sum>x \<in> D. if cs ! x = c then nodeWeights nw ! x else 0)"

definition moveGain :: "real \<Rightarrow> network \<Rightarrow> nat list \<Rightarrow> nat \<Rightarrow> nat \<Rightarrow> real" where
  "moveGain resolution nw cs j c =
     edgesToCluster nw cs j c
     - nodeWeights nw ! j * weightOn nw ({0..<nNodes nw} - {j}) cs c * resolution"

definition nonNegativeEdgeWeights :: "network \<Rightarrow> bool" where
  "nonNegativeEdgeWeights nw = (\<forall>k \<in> {0..<nEdges nw}. 0 \<le> edgeWeights nw ! k)"

definition statsInv :: "network \<Rightarrow> nat set \<Rightarrow> nat list \<Rightarrow> 'a movingState_scheme \<Rightarrow> bool" where
  "statsInv nw D cs st =
     (length (clusterWeights st) = nNodes nw \<and>
      (\<forall>c < nNodes nw. clusterWeights st ! c = weightOn nw D cs c) \<and>
      length (nNodesPerCluster st) = nNodes nw \<and>
      (\<forall>c < nNodes nw. nNodesPerCluster st ! c = int (card {v \<in> D. cs ! v = c})) \<and>
      length (unusedClusters st) = nNodes nw - 1 \<and>
      nUnusedClusters st \<le> nNodes nw - 1 \<and>
      distinct (take (nUnusedClusters st) (unusedClusters st)) \<and>
      set (take (nUnusedClusters st) (unusedClusters st)) = {0..<nNodes nw} - (\<lambda>v. cs ! v) ` D)"

definition collected ::
  "network \<Rightarrow> nat list \<Rightarrow> nat \<Rightarrow> nat \<Rightarrow> nat \<Rightarrow> 'a movingState_scheme \<Rightarrow> bool" where
  "collected nw cs tc a p st =
     (length (neighboringClusters st) = nNodes nw \<and>
      1 \<le> nNeighboringClusters st \<and> nNeighboringClusters st \<le> 1 + p \<and>
      neighboringClusters st ! 0 = tc \<and>
      set (take (nNeighboringClusters st) (neighboringClusters st))
        \<subseteq> insert tc ((\<lambda>k. cs ! (neighbors nw ! k)) ` {a..<a + p}) \<and>
      length (edgeWeightPerCluster st) = nNodes nw \<and>
      (\<forall>l < nNodes nw. edgeWeightPerCluster st ! l
          = (\<Sum>k = a..<a + p. if cs ! (neighbors nw ! k) = l then edgeWeights nw ! k else 0)) \<and>
      (\<forall>l < nNodes nw. edgeWeightPerCluster st ! l \<noteq> 0 \<longrightarrow>
          l \<in> set (take (nNeighboringClusters st) (neighboringClusters st))))"

definition considered ::
  "real \<Rightarrow> network \<Rightarrow> nat list \<Rightarrow> nat \<Rightarrow> nat list \<Rightarrow> nat \<Rightarrow> 'a movingState_scheme \<Rightarrow> bool" where
  "considered r nw cs j N t st =
     (length (edgeWeightPerCluster st) = nNodes nw \<and>
      (\<forall>l < nNodes nw. edgeWeightPerCluster st ! l
          = (if l \<in> set (take t N) then 0 else edgesToCluster nw cs j l)) \<and>
      bestCluster st \<in> insert (cs ! j) (set (take t N)) \<and>
      ((\<forall>l. 0 \<le> edgesToCluster nw cs j l) \<longrightarrow>
       bestCluster st = cs ! j \<and> maxQualityValueIncrement st = moveGain r nw cs j (cs ! j)
       \<or> moveGain r nw cs j (cs ! j) < maxQualityValueIncrement st
         \<and> maxQualityValueIncrement st \<le> moveGain r nw cs j (bestCluster st)))"

definition movingInv :: "network \<Rightarrow> 'a movingState_scheme \<Rightarrow> bool" where
  "movingInv nw st =
     (length (mClusters st) = nNodes nw \<and>
      (\<forall>v < nNodes nw. mClusters st ! v < nNodes nw) \<and>
      (\<forall>v < nNodes nw. mClusters st ! v < mNClusters st) \<and>
      statsInv nw {0..<nNodes nw} (mClusters st) st \<and>
      edgeWeightPerCluster st = replicate (nNodes nw) 0 \<and>
      length (neighboringClusters st) = nNodes nw)"

definition assignments :: "nat \<Rightarrow> nat list set" where
  "assignments n = {cs. set cs \<subseteq> {0..<n} \<and> length cs = n}"

definition potential :: "real \<Rightarrow> network \<Rightarrow> nat list \<Rightarrow> nat" where
  "potential r nw cs =
     card {cs' \<in> assignments (nNodes nw). cpmNumerator r nw cs < cpmNumerator r nw cs'}"

definition fitsNetwork :: "network \<Rightarrow> clustering \<Rightarrow> bool" where
  "fitsNetwork nw cl =
     (rangeInvariant cl \<and> cnNodes cl = nNodes nw \<and>
      (\<forall>i \<in> {0..<nNodes nw}. clusters cl ! i < nNodes nw))"

definition queueInv :: "network \<Rightarrow> fastState \<Rightarrow> bool" where
  "queueInv nw st =
     (pos st < nNodes nw \<and>
      length (nodeOrder st) = nNodes nw \<and>
      (\<forall>t < nNodes nw. nodeOrder st ! t < nNodes nw) \<and>
      length (stableNodes st) = nNodes nw \<and>
      nUnstableNodes st \<le> card {v \<in> {0..<nNodes nw}. \<not> stableNodes st ! v})"

section \<open>The refinement phase of the Leiden algorithm (leidenAlgorithm.ts)\<close>






section \<open>Small networks for the concrete checks\<close>

text \<open>
  The path \<open>0 - 1 - 2\<close> with edge weights \<open>2\<close> and \<open>3\<close> and node weights \<open>1, 2, 1\<close>, and the
  clustering that puts nodes \<open>0\<close> and \<open>1\<close> together.
\<close>

definition pathNetwork :: network where
  "pathNetwork =
     \<lparr>nNodes = 3, nodeWeights = [1, 2, 1], firstNeighborIndices = [0, 1, 3, 4],
      neighbors = [1, 0, 2, 1], edgeWeights = [2, 2, 3, 3],
      totalEdgeWeightSelfLinks = 0, nEdges = 4\<rparr>"

definition pathClustering :: clustering where
  "pathClustering = \<lparr>clusters = [0, 0, 1], nClusters = 2, cnNodes = 3\<rparr>"

text \<open>
  Two nodes joined by an edge of weight \<open>1\<close>, with a self-link of weight \<open>1\<close> at node \<open>0\<close>:
  what the constructor builds from the edge list \<open>(0,0), (0,1)\<close>.
\<close>

definition selfLinkNetwork :: network where
  "selfLinkNetwork =
     \<lparr>nNodes = 2, nodeWeights = [1, 1], firstNeighborIndices = [0, 1, 2],
      neighbors = [1, 0], edgeWeights = [1, 1],
      totalEdgeWeightSelfLinks = 1, nEdges = 2\<rparr>"

text \<open>The singleton clustering of two nodes after \<open>setCluster(1, 0)\<close>.\<close>

definition pairAfterSetCluster :: clustering where
  "pairAfterSetCluster = \<lparr>clusters = [0, 0], nClusters = 2, cnNodes = 2\<rparr>"

text \<open>The network without nodes, which passes every test of \<open>checkIntegrity\<close>.\<close>

definition emptyNetwork :: network where
  "emptyNetwork =
     \<lparr>nNodes = 0, nodeWeights = [], firstNeighborIndices = [0], neighbors = [],
      edgeWeights = [], totalEdgeWeightSelfLinks = 0, nEdges = 0\<rparr>"


text \<open>
  Two nodes joined by an edge of weight \<open>-1\<close>, both in cluster \<open>0\<close>; the permutation drawn
  with \<open>nextInt\<close> constantly \<open>0\<close> visits node \<open>1\<close> first.
\<close>

definition negativeNetwork :: network where
  "negativeNetwork =
     \<lparr>nNodes = 2, nodeWeights = [1, 1], firstNeighborIndices = [0, 1, 2],
      neighbors = [1, 0], edgeWeights = [- 1, - 1],
      totalEdgeWeightSelfLinks = 0, nEdges = 2\<rparr>"

definition pairClustering :: clustering where
  "pairClustering = \<lparr>clusters = [0, 0], nClusters = 1, cnNodes = 2\<rparr>"

definition drawZero :: "nat \<Rightarrow> nat" where
  "drawZero i = 0"

section \<open>Loops over arrays\<close>

lemma fold_add_sum:
  "fold (\<lambda>i s. s + f i) [a..<b] (s0::real) = s0 + (\<Sum>i = a..<b. f i)"
proof (induction b arbitrary: s0)
  case 0 show ?case by simp
next
  case (Suc b)
  show ?case
  proof (cases "a \<le> b")
    case True
    then show ?thesis using Suc by (simp add: sum.atLeastLessThan_Suc)
  next
    case False then show ?thesis by simp
  qed
qed

lemma calcSum_sum: "calcSum vs = (\<Sum>i = 0..<length vs. vs ! i)"
  by (simp add: calcSum_def fold_add_sum)

lemma calcSum_sum_list: "calcSum vs = sum_list vs"
  by (simp add: calcSum_sum sum_list_sum_nth)

lemma calcSumWithinRange_sum: "calcSumWithinRange vs a b = (\<Sum>i = a..<b. vs ! i)"
  by (simp add: calcSumWithinRange_def fold_add_sum)

lemma fold_update_map:
  "n \<le> length cs \<Longrightarrow>
   fold (\<lambda>i cs. cs[i := f (cs ! i)]) [0..<n] cs = map f (take n cs) @ drop n cs"
proof (induction n)
  case 0 show ?case by simp
next
  case (Suc n)
  then have n: "n < length cs" by simp
  have "fold (\<lambda>i cs. cs[i := f (cs ! i)]) [0..<Suc n] cs
        = (map f (take n cs) @ drop n cs)[n := f ((map f (take n cs) @ drop n cs) ! n)]"
    using Suc by simp
  also have "(map f (take n cs) @ drop n cs) ! n = cs ! n"
    using n by (simp add: nth_append)
  also have "(map f (take n cs) @ drop n cs)[n := f (cs ! n)]
        = map f (take (Suc n) cs) @ drop (Suc n) cs"
    using n by (simp add: list_update_append take_Suc_conv_app_nth Cons_nth_drop_Suc [symmetric])
  finally show ?case .
qed

lemma fold_update_map_all:
  "length cs = n \<Longrightarrow> fold (\<lambda>i cs. cs[i := f (cs ! i)]) [0..<n] cs = map f cs"
  using fold_update_map [of n cs f] by simp

lemma fold_init_index:
  "fold (\<lambda>i cs. cs[i := g i]) [0..<n] (replicate n z) = map g [0..<n]"
proof -
  have "m \<le> n \<Longrightarrow> fold (\<lambda>i cs. cs[i := g i]) [0..<m] (replicate n z) = map g [0..<m] @ replicate (n - m) z" for m
  proof (induction m)
    case 0 show ?case by simp
  next
    case (Suc m)
    then have "fold (\<lambda>i cs. cs[i := g i]) [0..<Suc m] (replicate n z)
      = (map g [0..<m] @ replicate (n - m) z)[m := g m]" by simp
    also have "\<dots> = map g [0..<m] @ (replicate (n - m) z)[0 := g m]"
      by (simp add: list_update_append)
    also have "replicate (n - m) z = z # replicate (n - Suc m) z"
      using Suc.prems by (metis Suc_diff_Suc Suc_le_lessD replicate_Suc)
    finally show ?case by simp
  qed
  from this [of n] show ?thesis by simp
qed

text \<open>A loop that adds into the entry \<open>g i\<close> of an array, as for \<open>clusterWeights\<close>.\<close>
lemma fold_accum_length:
  "length (fold (\<lambda>i a. a[g i := h i (a ! g i)]) xs a) = length a"
  by (induction xs arbitrary: a) auto

lemma fold_accum_real:
  fixes a :: "real list"
  assumes "k < length a"
  shows "fold (\<lambda>i a. a[g i := a ! g i + w i]) [0..<n] a ! k
         = a ! k + (\<Sum>i | i < n \<and> g i = k. w i)"
proof (induction n)
  case 0 show ?case by simp
next
  case (Suc n)
  let ?F = "fold (\<lambda>i a. a[g i := a ! g i + w i]) [0..<n] a"
  have len: "length ?F = length a" by (rule fold_accum_length)
  have set_eq: "{i. i < Suc n \<and> g i = k} = (if g n = k then insert n {i. i < n \<and> g i = k} else {i. i < n \<and> g i = k})"
    by (auto simp: less_Suc_eq)
  show ?case
  proof (cases "g n = k")
    case True
    then show ?thesis using Suc assms len set_eq by simp
  next
    case False
    then show ?thesis using Suc assms len set_eq by simp
  qed
qed

lemma fold_accum_nat:
  fixes a :: "nat list"
  assumes "k < length a"
  shows "fold (\<lambda>i a. a[g i := a ! g i + 1]) [0..<n] a ! k
         = a ! k + card {i. i < n \<and> g i = k}"
proof (induction n)
  case 0 show ?case by simp
next
  case (Suc n)
  let ?F = "fold (\<lambda>i a. a[g i := a ! g i + 1]) [0..<n] a"
  have len: "length ?F = length a" by (rule fold_accum_length)
  have set_eq: "{i. i < Suc n \<and> g i = k} = (if g n = k then insert n {i. i < n \<and> g i = k} else {i. i < n \<and> g i = k})"
    by (auto simp: less_Suc_eq)
  show ?case
  proof (cases "g n = k")
    case True
    then show ?thesis using Suc assms len set_eq by simp
  next
    case False
    then show ?thesis using Suc assms len set_eq by simp
  qed
qed

section \<open>Properties of the clustering operations\<close>

lemma rangeInvariant_set: "rangeInvariant c \<longleftrightarrow> length (clusters c) = cnNodes c \<and> (\<forall>k \<in> set (clusters c). k < nClusters c)"
  unfolding rangeInvariant_def by (auto simp: all_set_conv_all_nth)

lemma clusters_singleton [simp]: "clusters (initializeBasedOnNNodes n) = [0..<n]"
  by (simp add: initializeBasedOnNNodes_def initSingletonClustersHelper_def fold_init_index map_idI)

lemma nClusters_singleton [simp]: "nClusters (initializeBasedOnNNodes n) = n"
  by (simp add: initializeBasedOnNNodes_def initSingletonClustersHelper_def)

lemma cnNodes_singleton [simp]: "cnNodes (initializeBasedOnNNodes n) = n"
  by (simp add: initializeBasedOnNNodes_def initSingletonClustersHelper_def)

lemma rangeInvariant_singleton: "rangeInvariant (initializeBasedOnNNodes n)"
  by (simp add: rangeInvariant_def)

lemma fold_max_Max:
  "vs \<noteq> [] \<Longrightarrow> n \<le> length vs \<Longrightarrow> 1 \<le> n \<Longrightarrow> fold (\<lambda>i m. max m (vs ! i)) [1..<n] (vs ! 0) = Max (set (take n vs))"
proof (induction n)
  case 0 then show ?case by simp
next
  case (Suc n)
  show ?case
  proof (cases "n = 0")
    case True
    then show ?thesis using Suc.prems by (cases vs) simp_all
  next
    case False
    then have IH: "fold (\<lambda>i m. max m (vs ! i)) [1..<n] (vs ! 0) = Max (set (take n vs))"
      using Suc by simp
    have n: "n < length vs" using Suc.prems by simp
    have ne: "set (take n vs) \<noteq> {}" using False Suc.prems by (cases vs) auto
    have "set (take (Suc n) vs) = insert (vs ! n) (set (take n vs))"
      using n by (simp add: take_Suc_conv_app_nth)
    then have "Max (set (take (Suc n) vs)) = max (vs ! n) (Max (set (take n vs)))"
      using ne by simp
    then show ?thesis using IH False by (simp add: max.commute)
  qed
qed

lemma calcMaximum_Max: "vs \<noteq> [] \<Longrightarrow> calcMaximum vs = Inr (Max (set vs))"
  using fold_max_Max [of vs "length vs"] by (cases vs) (simp_all add: calcMaximum_def)

lemma calcMaximum_Nil [simp]: "calcMaximum [] = Inl NotANumber"
  by (simp add: calcMaximum_def)

lemma initializeBasedOnClusters_Inr:
  "initializeBasedOnClusters cs = Inr c \<longleftrightarrow> cs \<noteq> [] \<and> c = \<lparr>clusters = cs, nClusters = Max (set cs) + 1, cnNodes = length cs\<rparr>"
  by (cases "cs = []") (auto simp: initializeBasedOnClusters_def calcMaximum_Max)

lemma rangeInvariant_fromClusters:
  "initializeBasedOnClusters cs = Inr c \<Longrightarrow> rangeInvariant c"
  by (auto simp: initializeBasedOnClusters_Inr rangeInvariant_set less_Suc_eq_le)

lemma rangeInvariant_setCluster:
  "rangeInvariant c \<Longrightarrow> node < cnNodes c \<Longrightarrow> rangeInvariant (setCluster node k c)"
  by (auto simp: setCluster_def rangeInvariant_def nth_list_update less_max_iff_disj)

subsection \<open>removeEmptyClusters\<close>

lemma fold_mark_length: "length (fold (\<lambda>i ne. ne[g i := True]) xs ne) = length ne"
  by (induction xs arbitrary: ne) auto

lemma fold_mark:
  "k < length ne \<Longrightarrow> fold (\<lambda>i ne. ne[g i := True]) [0..<n] ne ! k \<longleftrightarrow> ne ! k \<or> (\<exists>i<n. g i = k)"
proof (induction n)
  case 0 show ?case by simp
next
  case (Suc n)
  show ?case
  proof (cases "g n = k")
    case True
    then show ?thesis using Suc by (auto simp: fold_mark_length)
  next
    case False
    then show ?thesis using Suc by (auto simp: less_Suc_eq)
  qed
qed

lemma rank_Suc: "rank P (Suc j) = (if P j then Suc (rank P j) else rank P j)"
proof -
  have "{j'. j' < Suc j \<and> P j'} = (if P j then insert j {j'. j' < j \<and> P j'} else {j'. j' < j \<and> P j'})"
    by (auto simp: less_Suc_eq)
  then show ?thesis by (simp add: rank_def)
qed

lemma rank_mono: "a \<le> b \<Longrightarrow> rank P a \<le> rank P b"
  unfolding rank_def by (rule card_mono) auto

lemma rank_less: "a < b \<Longrightarrow> P a \<Longrightarrow> rank P a < rank P b"
proof -
  assume "a < b" "P a"
  then have "rank P (Suc a) \<le> rank P b" by (intro rank_mono) simp
  then show ?thesis using \<open>P a\<close> by (simp add: rank_Suc)
qed

lemma fold_number:
  "m \<le> length nc \<Longrightarrow>
   fold (\<lambda>j (nc, i). if ne ! j then (nc[j := i], i + 1) else (nc, i)) [0..<m] (nc, 0)
   = (map (\<lambda>j. if ne ! j then rank (\<lambda>j. ne ! j) j else nc ! j) [0..<m] @ drop m nc, rank (\<lambda>j. ne ! j) m)"
proof (induction m)
  case 0 show ?case by (simp add: rank_def)
next
  case (Suc m)
  then have m: "m < length nc" by simp
  have d: "drop m nc = nc ! m # drop (Suc m) nc" using m by (simp add: Cons_nth_drop_Suc)
  show ?case using Suc m by (simp add: rank_Suc list_update_append d)
qed

lemma removeEmptyClusters_eq:
  assumes "rangeInvariant c"
  shows "removeEmptyClusters c =
         c\<lparr>clusters := map (rank (nonEmpty c)) (clusters c), nClusters := rank (nonEmpty c) (nClusters c)\<rparr>"
proof -
  let ?ne = "fold (\<lambda>i ne. ne[clusters c ! i := True]) [0..<cnNodes c] (replicate (nClusters c) False)"
  have len: "length ?ne = nClusters c" by (simp add: fold_mark_length)
  have ne: "?ne ! k = nonEmpty c k" if "k < nClusters c" for k
    using that by (simp add: fold_mark nonEmpty_def)
  have rk: "rank (\<lambda>j. ?ne ! j) k = rank (nonEmpty c) k" if "k \<le> nClusters c" for k
    unfolding rank_def using that ne by (intro arg_cong [where f = card]) auto
  have num: "fold (\<lambda>j (nc, i). if ?ne ! j then (nc[j := i], i + 1) else (nc, i)) [0..<nClusters c] (replicate (nClusters c) 0, 0)
     = (map (\<lambda>j. if nonEmpty c j then rank (nonEmpty c) j else 0) [0..<nClusters c], rank (nonEmpty c) (nClusters c))"
    using fold_number [of "nClusters c" "replicate (nClusters c) 0" ?ne]
    by (simp add: rk ne cong: map_cong)
  have cl: "length (clusters c) = cnNodes c" using assms by (simp add: rangeInvariant_def)
  have "map ((!) (map (\<lambda>j. if nonEmpty c j then rank (nonEmpty c) j else 0) [0..<nClusters c])) (clusters c)
        = map (rank (nonEmpty c)) (clusters c)"
  proof (rule map_cong [OF refl])
    fix k assume k: "k \<in> set (clusters c)"
    then have "k < nClusters c" using assms by (simp add: rangeInvariant_set)
    moreover have "nonEmpty c k" using k cl by (auto simp: nonEmpty_def in_set_conv_nth)
    ultimately show "map (\<lambda>j. if nonEmpty c j then rank (nonEmpty c) j else 0) [0..<nClusters c] ! k = rank (nonEmpty c) k"
      by simp
  qed
  then show ?thesis
    unfolding removeEmptyClusters_def Let_def num
    by (simp add: fold_update_map_all cl)
qed

lemma rangeInvariant_removeEmptyClusters:
  assumes "rangeInvariant c"
  shows "rangeInvariant (removeEmptyClusters c)"
proof -
  have "rank (nonEmpty c) k < rank (nonEmpty c) (nClusters c)" if "k \<in> set (clusters c)" for k
  proof -
    have "k < nClusters c" using that assms by (simp add: rangeInvariant_set)
    moreover have "nonEmpty c k" using that assms by (auto simp: nonEmpty_def in_set_conv_nth rangeInvariant_def)
    ultimately show ?thesis by (rule rank_less)
  qed
  then show ?thesis using assms
    by (simp add: removeEmptyClusters_eq rangeInvariant_set)
qed

subsection \<open>orderClustersByWeight and mergeClusters\<close>

lemma orderLoop_bound:
  "\<forall>k<length nc. nc ! k \<le> i \<Longrightarrow> orderLoop srt nC nc i = (nc', i') \<Longrightarrow>
   length nc' = length nc \<and> (\<forall>k<length nc'. nc' ! k < i') \<and> i < i'"
proof (induction srt nC nc i rule: orderLoop.induct)
  case (1 srt nC newClusters i)
  let ?nc = "newClusters[fst (srt ! i) := i]"
  have b0: "\<forall>k<length ?nc. ?nc ! k \<le> i"
  proof (intro allI impI)
    fix k assume "k < length ?nc"
    then show "?nc ! k \<le> i"
      using "1.prems"(1) by (cases "fst (srt ! i) = k") auto
  qed
  then have b: "\<forall>k<length ?nc. ?nc ! k \<le> i + 1"
    by (auto intro: le_SucI)
  show ?case
  proof (cases "i + 1 < nC \<and> snd (srt ! (i + 1)) > 0")
    case True
    then have "orderLoop srt nC ?nc (i + 1) = (nc', i')"
      using "1.prems"(2) by (subst (asm) orderLoop.simps) (simp add: Let_def)
    from "1.IH" [OF refl refl True b this] show ?thesis by simp
  next
    case False
    then have "nc' = ?nc" "i' = i + 1"
      using "1.prems"(2) by (subst (asm) orderLoop.simps, auto simp add: Let_def)+
    then show ?thesis using b0 by (auto simp: less_Suc_eq_le)
  qed
qed

lemma rangeInvariant_orderClustersByWeight:
  assumes "rangeInvariant c" "orderClustersByWeight ws c = Inr c'"
  shows "rangeInvariant c'"
proof -
  let ?cw = "fold (\<lambda>i a. a[clusters c ! i := a ! (clusters c ! i) + ws ! i]) [0..<cnNodes c] (replicate (nClusters c) 0)"
  let ?srt = "sort_key (\<lambda>p. - snd p) (map (\<lambda>i. (i, ?cw ! i)) [0..<nClusters c])"
  obtain nc i where ol: "orderLoop ?srt (nClusters c) (replicate (nClusters c) 0) 0 = (nc, i)"
    by (cases "orderLoop ?srt (nClusters c) (replicate (nClusters c) 0) 0")
  have cl: "length (clusters c) = cnNodes c" using assms by (simp add: rangeInvariant_def)
  from assms(2) have c': "c' = c\<lparr>clusters := map ((!) nc) (clusters c), nClusters := i\<rparr>"
    by (simp add: orderClustersByWeight_def Let_def ol fold_update_map_all cl split: if_splits)
  from orderLoop_bound [OF _ ol] have "length nc = nClusters c" "\<forall>k<length nc. nc ! k < i" by simp_all
  then show ?thesis using assms(1) by (simp add: c' rangeInvariant_set)
qed

lemma rangeInvariant_orderClustersByNNodes:
  "rangeInvariant c \<Longrightarrow> orderClustersByNNodes c = Inr c' \<Longrightarrow> rangeInvariant c'"
  unfolding orderClustersByNNodes_def by (rule rangeInvariant_orderClustersByWeight)

lemma mergeClusters_Inr:
  assumes "length (clusters c) = cnNodes c" "mergeClusters arg c = Inr c'"
  shows "c' = c\<lparr>clusters := map ((!) (clusters arg)) (clusters c), nClusters := nClusters arg\<rparr>"
    and "\<forall>k \<in> set (clusters c). k < length (clusters arg)"
  using assms by (auto simp: mergeClusters_def fold_update_map_all in_set_conv_nth split: if_splits)

lemma rangeInvariant_mergeClusters:
  assumes "rangeInvariant c" "rangeInvariant arg" "mergeClusters arg c = Inr c'"
  shows "rangeInvariant c'"
proof -
  have cl: "length (clusters c) = cnNodes c" using assms by (simp add: rangeInvariant_def)
  from mergeClusters_Inr [OF cl assms(3)] assms(1,2) show ?thesis
    by (auto simp: rangeInvariant_set)
qed

lemma fold_self_bound:
  assumes "\<forall>k \<in> set cs. k < (b::nat)" "\<forall>i \<in> set xs. cs ! i < length cs" "distinct xs"
  shows "length (fold (\<lambda>i cs. cs[i := cs ! (cs ! i)]) xs cs) = length cs
       \<and> (\<forall>k \<in> set (fold (\<lambda>i cs. cs[i := cs ! (cs ! i)]) xs cs). k < b)"
  using assms
proof (induction xs arbitrary: cs)
  case Nil
  then show ?case by simp
next
  case (Cons x xs)
  let ?cs = "cs[x := cs ! (cs ! x)]"
  have x: "cs ! x < length cs" using Cons.prems(2) by simp
  then have v: "cs ! (cs ! x) < b" using Cons.prems(1) by simp
  have 1: "\<forall>k \<in> set ?cs. k < b"
    using Cons.prems(1) v set_update_subset_insert [of cs x "cs ! (cs ! x)"] by auto
  have 2: "\<forall>i \<in> set xs. ?cs ! i < length ?cs"
  proof
    fix i assume i: "i \<in> set xs"
    then have "i \<noteq> x" using Cons.prems(3) by auto
    then have "?cs ! i = cs ! i" by simp
    then show "?cs ! i < length ?cs" using Cons.prems(2) i by simp
  qed
  have 3: "distinct xs" using Cons.prems(3) by simp
  from Cons.IH [OF 1 2 3] show ?case by simp
qed

lemma rangeInvariant_mergeClustersSelf:
  assumes "rangeInvariant c" "mergeClustersSelf c = Inr c'"
  shows "rangeInvariant c'"
proof -
  have cl: "length (clusters c) = cnNodes c" using assms by (simp add: rangeInvariant_def)
  from assms(2) have g: "\<forall>i \<in> {0..<cnNodes c}. clusters c ! i < length (clusters c)"
    and c': "c' = c\<lparr>clusters := fold (\<lambda>i cs. cs[i := cs ! (cs ! i)]) [0..<cnNodes c] (clusters c)\<rparr>"
    by (auto simp: mergeClustersSelf_def split: if_splits)
  have "\<forall>k \<in> set (clusters c). k < nClusters c" using assms(1) by (simp add: rangeInvariant_set)
  from fold_self_bound [OF this, of "[0..<cnNodes c]"] g show ?thesis
    unfolding c' by (simp add: rangeInvariant_set cl)
qed

subsection \<open>Reachable clusterings\<close>

lemma reachable_rangeInvariant: "reachable c \<Longrightarrow> rangeInvariant c"
proof (induction rule: reachable.induct)
  case (fromNNodes n)
  show ?case by (rule rangeInvariant_singleton)
next
  case (fromClusters cs c)
  then show ?case by (rule rangeInvariant_fromClusters)
next
  case (bySetCluster c node cluster)
  then show ?case using rangeInvariant_setCluster by blast
next
  case (byRemoveEmptyClusters c)
  then show ?case by (simp add: rangeInvariant_removeEmptyClusters)
next
  case (byOrderClustersByNNodes c c')
  then show ?case using rangeInvariant_orderClustersByNNodes by blast
next
  case (byOrderClustersByWeight c nodeWeights c')
  then show ?case using rangeInvariant_orderClustersByWeight by blast
next
  case (byMergeClusters c arg c')
  then show ?case using rangeInvariant_mergeClusters by blast
next
  case (byMergeClustersSelf c c')
  then show ?case using rangeInvariant_mergeClustersSelf by blast
qed

lemma rangeInvariant_Max:
  assumes "rangeInvariant c" "clusters c \<noteq> []"
  shows "Max (set (clusters c)) + 1 \<le> nClusters c"
proof -
  have "Max (set (clusters c)) \<in> set (clusters c)" using assms(2) by (intro Max_in) auto
  then show ?thesis using assms(1) by (auto simp: rangeInvariant_set)
qed

lemma nonEmpty_set:
  "length (clusters c) = cnNodes c \<Longrightarrow> nonEmpty c k \<longleftrightarrow> k \<in> set (clusters c)"
  by (auto simp: nonEmpty_def in_set_conv_nth)

lemma rank_eq_above:
  assumes "\<forall>j. P j \<longrightarrow> j < a" "a \<le> b"
  shows "rank P b = rank P a"
proof -
  have "{j'. j' < b \<and> P j'} = {j'. j' < a \<and> P j'}" using assms by auto
  then show ?thesis by (simp add: rank_def)
qed

lemma removeEmptyClusters_Max:
  assumes "rangeInvariant c" "clusters c \<noteq> []"
  shows "nClusters (removeEmptyClusters c) = Max (set (clusters (removeEmptyClusters c))) + 1"
proof -
  let ?P = "nonEmpty c" and ?M = "Max (set (clusters c))"
  have len: "length (clusters c) = cnNodes c" using assms(1) by (simp add: rangeInvariant_def)
  have Min: "?M \<in> set (clusters c)" using assms(2) by (intro Max_in) auto
  then have PM: "?P ?M" by (simp add: nonEmpty_set [OF len])
  have Mlt: "?M < nClusters c" using Min assms(1) by (simp add: rangeInvariant_set)
  have "\<forall>j. ?P j \<longrightarrow> j < Suc ?M"
    by (auto simp: nonEmpty_set [OF len] less_Suc_eq_le)
  from rank_eq_above [OF this, of "nClusters c"] Mlt
  have 1: "rank ?P (nClusters c) = rank ?P ?M + 1" using PM by (simp add: rank_Suc)
  have "mono (rank ?P)" by (rule monoI) (rule rank_mono)
  from mono_Max_commute [OF this, of "set (clusters c)"] assms(2)
  have 2: "Max (set (map (rank ?P) (clusters c))) = rank ?P ?M" by simp
  show ?thesis using 1 2 by (simp add: removeEmptyClusters_eq [OF assms(1)])
qed

lemma singleton_Max: "0 < n \<Longrightarrow> nClusters (initializeBasedOnNNodes n) = Max (set (clusters (initializeBasedOnNNodes n))) + 1"
proof -
  assume "0 < n"
  then have "Max {0..<n} = n - 1" by (intro Max_eqI) auto
  then show ?thesis using \<open>0 < n\<close> by simp
qed

lemma setCluster_pair: "setCluster 1 0 (initializeBasedOnNNodes 2) = pairAfterSetCluster"
  by code_simp


subsection \<open>The number of clusters after an ordering, and arrays that have grown\<close>

lemma orderLoop_length:
  "orderLoop srt nC nc i = (nc', i') \<Longrightarrow> length nc' = length nc"
proof (induction srt nC nc i rule: orderLoop.induct)
  case (1 srt nC newClusters i)
  let ?nc = "newClusters[fst (srt ! i) := i]"
  show ?case
  proof (cases "i + 1 < nC \<and> snd (srt ! (i + 1)) > 0")
    case True
    then have "orderLoop srt nC ?nc (i + 1) = (nc', i')"
      using "1.prems" by (subst (asm) orderLoop.simps) (simp add: Let_def)
    from "1.IH" [OF refl refl True this] show ?thesis by simp
  next
    case False
    then have "nc' = ?nc"
      using "1.prems" by (subst (asm) orderLoop.simps) (auto simp add: Let_def)
    then show ?thesis by simp
  qed
qed

lemma orderLoop_last:
  "orderLoop srt nC nc i = (nc', i') \<Longrightarrow>
   i < i' \<and> (i' \<le> nC \<or> i' = i + 1) \<and> (i + 1 < i' \<longrightarrow> 0 < snd (srt ! (i' - 1)))
   \<and> (fst (srt ! (i' - 1)) < length nc \<longrightarrow> nc' ! fst (srt ! (i' - 1)) = i' - 1)"
proof (induction srt nC nc i rule: orderLoop.induct)
  case (1 srt nC newClusters i)
  let ?nc = "newClusters[fst (srt ! i) := i]"
  show ?case
  proof (cases "i + 1 < nC \<and> snd (srt ! (i + 1)) > 0")
    case True
    then have eq: "orderLoop srt nC ?nc (i + 1) = (nc', i')"
      using "1.prems" by (subst (asm) orderLoop.simps) (simp add: Let_def)
    from "1.IH" [OF refl refl True eq]
    have ih: "i + 1 < i'" "i' \<le> nC \<or> i' = i + 1 + 1" "i + 1 + 1 < i' \<longrightarrow> 0 < snd (srt ! (i' - 1))"
      "fst (srt ! (i' - 1)) < length ?nc \<longrightarrow> nc' ! fst (srt ! (i' - 1)) = i' - 1"
      by simp_all
    have "0 < snd (srt ! (i' - 1))"
    proof (cases "i + 1 + 1 < i'")
      case True
      then show ?thesis using ih(3) by simp
    next
      case False
      then have "i' - 1 = i + 1" using ih(1) by simp
      then show ?thesis using True by simp
    qed
    moreover have "i' \<le> nC" using ih(2) True by auto
    ultimately show ?thesis using ih by simp
  next
    case False
    then have "nc' = ?nc" "i' = i + 1"
      using "1.prems" by (subst (asm) orderLoop.simps, auto simp add: Let_def)+
    then show ?thesis by simp
  qed
qed

lemma orderClustersByWeight_Max:
  assumes ri: "rangeInvariant c" and ws: "cnNodes c \<le> length ws" and ne: "clusters c \<noteq> []"
    and oc: "orderClustersByWeight ws c = Inr c'"
  shows "nClusters c' = Max (set (clusters c')) + 1"
proof -
  let ?n = "cnNodes c" and ?nC = "nClusters c" and ?cs = "clusters c"
  let ?cw = "fold (\<lambda>i a. a[?cs ! i := a ! (?cs ! i) + ws ! i]) [0..<?n] (replicate ?nC 0)"
  let ?srt = "sort_key (\<lambda>p. - snd p) (map (\<lambda>i. (i, ?cw ! i)) [0..<?nC])"
  obtain nc i where ol: "orderLoop ?srt ?nC (replicate ?nC 0) 0 = (nc, i)"
    by (cases "orderLoop ?srt ?nC (replicate ?nC 0) 0")
  have cl: "length ?cs = ?n" using ri by (simp add: rangeInvariant_def)
  from oc have nC: "?nC \<noteq> 0" by (auto simp: orderClustersByWeight_def split: if_splits)
  from oc have c': "c' = c\<lparr>clusters := map ((!) nc) ?cs, nClusters := i\<rparr>"
    by (simp add: orderClustersByWeight_def Let_def ol fold_update_map_all cl split: if_splits)
  from orderLoop_bound [OF _ ol] have lnc: "length nc = ?nC" and b: "\<forall>k<length nc. nc ! k < i"
    by simp_all
  from orderLoop_last [OF ol] have i1: "0 < i" and inC: "i \<le> ?nC \<or> i = 1"
    and pos: "1 < i \<longrightarrow> 0 < snd (?srt ! (i - 1))"
    and last: "fst (?srt ! (i - 1)) < ?nC \<longrightarrow> nc ! fst (?srt ! (i - 1)) = i - 1"
    by simp_all
  have iC: "i \<le> ?nC" using inC nC by auto
  have lt: "\<forall>x \<in> set (map ((!) nc) ?cs). x < i"
    using b ri lnc by (auto simp: rangeInvariant_set)
  have "i - 1 \<in> set (map ((!) nc) ?cs)"
  proof (cases "1 < i")
    case False
    then have "i = 1" using i1 by simp
    obtain x where x: "x \<in> set (map ((!) nc) ?cs)" using ne by (cases ?cs) auto
    then have "x = 0" using lt \<open>i = 1\<close> by auto
    then show ?thesis using x \<open>i = 1\<close> by simp
  next
    case True
    have len: "length ?srt = ?nC" by simp
    have "?srt ! (i - 1) \<in> set ?srt" using iC i1 len by (intro nth_mem) simp
    then have "?srt ! (i - 1) \<in> set (map (\<lambda>i. (i, ?cw ! i)) [0..<?nC])" by simp
    then obtain k where k: "k < ?nC" "?srt ! (i - 1) = (k, ?cw ! k)" by auto
    have "0 < ?cw ! k" using pos True k(2) by simp
    moreover have "?cw ! k = (\<Sum>v | v < ?n \<and> ?cs ! v = k. ws ! v)"
      using fold_accum_real [of k "replicate ?nC 0" "\<lambda>i. ?cs ! i" "\<lambda>i. ws ! i" ?n] k(1) by simp
    ultimately have "{v. v < ?n \<and> ?cs ! v = k} \<noteq> {}" by (metis less_irrefl sum.empty)
    then obtain v where v: "v < ?n" "?cs ! v = k" by auto
    then have "k \<in> set ?cs" using cl by (metis nth_mem)
    moreover have "nc ! k = i - 1" using last k by simp
    ultimately show ?thesis by force
  qed
  moreover have "finite (set (map ((!) nc) ?cs))" by simp
  moreover have "\<And>y. y \<in> set (map ((!) nc) ?cs) \<Longrightarrow> y \<le> i - 1"
    using lt by fastforce
  ultimately have "Max (set (map ((!) nc) ?cs)) = i - 1"
    by (intro Max_eqI)
  then show ?thesis using i1 by (simp add: c')
qed

lemma orderClustersByNNodes_Max:
  assumes "rangeInvariant c" "clusters c \<noteq> []" "orderClustersByNNodes c = Inr c'"
  shows "nClusters c' = Max (set (clusters c')) + 1"
  using orderClustersByWeight_Max [OF assms(1) _ assms(2), of "replicate (cnNodes c) 1" c'] assms(3)
  by (simp add: orderClustersByNNodes_def)

lemma rangeInvariant_entriesInRange: "rangeInvariant c \<Longrightarrow> entriesInRange c"
  by (simp add: rangeInvariant_def entriesInRange_def)

lemma entriesInRange_setCluster:
  assumes "entriesInRange c"
  shows "entriesInRange (setCluster node k c)"
proof (cases "node < length (clusters c)")
  case True
  then show ?thesis
    using assms
    by (auto simp: setCluster_def entriesInRange_def nth_list_update less_max_iff_disj)
next
  case False
  then show ?thesis
    using assms
    by (auto simp: setCluster_def entriesInRange_def nth_append less_max_iff_disj)
qed

lemma removeEmptyClusters_eq_gen:
  assumes "entriesInRange c"
  shows "removeEmptyClusters c =
         c\<lparr>clusters := map (rank (nonEmpty c)) (take (cnNodes c) (clusters c))
                          @ drop (cnNodes c) (clusters c),
           nClusters := rank (nonEmpty c) (nClusters c)\<rparr>"
proof -
  let ?ne = "fold (\<lambda>i ne. ne[clusters c ! i := True]) [0..<cnNodes c] (replicate (nClusters c) False)"
  have len: "length ?ne = nClusters c" by (simp add: fold_mark_length)
  have ne: "?ne ! k = nonEmpty c k" if "k < nClusters c" for k
    using that by (simp add: fold_mark nonEmpty_def)
  have rk: "rank (\<lambda>j. ?ne ! j) k = rank (nonEmpty c) k" if "k \<le> nClusters c" for k
    unfolding rank_def using that ne by (intro arg_cong [where f = card]) auto
  have num: "fold (\<lambda>j (nc, i). if ?ne ! j then (nc[j := i], i + 1) else (nc, i)) [0..<nClusters c] (replicate (nClusters c) 0, 0)
     = (map (\<lambda>j. if nonEmpty c j then rank (nonEmpty c) j else 0) [0..<nClusters c], rank (nonEmpty c) (nClusters c))"
    using fold_number [of "nClusters c" "replicate (nClusters c) 0" ?ne]
    by (simp add: rk ne cong: map_cong)
  have cl: "cnNodes c \<le> length (clusters c)" using assms by (simp add: entriesInRange_def)
  have "map ((!) (map (\<lambda>j. if nonEmpty c j then rank (nonEmpty c) j else 0) [0..<nClusters c]))
            (take (cnNodes c) (clusters c))
        = map (rank (nonEmpty c)) (take (cnNodes c) (clusters c))"
  proof (rule map_cong [OF refl])
    fix k assume k: "k \<in> set (take (cnNodes c) (clusters c))"
    then obtain i where i: "i < cnNodes c" "clusters c ! i = k"
      using cl by (auto simp: in_set_conv_nth)
    then have "k < nClusters c" using assms by (auto simp: entriesInRange_def)
    moreover have "nonEmpty c k" using i by (auto simp: nonEmpty_def)
    ultimately show "map (\<lambda>j. if nonEmpty c j then rank (nonEmpty c) j else 0) [0..<nClusters c] ! k = rank (nonEmpty c) k"
      by simp
  qed
  then show ?thesis
    unfolding removeEmptyClusters_def Let_def num
    by (simp add: fold_update_map cl)
qed

lemma entriesInRange_removeEmptyClusters:
  assumes "entriesInRange c"
  shows "entriesInRange (removeEmptyClusters c)"
proof -
  have cl: "cnNodes c \<le> length (clusters c)" using assms by (simp add: entriesInRange_def)
  have "rank (nonEmpty c) (clusters c ! i) < rank (nonEmpty c) (nClusters c)" if "i < cnNodes c" for i
  proof -
    have "clusters c ! i < nClusters c" using that assms by (simp add: entriesInRange_def)
    moreover have "nonEmpty c (clusters c ! i)" using that by (auto simp: nonEmpty_def)
    ultimately show ?thesis by (rule rank_less)
  qed
  then show ?thesis
    using cl by (simp add: removeEmptyClusters_eq_gen [OF assms] entriesInRange_def nth_append)
qed

lemma entriesInRange_orderClustersByWeight:
  assumes "entriesInRange c" "orderClustersByWeight ws c = Inr c'"
  shows "entriesInRange c'"
proof -
  let ?cw = "fold (\<lambda>i a. a[clusters c ! i := a ! (clusters c ! i) + ws ! i]) [0..<cnNodes c] (replicate (nClusters c) 0)"
  let ?srt = "sort_key (\<lambda>p. - snd p) (map (\<lambda>i. (i, ?cw ! i)) [0..<nClusters c])"
  obtain nc i where ol: "orderLoop ?srt (nClusters c) (replicate (nClusters c) 0) 0 = (nc, i)"
    by (cases "orderLoop ?srt (nClusters c) (replicate (nClusters c) 0) 0")
  have cl: "cnNodes c \<le> length (clusters c)" using assms by (simp add: entriesInRange_def)
  from assms(2) have c': "c' = c\<lparr>clusters := map ((!) nc) (take (cnNodes c) (clusters c))
                                              @ drop (cnNodes c) (clusters c), nClusters := i\<rparr>"
    by (simp add: orderClustersByWeight_def Let_def ol fold_update_map cl split: if_splits)
  from orderLoop_bound [OF _ ol] have "length nc = nClusters c" "\<forall>k<length nc. nc ! k < i" by simp_all
  then show ?thesis using assms(1) cl by (simp add: c' entriesInRange_def nth_append)
qed

lemma entriesInRange_orderClustersByNNodes:
  "entriesInRange c \<Longrightarrow> orderClustersByNNodes c = Inr c' \<Longrightarrow> entriesInRange c'"
  unfolding orderClustersByNNodes_def by (rule entriesInRange_orderClustersByWeight)

lemma entriesInRange_mergeClusters:
  assumes "entriesInRange c" "entriesInRange arg" "nClusters c \<le> cnNodes arg"
  shows "\<exists>c'. mergeClusters arg c = Inr c' \<and> entriesInRange c'"
proof -
  have cl: "cnNodes c \<le> length (clusters c)" using assms by (simp add: entriesInRange_def)
  have idx: "clusters c ! i < cnNodes arg" if "i < cnNodes c" for i
    using that assms(1,3) by (auto simp: entriesInRange_def intro: less_le_trans)
  have "cnNodes arg \<le> length (clusters arg)" using assms(2) by (simp add: entriesInRange_def)
  then have g: "\<forall>i \<in> {0..<cnNodes c}. clusters c ! i < length (clusters arg)"
    using idx by (metis atLeastLessThan_iff less_le_trans)
  have "clusters arg ! (clusters c ! i) < nClusters arg" if "i < cnNodes c" for i
    using idx [OF that] assms(2) by (simp add: entriesInRange_def)
  then show ?thesis
    using g cl by (simp add: mergeClusters_def fold_update_map entriesInRange_def nth_append)
qed

lemma fold_self_prefix:
  assumes "\<forall>i < n. cs ! i < (b::nat)" "b \<le> n" "n \<le> length cs" "m \<le> n"
  shows "length (fold (\<lambda>i cs. cs[i := cs ! (cs ! i)]) [0..<m] cs) = length cs
       \<and> (\<forall>i < n. fold (\<lambda>i cs. cs[i := cs ! (cs ! i)]) [0..<m] cs ! i < b)"
  using assms(4)
proof (induction m)
  case 0
  then show ?case using assms(1) by simp
next
  case (Suc m)
  let ?cs = "fold (\<lambda>i cs. cs[i := cs ! (cs ! i)]) [0..<m] cs"
  have ih: "length ?cs = length cs" "\<forall>i < n. ?cs ! i < b" using Suc by simp_all
  have m: "m < n" using Suc.prems by simp
  then have "?cs ! m < n" using ih(2) assms(2) by (meson less_le_trans)
  then have v: "?cs ! (?cs ! m) < b" using ih(2) by simp
  have "\<forall>i < n. ?cs[m := ?cs ! (?cs ! m)] ! i < b"
  proof (intro allI impI)
    fix i assume "i < n"
    then show "?cs[m := ?cs ! (?cs ! m)] ! i < b"
      using ih v assms(3) by (cases "i = m") simp_all
  qed
  then show ?case using ih(1) by simp
qed

lemma entriesInRange_mergeClustersSelf:
  assumes "entriesInRange c" "nClusters c \<le> cnNodes c"
  shows "\<exists>c'. mergeClustersSelf c = Inr c' \<and> entriesInRange c'"
proof -
  have cl: "cnNodes c \<le> length (clusters c)" and lt: "\<forall>i < cnNodes c. clusters c ! i < nClusters c"
    using assms by (simp_all add: entriesInRange_def)
  have g: "\<forall>i \<in> {0..<cnNodes c}. clusters c ! i < length (clusters c)"
    using lt assms(2) cl by (auto intro: less_le_trans)
  from fold_self_prefix [OF lt assms(2) cl order_refl] show ?thesis
    using g cl by (simp add: mergeClustersSelf_def entriesInRange_def)
qed


section \<open>The adjacency matrix behind the CSR arrays\<close>

lemma fold_cond_add_sum:
  "fold (\<lambda>k q. if P k then q + e k else q) [a..<b] (q0::real)
   = q0 + (\<Sum>k = a..<b. if P k then e k else 0)"
proof -
  have "(\<lambda>k q. if P k then q + e k else q) = (\<lambda>k (q::real). q + (if P k then e k else 0))"
    by (intro ext) simp
  then show ?thesis by (simp only: fold_add_sum)
qed

lemma fold_sub_sum:
  "fold (\<lambda>i q. q - f i) [a..<b] (q0::real) = q0 - (\<Sum>i = a..<b. f i)"
proof (induction b arbitrary: q0)
  case 0 show ?case by simp
next
  case (Suc b)
  show ?case
  proof (cases "a \<le> b")
    case True
    then show ?thesis using Suc by (simp add: sum.atLeastLessThan_Suc)
  next
    case False then show ?thesis by simp
  qed
qed

lemma fold_accum_real':
  fixes a :: "real list"
  assumes "k < length a"
  shows "fold (\<lambda>i a. a[g i := a ! g i + w i]) [0..<n] a ! k
         = a ! k + (\<Sum>i \<in> {i \<in> {0..<n}. g i = k}. w i)"
proof -
  have "{i \<in> {0..<n}. g i = k} = {i. i < n \<and> g i = k}" by auto
  then show ?thesis using fold_accum_real [OF assms] by simp
qed

subsection \<open>The slices of the CSR arrays\<close>

lemma offsets_mono:
  assumes "\<forall>i \<in> {0..<n}. F ! i \<le> F ! (i + 1)" "a \<le> b" "b \<le> n"
  shows "(F ! a :: nat) \<le> F ! b"
  using assms(2,3)
proof (induction b)
  case 0 then show ?case by simp
next
  case (Suc b)
  show ?case
  proof (cases "a = Suc b")
    case True then show ?thesis by simp
  next
    case False
    then have "F ! a \<le> F ! b" using Suc by simp
    moreover have "F ! b \<le> F ! (b + 1)" using assms(1) Suc.prems by simp
    ultimately show ?thesis by simp
  qed
qed

lemma sum_slices:
  fixes f :: "nat \<Rightarrow> real"
  assumes "\<forall>i \<in> {0..<n}. F ! i \<le> F ! (i + 1)" "m \<le> n"
  shows "(\<Sum>i = 0..<m. \<Sum>k = F ! i..<F ! (i + 1). f k) = (\<Sum>k = F ! 0..<F ! m. f k)"
  using assms(2)
proof (induction m)
  case 0 show ?case by simp
next
  case (Suc m)
  have 1: "F ! 0 \<le> F ! m" using offsets_mono [OF assms(1), of 0 m] Suc.prems by simp
  have 2: "F ! m \<le> F ! (m + 1)" using assms(1) Suc.prems by simp
  show ?case using Suc sum.atLeastLessThan_concat [OF 1 2, of f] by simp
qed

lemma integrity_offsets:
  assumes "integrity nw"
  shows "\<forall>i \<in> {0..<nNodes nw}. firstNeighborIndices nw ! i \<le> firstNeighborIndices nw ! (i + 1)"
  using assms by (simp add: integrity_def)

lemma integrity_neighbor_less:
  assumes "integrity nw" "i < nNodes nw"
    "firstNeighborIndices nw ! i \<le> k" "k < firstNeighborIndices nw ! (i + 1)"
  shows "neighbors nw ! k < nNodes nw"
  using assms by (simp add: integrity_def)

lemma integrity_slice_le_nEdges:
  assumes "integrity nw" "i < nNodes nw"
  shows "firstNeighborIndices nw ! (i + 1) \<le> nEdges nw"
proof -
  have "firstNeighborIndices nw ! (i + 1) \<le> firstNeighborIndices nw ! nNodes nw"
    using offsets_mono [OF integrity_offsets [OF assms(1)], of "i + 1" "nNodes nw"] assms(2) by simp
  then show ?thesis using assms(1) by (simp add: integrity_def)
qed

lemma sum_edges_slices:
  fixes f :: "nat \<Rightarrow> real"
  assumes "integrity nw"
  shows "(\<Sum>k = 0..<nEdges nw. f k)
       = (\<Sum>i = 0..<nNodes nw. \<Sum>k = firstNeighborIndices nw ! i..<firstNeighborIndices nw ! (i + 1). f k)"
  using sum_slices [OF integrity_offsets [OF assms], of "nNodes nw" f] assms
  by (simp add: integrity_def)

lemma slice_sum_adjacency:
  fixes g :: "nat \<Rightarrow> real"
  assumes "\<forall>k \<in> {firstNeighborIndices nw ! i..<firstNeighborIndices nw ! (i + 1)}. neighbors nw ! k < n"
  shows "(\<Sum>k = firstNeighborIndices nw ! i..<firstNeighborIndices nw ! (i + 1).
            g (neighbors nw ! k) * edgeWeights nw ! k)
       = (\<Sum>j = 0..<n. g j * adjacency nw i j)"
proof -
  let ?S = "{firstNeighborIndices nw ! i..<firstNeighborIndices nw ! (i + 1)}"
  have "(\<Sum>j = 0..<n. g j * adjacency nw i j)
      = (\<Sum>j = 0..<n. \<Sum>k \<in> ?S. if neighbors nw ! k = j then g j * edgeWeights nw ! k else 0)"
    unfolding adjacency_def by (simp add: sum_distrib_left if_distrib [of "\<lambda>x. _ * x"] cong: if_cong)
  also have "\<dots> = (\<Sum>k \<in> ?S. \<Sum>j = 0..<n. if neighbors nw ! k = j then g j * edgeWeights nw ! k else 0)"
    by (rule sum.swap)
  also have "\<dots> = (\<Sum>k \<in> ?S. g (neighbors nw ! k) * edgeWeights nw ! k)"
  proof (rule sum.cong [OF refl])
    fix k assume "k \<in> ?S"
    then have "neighbors nw ! k \<in> {0..<n}" using assms by simp
    then show "(\<Sum>j = 0..<n. if neighbors nw ! k = j then g j * edgeWeights nw ! k else 0)
               = g (neighbors nw ! k) * edgeWeights nw ! k"
      by (simp add: sum.delta')
  qed
  finally show ?thesis by simp
qed

lemma slice_strict_mono:
  assumes "integrity nw" "i < nNodes nw"
    "firstNeighborIndices nw ! i \<le> a" "a < b" "b < firstNeighborIndices nw ! (i + 1)"
  shows "neighbors nw ! a < neighbors nw ! b"
  using assms(4,5)
proof (induction b)
  case 0 then show ?case by simp
next
  case (Suc b)
  have "\<forall>j \<in> {firstNeighborIndices nw ! i..<firstNeighborIndices nw ! (i + 1)}.
            neighbors nw ! j < nNodes nw \<and>
            (firstNeighborIndices nw ! i < j \<longrightarrow> neighbors nw ! (j - 1) < neighbors nw ! j)"
    using assms(1,2) by (simp add: integrity_def)
  moreover have "Suc b \<in> {firstNeighborIndices nw ! i..<firstNeighborIndices nw ! (i + 1)}"
    and "firstNeighborIndices nw ! i < Suc b"
    using assms(3) Suc.prems by simp_all
  ultimately have step: "neighbors nw ! b < neighbors nw ! Suc b"
    by (metis diff_Suc_1)
  show ?case
  proof (cases "a = b")
    case True then show ?thesis using step by simp
  next
    case False
    then have "neighbors nw ! a < neighbors nw ! b" using Suc by simp
    then show ?thesis using step by simp
  qed
qed

lemma slice_inj:
  assumes "integrity nw" "i < nNodes nw"
    "a \<in> {firstNeighborIndices nw ! i..<firstNeighborIndices nw ! (i + 1)}"
    "b \<in> {firstNeighborIndices nw ! i..<firstNeighborIndices nw ! (i + 1)}"
    "neighbors nw ! a = neighbors nw ! b"
  shows "a = b"
proof (rule ccontr)
  assume "a \<noteq> b"
  then consider "a < b" | "b < a" by linarith
  then show False
  proof cases
    case 1
    from slice_strict_mono [OF assms(1,2) _ 1] assms(3,4,5) show False by simp
  next
    case 2
    from slice_strict_mono [OF assms(1,2) _ 2] assms(3,4,5) show False by simp
  qed
qed

lemma adjacency_unique:
  assumes "integrity nw" "i < nNodes nw"
    "k \<in> {firstNeighborIndices nw ! i..<firstNeighborIndices nw ! (i + 1)}"
  shows "adjacency nw i (neighbors nw ! k) = edgeWeights nw ! k"
proof -
  let ?S = "{firstNeighborIndices nw ! i..<firstNeighborIndices nw ! (i + 1)}"
  have "adjacency nw i (neighbors nw ! k)
      = (\<Sum>k' \<in> ?S. if k' = k then edgeWeights nw ! k' else 0)"
    unfolding adjacency_def
    by (rule sum.cong [OF refl]) (use slice_inj [OF assms(1,2) _ assms(3)] in auto)
  also have "\<dots> = edgeWeights nw ! k" using assms(3) by (simp add: sum.delta)
  finally show ?thesis .
qed

lemma adjacency_none:
  assumes "\<forall>k \<in> {firstNeighborIndices nw ! i..<firstNeighborIndices nw ! (i + 1)}. neighbors nw ! k \<noteq> j"
  shows "adjacency nw i j = 0"
  unfolding adjacency_def using assms by (intro sum.neutral) simp

lemma integrity_reverse:
  assumes "integrity nw" "i < nNodes nw"
    "k \<in> {firstNeighborIndices nw ! i..<firstNeighborIndices nw ! (i + 1)}"
  shows "\<exists>l \<in> {firstNeighborIndices nw ! (neighbors nw ! k)..<firstNeighborIndices nw ! (neighbors nw ! k + 1)}.
           neighbors nw ! l = i \<and> edgeWeights nw ! l = edgeWeights nw ! k"
  using assms unfolding integrity_def by (metis atLeastLessThan_iff le0)

lemma adjacency_sym:
  assumes "integrity nw" "i < nNodes nw" "j < nNodes nw"
  shows "adjacency nw i j = adjacency nw j i"
proof -
  have half: "adjacency nw a b = adjacency nw b a"
    if ex: "\<exists>k \<in> {firstNeighborIndices nw ! a..<firstNeighborIndices nw ! (a + 1)}. neighbors nw ! k = b"
      and a: "a < nNodes nw" and b: "b < nNodes nw" for a b
  proof -
    from ex obtain k where k: "k \<in> {firstNeighborIndices nw ! a..<firstNeighborIndices nw ! (a + 1)}"
      and kb: "neighbors nw ! k = b" by blast
    from integrity_reverse [OF assms(1) a k] kb obtain l where
      l: "l \<in> {firstNeighborIndices nw ! b..<firstNeighborIndices nw ! (b + 1)}"
      and la: "neighbors nw ! l = a" and w: "edgeWeights nw ! l = edgeWeights nw ! k" by auto
    have "adjacency nw a b = edgeWeights nw ! k"
      using adjacency_unique [OF assms(1) a k] kb by simp
    moreover have "adjacency nw b a = edgeWeights nw ! l"
      using adjacency_unique [OF assms(1) b l] la by simp
    ultimately show ?thesis using w by simp
  qed
  show ?thesis
  proof (cases "\<exists>k \<in> {firstNeighborIndices nw ! i..<firstNeighborIndices nw ! (i + 1)}. neighbors nw ! k = j")
    case True
    then show ?thesis using half assms by blast
  next
    case False
    note no_ij = this
    show ?thesis
    proof (cases "\<exists>k \<in> {firstNeighborIndices nw ! j..<firstNeighborIndices nw ! (j + 1)}. neighbors nw ! k = i")
      case True
      then show ?thesis using half [of j i] assms by simp
    next
      case False
      then show ?thesis using no_ij adjacency_none [of nw i j] adjacency_none [of nw j i] by simp
    qed
  qed
qed

lemma adjacency_diag:
  assumes "noSelfLoops nw" "i < nNodes nw"
  shows "adjacency nw i i = 0"
  using assms by (intro adjacency_none) (simp add: noSelfLoops_def)

lemma sum_square_triangle:
  fixes a :: "nat \<Rightarrow> nat \<Rightarrow> real"
  assumes "\<forall>i<n. \<forall>j<n. a i j = a j i" "\<forall>i<n. a i i = 0" "m \<le> n"
  shows "(\<Sum>i = 0..<m. \<Sum>j = 0..<m. a i j) = 2 * (\<Sum>i = 0..<m. \<Sum>j = 0..<i. a i j)"
  using assms(3)
proof (induction m)
  case 0 show ?case by simp
next
  case (Suc m)
  have "(\<Sum>i = 0..<Suc m. \<Sum>j = 0..<Suc m. a i j)
      = (\<Sum>i = 0..<m. (\<Sum>j = 0..<m. a i j) + a i m) + ((\<Sum>j = 0..<m. a m j) + a m m)"
    by simp
  also have "\<dots> = (\<Sum>i = 0..<m. \<Sum>j = 0..<m. a i j) + (\<Sum>i = 0..<m. a i m) + (\<Sum>j = 0..<m. a m j) + a m m"
    by (simp add: sum.distrib)
  also have "(\<Sum>i = 0..<m. a i m) = (\<Sum>j = 0..<m. a m j)"
    using assms(1) Suc.prems by (intro sum.cong) auto
  also have "a m m = 0" using assms(2) Suc.prems by simp
  finally show ?case using Suc by simp
qed

lemma total_edge_weight:
  assumes "integrity nw" "noSelfLoops nw"
  shows "2 * getTotalEdgeWeight nw = 2 * totalUndirectedEdgeWeight nw"
proof -
  let ?n = "nNodes nw"
  have "2 * getTotalEdgeWeight nw = (\<Sum>k = 0..<nEdges nw. edgeWeights nw ! k)"
    using assms(1) by (simp add: getTotalEdgeWeight_def calcSum_sum integrity_def)
  also have "\<dots> = (\<Sum>i = 0..<?n. \<Sum>k = firstNeighborIndices nw ! i..<firstNeighborIndices nw ! (i + 1). edgeWeights nw ! k)"
    by (rule sum_edges_slices [OF assms(1)])
  also have "\<dots> = (\<Sum>i = 0..<?n. \<Sum>j = 0..<?n. adjacency nw i j)"
  proof (rule sum.cong [OF refl])
    fix i assume "i \<in> {0..<?n}"
    then have "\<forall>k \<in> {firstNeighborIndices nw ! i..<firstNeighborIndices nw ! (i + 1)}. neighbors nw ! k < ?n"
      using integrity_neighbor_less [OF assms(1)] by simp
    from slice_sum_adjacency [OF this, of "\<lambda>_. 1"]
    show "(\<Sum>k = firstNeighborIndices nw ! i..<firstNeighborIndices nw ! (i + 1). edgeWeights nw ! k)
          = (\<Sum>j = 0..<?n. adjacency nw i j)" by simp
  qed
  also have "\<dots> = 2 * (\<Sum>i = 0..<?n. \<Sum>j = 0..<i. adjacency nw i j)"
    by (rule sum_square_triangle [where n = ?n])
       (use adjacency_sym [OF assms(1)] adjacency_diag [OF assms(2)] in auto)
  finally show ?thesis by (simp add: totalUndirectedEdgeWeight_def)
qed

lemma internal_edge_sum:
  assumes "integrity nw"
  shows "fold (\<lambda>i q.
                fold (\<lambda>k q.
                    if cs ! (neighbors nw ! k) = cs ! i
                    then q + edgeWeights nw ! k else q)
                  [firstNeighborIndices nw ! i..<firstNeighborIndices nw ! (i + 1)] q)
              [0..<nNodes nw] 0
       = (\<Sum>i = 0..<nNodes nw. \<Sum>j = 0..<nNodes nw. if cs ! i = cs ! j then adjacency nw i j else 0)"
proof -
  let ?n = "nNodes nw"
  have "fold (\<lambda>i q.
                fold (\<lambda>k q.
                    if cs ! (neighbors nw ! k) = cs ! i
                    then q + edgeWeights nw ! k else q)
                  [firstNeighborIndices nw ! i..<firstNeighborIndices nw ! (i + 1)] q)
              [0..<nNodes nw] 0
     = (\<Sum>i = 0..<?n. \<Sum>k = firstNeighborIndices nw ! i..<firstNeighborIndices nw ! (i + 1).
          if cs ! (neighbors nw ! k) = cs ! i then edgeWeights nw ! k else 0)"
    by (simp add: fold_cond_add_sum fold_add_sum)
  also have "\<dots> = (\<Sum>i = 0..<?n. \<Sum>j = 0..<?n. if cs ! i = cs ! j then adjacency nw i j else 0)"
  proof (rule sum.cong [OF refl])
    fix i assume "i \<in> {0..<?n}"
    then have "\<forall>k \<in> {firstNeighborIndices nw ! i..<firstNeighborIndices nw ! (i + 1)}. neighbors nw ! k < ?n"
      using integrity_neighbor_less [OF assms(1)] by simp
    from slice_sum_adjacency [OF this, of "\<lambda>j. if cs ! j = cs ! i then 1 else 0"]
    have "(\<Sum>k = firstNeighborIndices nw ! i..<firstNeighborIndices nw ! (i + 1).
            (if cs ! (neighbors nw ! k) = cs ! i then 1 else 0) * edgeWeights nw ! k)
        = (\<Sum>j = 0..<?n. (if cs ! j = cs ! i then 1 else 0) * adjacency nw i j)" .
    moreover have "(\<Sum>k = firstNeighborIndices nw ! i..<firstNeighborIndices nw ! (i + 1).
            (if cs ! (neighbors nw ! k) = cs ! i then 1 else 0) * edgeWeights nw ! k)
       = (\<Sum>k = firstNeighborIndices nw ! i..<firstNeighborIndices nw ! (i + 1).
            if cs ! (neighbors nw ! k) = cs ! i then edgeWeights nw ! k else 0)"
      by (intro sum.cong) auto
    moreover have "(\<Sum>j = 0..<?n. (if cs ! j = cs ! i then 1 else 0) * adjacency nw i j)
       = (\<Sum>j = 0..<?n. if cs ! i = cs ! j then adjacency nw i j else 0)"
      by (intro sum.cong) auto
    ultimately show "(\<Sum>k = firstNeighborIndices nw ! i..<firstNeighborIndices nw ! (i + 1).
            if cs ! (neighbors nw ! k) = cs ! i then edgeWeights nw ! k else 0)
        = (\<Sum>j = 0..<?n. if cs ! i = cs ! j then adjacency nw i j else 0)" by simp
  qed
  finally show ?thesis .
qed

lemma clusterWeights_fold:
  assumes "k < nC"
  shows "fold (\<lambda>i a. a[cs ! i := a ! (cs ! i) + nodeWeights nw ! i]) [0..<nNodes nw] (replicate nC 0) ! k
         = clusterWeight nw cs k"
  using fold_accum_real' [of k "replicate nC 0" "\<lambda>i. cs ! i" "\<lambda>i. nodeWeights nw ! i" "nNodes nw"] assms
  by (simp add: clusterWeight_def)

lemma clusterWeight_unused:
  assumes "k \<notin> set (take (nNodes nw) cs)" "nNodes nw \<le> length cs"
  shows "clusterWeight nw cs k = 0"
proof -
  have "{i \<in> {0..<nNodes nw}. cs ! i = k} = {}"
    using assms by (auto simp: in_set_conv_nth)
  then show ?thesis unfolding clusterWeight_def by (simp only: sum.empty)
qed

lemma sum_cluster_squares:
  assumes "nNodes nw \<le> length cs" "\<forall>i \<in> {0..<nNodes nw}. cs ! i < nC"
  shows "(\<Sum>k = 0..<nC. (clusterWeight nw cs k)\<^sup>2) = (\<Sum>k \<in> set (take (nNodes nw) cs). (clusterWeight nw cs k)\<^sup>2)"
proof (rule sum.mono_neutral_right)
  show "finite {0..<nC}" by simp
  show "set (take (nNodes nw) cs) \<subseteq> {0..<nC}"
    using assms by (auto simp: in_set_conv_nth)
  show "\<forall>k \<in> {0..<nC} - set (take (nNodes nw) cs). (clusterWeight nw cs k)\<^sup>2 = 0"
    using clusterWeight_unused [OF _ assms(1)] by simp
qed

lemma calcQuality_numerator:
  assumes "integrity nw" "rangeInvariant cl" "cnNodes cl = nNodes nw"
  shows "calcQuality resolution nw cl
       = divide_number (cpmNumerator resolution nw (clusters cl))
           (2 * getTotalEdgeWeight nw + totalEdgeWeightSelfLinks nw)"
proof -
  have len: "nNodes nw \<le> length (clusters cl)" and rng: "\<forall>i \<in> {0..<nNodes nw}. clusters cl ! i < nClusters cl"
    using assms(2,3) by (simp_all add: rangeInvariant_def)
  have cw: "(\<Sum>i = 0..<nClusters cl.
        fold (\<lambda>i a. a[clusters cl ! i := a ! (clusters cl ! i) + nodeWeights nw ! i]) [0..<nNodes nw] (replicate (nClusters cl) 0) ! i
      * fold (\<lambda>i a. a[clusters cl ! i := a ! (clusters cl ! i) + nodeWeights nw ! i]) [0..<nNodes nw] (replicate (nClusters cl) 0) ! i
      * resolution)
    = resolution * (\<Sum>k = 0..<nClusters cl. (clusterWeight nw (clusters cl) k)\<^sup>2)"
    by (simp add: clusterWeights_fold sum_distrib_left power2_eq_square mult_ac)
  show ?thesis
    unfolding calcQuality_def Let_def internal_edge_sum [OF assms(1)] fold_sub_sum cw
      sum_cluster_squares [OF len rng] cpmNumerator_def
    by simp
qed

lemma calcQuality_cpmQualitySpec:
  assumes "integrity nw" "noSelfLoops nw" "rangeInvariant cl" "cnNodes cl = nNodes nw"
  shows "calcQuality resolution nw cl = cpmQualitySpec resolution nw cl"
  unfolding calcQuality_numerator [OF assms(1,3,4)] cpmQualitySpec_def
    total_edge_weight [OF assms(1,2)] ..

section \<open>Normalisation and the singleton clustering\<close>

lemma fold_write_length: "length (fold (\<lambda>j ew. ew[j := h j]) xs ew) = length ew"
  by (induction xs arbitrary: ew) auto

lemma fold_write_nth:
  "k < length ew \<Longrightarrow>
   fold (\<lambda>j ew. ew[j := h j]) [a..<b] ew ! k = (if a \<le> k \<and> k < b then h k else ew ! k)"
proof (induction b)
  case 0 show ?case by simp
next
  case (Suc b)
  show ?case
  proof (cases "a \<le> b")
    case True
    then show ?thesis using Suc
      by (cases "k = b") (auto simp: fold_write_length)
  next
    case False
    then show ?thesis by auto
  qed
qed

lemma fold_slices_length:
  "length (fold (\<lambda>i ew. fold (\<lambda>j ew. ew[j := h i j]) (r i) ew) xs ew) = length ew"
  by (induction xs arbitrary: ew) (auto simp: fold_write_length)

lemma fold_slices_nth:
  assumes mono: "\<forall>i \<in> {0..<n}. F ! i \<le> F ! (i + 1)"
    and m: "m \<le> n" and i: "i < m" and k: "F ! i \<le> k" "k < F ! (i + 1)" and len: "k < length ew"
  shows "fold (\<lambda>i ew. fold (\<lambda>j ew. ew[j := h i j]) [F ! i..<F ! (i + 1)] ew) [0..<m] ew ! k = h i k"
  using m i
proof (induction m)
  case 0 then show ?case by simp
next
  case (Suc m)
  let ?R = "fold (\<lambda>i ew. fold (\<lambda>j ew. ew[j := h i j]) [F ! i..<F ! (i + 1)] ew) [0..<m] ew"
  have lenR: "k < length ?R" using len by (simp add: fold_slices_length)
  show ?case
  proof (cases "i = m")
    case True
    then show ?thesis using k lenR by (simp add: fold_write_nth)
  next
    case False
    then have im: "i < m" using Suc.prems by simp
    then have "F ! (i + 1) \<le> F ! m"
      using offsets_mono [OF mono, of "i + 1" m] Suc.prems by simp
    then have "\<not> (F ! m \<le> k \<and> k < F ! (m + 1))" using k by simp
    then show ?thesis using Suc.IH im Suc.prems lenR by (auto simp: fold_write_nth)
  qed
qed

lemma calcSum_replicate: "calcSum (replicate n 1) = real n"
  by (simp add: calcSum_sum_list sum_list_replicate)

subsection \<open>The quality of the singleton clustering\<close>

lemma cpmNumerator_singleton:
  assumes "noSelfLoops nw"
  shows "cpmNumerator 0 nw [0..<nNodes nw] = totalEdgeWeightSelfLinks nw"
proof -
  have "(\<Sum>i = 0..<nNodes nw. \<Sum>j = 0..<nNodes nw. if [0..<nNodes nw] ! i = [0..<nNodes nw] ! j then adjacency nw i j else 0)
      = (\<Sum>i = 0..<nNodes nw. \<Sum>j = 0..<nNodes nw. if i = j then adjacency nw i j else 0)"
    by (intro sum.cong refl) simp
  also have "\<dots> = (\<Sum>i = 0..<nNodes nw. adjacency nw i i)"
    by (intro sum.cong refl) (simp add: sum.delta')
  also have "\<dots> = 0"
    using adjacency_diag [OF assms] by (intro sum.neutral) simp
  finally show ?thesis by (simp add: cpmNumerator_def)
qed

lemma singleton_quality_value:
  assumes "integrity nw" "noSelfLoops nw"
  shows "calcQuality 0 nw (initializeBasedOnNNodes (nNodes nw))
         = divide_number (totalEdgeWeightSelfLinks nw)
             (2 * totalUndirectedEdgeWeight nw + totalEdgeWeightSelfLinks nw)"
  using calcQuality_cpmQualitySpec [OF assms rangeInvariant_singleton [of "nNodes nw"], of 0]
  by (simp add: cpmQualitySpec_def cpmNumerator_singleton [OF assms(2)])

section \<open>The constructor and the caller's arrays\<close>

lemma symmetrized_snoc:
  "symmetrized (es @ [(u, v)]) = symmetrized es @ (if u \<noteq> v then [(u, v), (v, u)] else [(u, v)])"
  by (simp add: symmetrized_def)

lemma take_Suc_update:
  "i < length xs \<Longrightarrow> take (Suc i) (xs[i := a]) = take i xs @ [a]"
  by (simp add: take_Suc_conv_app_nth)

lemma take_update_later: "i \<le> j \<Longrightarrow> take i (xs[j := a]) = take i xs"
  by simp

lemma length_symmetrized_le: "length (symmetrized es) \<le> 2 * length es"
  by (induction es) (auto simp: symmetrized_def)

lemma symmetrizeStep_self:
  "e0 ! j = e1 ! j \<Longrightarrow>
   symmetrizeStep e0 e1 wo j (x0, x1, w2, i)
   = (x0[i := e0 ! j], x1[i := e1 ! j],
      (case wo of None \<Rightarrow> w2 | Some ws \<Rightarrow> map_option (\<lambda>w2. w2[i := ws ! j]) w2), Suc i)"
  by (simp add: symmetrizeStep_def Let_def)

lemma symmetrizeStep_edge:
  "e0 ! j \<noteq> e1 ! j \<Longrightarrow>
   symmetrizeStep e0 e1 wo j (x0, x1, w2, i)
   = (x0[i := e0 ! j, Suc i := e1 ! j], x1[i := e1 ! j, Suc i := e0 ! j],
      (case wo of None \<Rightarrow> w2
       | Some ws \<Rightarrow> map_option (\<lambda>w2. w2[i := ws ! j, Suc i := ws ! j]) w2), Suc (Suc i))"
  by (cases wo; cases w2) (simp_all add: symmetrizeStep_def Let_def)

lemma symInv_step:
  assumes len: "length e1 = length e0" and m: "m < length e0" and inv: "symInv e0 e1 wo m st"
  shows "symInv e0 e1 wo (Suc m) (symmetrizeStep e0 e1 wo m st)"
proof -
  let ?es = "zip e0 e1"
  obtain x0 x1 w2 i where st: "st = (x0, x1, w2, i)" by (metis prod_cases4)
  from inv have IH:
    "i = length (symmetrized (take m ?es))" "length x0 = 2 * length e0" "length x1 = 2 * length e0"
    "take i x0 = map fst (symmetrized (take m ?es))" "take i x1 = map snd (symmetrized (take m ?es))"
    "w2 = None \<longleftrightarrow> wo = None"
    by (auto simp: symInv_def st)
  have m': "m < length ?es" using m len by simp
  have tk: "take (Suc m) ?es = take m ?es @ [(e0 ! m, e1 ! m)]"
    using m' by (simp add: take_Suc_conv_app_nth)
  have "i \<le> 2 * m" using IH(1) length_symmetrized_le [of "take m ?es"] m' by simp
  then have i: "Suc i < length x0" "Suc i < length x1" using IH(2,3) m by simp_all
  show ?thesis
  proof (cases "e0 ! m = e1 ! m")
    case True
    have sym: "symmetrized (take (Suc m) ?es) = symmetrized (take m ?es) @ [(e0 ! m, e1 ! m)]"
      unfolding tk symmetrized_snoc using True by simp
    have a: "take (Suc i) (x0[i := e0 ! m]) = map fst (symmetrized (take (Suc m) ?es))"
      unfolding sym using i IH(4) by (simp add: take_Suc_conv_app_nth)
    have b: "take (Suc i) (x1[i := e1 ! m]) = map snd (symmetrized (take (Suc m) ?es))"
      unfolding sym using i IH(5) by (simp add: take_Suc_conv_app_nth)
    have w: "((case wo of None \<Rightarrow> w2 | Some ws \<Rightarrow> map_option (\<lambda>w2. w2[i := ws ! m]) w2) = None) = (wo = None)"
      using IH(6) by (cases wo; cases w2) simp_all
    have l: "Suc i = length (symmetrized (take (Suc m) ?es))"
      unfolding sym using IH(1) by simp
    have "length (x0[i := e0 ! m]) = 2 * length e0" "length (x1[i := e1 ! m]) = 2 * length e0"
      using IH(2,3) by simp_all
    with a b w l show ?thesis
      unfolding st symmetrizeStep_self [OF True] symInv_def prod.case by blast
  next
    case False
    have sym: "symmetrized (take (Suc m) ?es) = symmetrized (take m ?es) @ [(e0 ! m, e1 ! m), (e1 ! m, e0 ! m)]"
      unfolding tk symmetrized_snoc using False by simp
    have a: "take (Suc (Suc i)) (x0[i := e0 ! m, Suc i := e1 ! m]) = map fst (symmetrized (take (Suc m) ?es))"
      unfolding sym using i IH(4) by (simp add: take_Suc_conv_app_nth nth_list_update)
    have b: "take (Suc (Suc i)) (x1[i := e1 ! m, Suc i := e0 ! m]) = map snd (symmetrized (take (Suc m) ?es))"
      unfolding sym using i IH(5) by (simp add: take_Suc_conv_app_nth nth_list_update)
    have w: "((case wo of None \<Rightarrow> w2 | Some ws \<Rightarrow> map_option (\<lambda>w2. w2[i := ws ! m, Suc i := ws ! m]) w2) = None) = (wo = None)"
      using IH(6) by (cases wo; cases w2) simp_all
    have l: "Suc (Suc i) = length (symmetrized (take (Suc m) ?es))"
      unfolding sym using IH(1) by simp
    have "length (x0[i := e0 ! m, Suc i := e1 ! m]) = 2 * length e0"
      "length (x1[i := e1 ! m, Suc i := e0 ! m]) = 2 * length e0"
      using IH(2,3) by simp_all
    with a b w l show ?thesis
      unfolding st symmetrizeStep_edge [OF False] symInv_def prod.case by blast
  qed
qed

lemma symmetrizeEdges_loop:
  assumes "length e1 = length e0" "m \<le> length e0"
  shows "symInv e0 e1 wo m (fold (symmetrizeStep e0 e1 wo) [0..<m]
       (replicate (2 * length e0) 0, replicate (2 * length e0) 0,
        map_option (\<lambda>ws. replicate (2 * length e0) (0::real)) wo, 0))"
  using assms(2)
proof (induction m)
  case 0
  show ?case by (simp add: symInv_def symmetrized_def)
next
  case (Suc m)
  then show ?case using symInv_step [OF assms(1)] by simp
qed

lemma symmetrizeEdges_result:
  assumes "length e1 = length e0" "symmetrizeEdges e0 e1 wo = (x0, x1, w2, i)"
  shows "zip (take i x0) (take i x1) = symmetrized (zip e0 e1)" "(w2 = None \<longleftrightarrow> wo = None)"
proof -
  from symmetrizeEdges_loop [OF assms(1) le_refl, of wo] assms(2)
  have "take i x0 = map fst (symmetrized (zip e0 e1)) \<and> take i x1 = map snd (symmetrized (zip e0 e1))
    \<and> (w2 = None \<longleftrightarrow> wo = None)"
    using assms(1) by (auto simp: symmetrizeEdges_def symInv_def)
  then show "zip (take i x0) (take i x1) = symmetrized (zip e0 e1)" "(w2 = None \<longleftrightarrow> wo = None)"
    by (simp_all add: zip_map_fst_snd)
qed

lemma zip_by_indices:
  "length ind = n \<Longrightarrow>
   zip (map (\<lambda>i. e0 ! (ind ! i)) [0..<n]) (map (\<lambda>i. e1 ! (ind ! i)) [0..<n])
   = map (\<lambda>i. (e0 ! i, e1 ! i)) ind"
  by (rule nth_equalityI) simp_all

lemma map_by_indices:
  "length ind = n \<Longrightarrow> map (\<lambda>i. ws ! (ind ! i)) [0..<n] = map ((!) ws) ind"
  by (rule nth_equalityI) simp_all

lemma zip_columns: "length e1 = length e0 \<Longrightarrow> map (\<lambda>i. (e0 ! i, e1 ! i)) [0..<length e0] = zip e0 e1"
  by (rule nth_equalityI) simp_all

lemma sorted_columns:
  fixes e0 e1 :: "nat list"
  assumes "length e1 = length e0" and ind: "ind = sort_key (\<lambda>i. (e0 ! i, e1 ! i)) [0..<length e0]"
  shows "sorted (zip (map (\<lambda>i. e0 ! (ind ! i)) [0..<length e0]) (map (\<lambda>i. e1 ! (ind ! i)) [0..<length e0]))"
    and "mset (zip (map (\<lambda>i. e0 ! (ind ! i)) [0..<length e0]) (map (\<lambda>i. e1 ! (ind ! i)) [0..<length e0]))
         = mset (zip e0 e1)"
proof -
  have len: "length ind = length e0" by (simp add: ind)
  have "sorted (map (\<lambda>i. (e0 ! i, e1 ! i)) ind)" unfolding ind by (rule sorted_sort_key)
  then show "sorted (zip (map (\<lambda>i. e0 ! (ind ! i)) [0..<length e0]) (map (\<lambda>i. e1 ! (ind ! i)) [0..<length e0]))"
    by (simp only: zip_by_indices [OF len])
  have "mset ind = mset [0..<length e0]" unfolding ind by (rule mset_sort)
  then have "mset (map (\<lambda>i. (e0 ! i, e1 ! i)) ind) = mset (map (\<lambda>i. (e0 ! i, e1 ! i)) [0..<length e0])"
    by (simp only: mset_map)
  then show "mset (zip (map (\<lambda>i. e0 ! (ind ! i)) [0..<length e0]) (map (\<lambda>i. e1 ! (ind ! i)) [0..<length e0]))
         = mset (zip e0 e1)"
    by (simp only: zip_by_indices [OF len] zip_columns [OF assms(1)])
qed

lemma sortEdges_effect:
  fixes f0 f1 :: "nat list"
  assumes e: "edges < length h" "h ! edges = RefArray [c0, c1]"
    and c: "c0 < length h" "c1 < length h" "h ! c0 = NodeArray f0" "h ! c1 = NodeArray f1"
    and len: "length f1 = length f0"
    and w: "\<forall>w. wr = Some w \<longrightarrow> w < length h \<and> w \<noteq> edges"
  shows "sorted (edgeListAt (sortEdges h edges wr) edges)"
    and "mset (edgeListAt (sortEdges h edges wr) edges) = mset (zip f0 f1)"
    and "\<forall>a<length h. a \<noteq> edges \<longrightarrow> Some a \<noteq> wr \<longrightarrow> sortEdges h edges wr ! a = h ! a"
proof -
  define ind where "ind = sort_key (\<lambda>i. (f0 ! i, f1 ! i)) [0..<length f0]"
  define s0 where "s0 = map (\<lambda>i. f0 ! (ind ! i)) [0..<length f0]"
  define s1 where "s1 = map (\<lambda>i. f1 ! (ind ! i)) [0..<length f0]"
  define h9 where "h9 = (h @ [NodeArray s0, NodeArray s1])[edges := RefArray [length h, Suc (length h)]]"
  have r0: "nodeArrayAt h (refArrayAt h edges ! 0) = f0" "nodeArrayAt h (refArrayAt h edges ! 1) = f1"
    using e c by (simp_all add: nodeArrayAt_def refArrayAt_def)
  have ne: "edges \<noteq> length h" "edges \<noteq> Suc (length h)" using e by simp_all
  have se: "sortEdges h edges wr =
        (case wr of None \<Rightarrow> h9
         | Some w \<Rightarrow> h9[w := WeightArray (objectAssign (weightArrayAt h9 w)
                           (map (\<lambda>i. weightArrayAt h9 w ! (ind ! i)) [0..<length f0]))])"
    unfolding sortEdges_def r0 Let_def alloc_def prod.case ind_def [symmetric] s0_def [symmetric] s1_def [symmetric]
    using e ne
    by (simp add: refArrayAt_def nth_append h9_def list_update_append split: option.splits)
  have el9: "edgeListAt h9 edges = zip s0 s1"
    using e by (simp add: edgeListAt_def h9_def refArrayAt_def nodeArrayAt_def nth_append)
  have el: "edgeListAt (sortEdges h edges wr) edges = zip s0 s1"
  proof (cases wr)
    case None
    then show ?thesis using se el9 by simp
  next
    case (Some w')
    then have w': "w' < length h" "w' \<noteq> edges" using w by simp_all
    have "length h9 = length h + 2" by (simp add: h9_def)
    then show ?thesis
      using se Some w' e
      by (simp add: edgeListAt_def refArrayAt_def nodeArrayAt_def h9_def nth_append)
  qed
  show "sorted (edgeListAt (sortEdges h edges wr) edges)"
    unfolding el s0_def s1_def using sorted_columns(1) [OF len ind_def] .
  show "mset (edgeListAt (sortEdges h edges wr) edges) = mset (zip f0 f1)"
    unfolding el s0_def s1_def using sorted_columns(2) [OF len ind_def] .
  show "\<forall>a<length h. a \<noteq> edges \<longrightarrow> Some a \<noteq> wr \<longrightarrow> sortEdges h edges wr ! a = h ! a"
  proof (intro allI impI)
    fix a assume a: "a < length h" "a \<noteq> edges" "Some a \<noteq> wr"
    have "h9 ! a = h ! a" using a by (simp add: h9_def nth_append)
    then show "sortEdges h edges wr ! a = h ! a"
      using a se by (cases wr) auto
  qed
qed

lemma wellTypedArgs_D:
  assumes "wellTypedArgs h edges wr"
  obtains a0 a1 e0 e1 where "edges < length h" "h ! edges = RefArray [a0, a1]"
    "a0 < length h" "a1 < length h" "h ! a0 = NodeArray e0" "h ! a1 = NodeArray e1"
    "length e1 = length e0"
    "\<forall>w. wr = Some w \<longrightarrow> w < length h \<and> w \<noteq> edges \<and> (\<exists>ws. h ! w = WeightArray ws)"
proof -
  from assms have e: "edges < length h" by (simp add: wellTypedArgs_def)
  from assms obtain a0 a1 where r: "h ! edges = RefArray [a0, a1]"
    by (auto simp: wellTypedArgs_def split: jsArray.splits list.splits)
  from assms r obtain e0 e1 where a: "a0 < length h" "a1 < length h" "h ! a0 = NodeArray e0"
    "h ! a1 = NodeArray e1" "length e1 = length e0"
    by (auto simp: wellTypedArgs_def split: jsArray.splits)
  have "\<forall>w. wr = Some w \<longrightarrow> w < length h \<and> w \<noteq> edges \<and> (\<exists>ws. h ! w = WeightArray ws)"
  proof (intro allI impI)
    fix w assume "wr = Some w"
    with assms have "w < length h \<and> (case h ! w of WeightArray ws \<Rightarrow> True | _ \<Rightarrow> False)"
      by (simp add: wellTypedArgs_def)
    then show "w < length h \<and> w \<noteq> edges \<and> (\<exists>ws. h ! w = WeightArray ws)"
      using r by (cases "h ! w") auto
  qed
  with e r a show ?thesis using that by blast
qed

lemma constructor_store:
  assumes "wellTypedArgs h edges wr"
  shows "sorted (edgeListAt (fst (initializeNetworkBasedOnEdges h n nwa flag edges wr False chk)) edges)"
    and "mset (edgeListAt (fst (initializeNetworkBasedOnEdges h n nwa flag edges wr False chk)) edges)
         = mset (symmetrized (edgeListAt h edges))"
    and "\<forall>a<length h. a \<noteq> edges \<longrightarrow>
           fst (initializeNetworkBasedOnEdges h n nwa flag edges wr False chk) ! a = h ! a"
proof -
  from assms obtain a0 a1 e0 e1 where e: "edges < length h" "h ! edges = RefArray [a0, a1]"
    and a: "a0 < length h" "a1 < length h" "h ! a0 = NodeArray e0" "h ! a1 = NodeArray e1"
    and len: "length e1 = length e0"
    and w: "\<forall>w. wr = Some w \<longrightarrow> w < length h \<and> w \<noteq> edges \<and> (\<exists>ws. h ! w = WeightArray ws)"
    by (rule wellTypedArgs_D)
  obtain x0 x1 w2 i where sym: "symmetrizeEdges e0 e1 (map_option (weightArrayAt h) wr) = (x0, x1, w2, i)"
    by (metis prod_cases4)
  from symmetrizeEdges_result [OF len sym]
  have z: "zip (take i x0) (take i x1) = symmetrized (zip e0 e1)" and w2: "w2 = None \<longleftrightarrow> wr = None"
    by simp_all
  have li: "length (take i x1) = length (take i x0)"
    using symmetrizeEdges_loop [OF len le_refl, of "map_option (weightArrayAt h) wr"] sym
    by (auto simp: symmetrizeEdges_def symInv_def)
  define h4 where "h4 = (h @ [NodeArray (take i x0), NodeArray (take i x1)])[edges := RefArray [length h, Suc (length h)]]"
  define h5 where "h5 = (case w2 of None \<Rightarrow> h4 | Some w2' \<Rightarrow> h4 @ [WeightArray (take i w2')])"
  define wr' where "wr' = (case w2 of None \<Rightarrow> wr | Some w2' \<Rightarrow> Some (length h4))"
  have r0: "nodeArrayAt h (refArrayAt h edges ! 0) = e0" "nodeArrayAt h (refArrayAt h edges ! 1) = e1"
    using e a by (simp_all add: nodeArrayAt_def refArrayAt_def)
  have ne: "edges \<noteq> length h" "edges \<noteq> Suc (length h)" using e by simp_all
  have fst_eq: "fst (initializeNetworkBasedOnEdges h n nwa flag edges wr False chk) = sortEdges h5 edges wr'"
    unfolding initializeNetworkBasedOnEdges_def r0 Let_def alloc_def prod.case
    using e ne
    by (simp add: sym refArrayAt_def nth_append list_update_append h4_def h5_def wr'_def split_def
          split: option.splits)
  have l4: "length h4 = length h + 2" by (simp add: h4_def)
  have l5: "length h \<le> length h5" "length h4 \<le> length h5" by (simp_all add: h5_def l4 split: option.splits)
  have h4a: "h4 ! b = (h @ [NodeArray (take i x0), NodeArray (take i x1)]) ! b" if "b \<noteq> edges" for b
    using that by (simp add: h4_def)
  have h5a: "h5 ! b = h4 ! b" if "b < length h4" for b
    using that by (simp add: h5_def nth_append split: option.splits)
  have e5: "edges < length h5" "h5 ! edges = RefArray [length h, Suc (length h)]"
    using e l4 h5a [of edges] by (simp_all add: h5_def h4_def split: option.splits)
  have c5: "length h < length h5" "Suc (length h) < length h5"
    "h5 ! length h = NodeArray (take i x0)" "h5 ! Suc (length h) = NodeArray (take i x1)"
    using l5 l4 h5a [of "length h"] h5a [of "Suc (length h)"] h4a [of "length h"] h4a [of "Suc (length h)"] ne
    by (simp_all add: nth_append)
  have w5: "\<forall>w. wr' = Some w \<longrightarrow> w < length h5 \<and> w \<noteq> edges"
  proof (cases w2)
    case None
    then have "wr = None" using w2 by simp
    then show ?thesis using None by (simp add: wr'_def)
  next
    case (Some w2')
    then show ?thesis using e l4 by (simp add: wr'_def h5_def)
  qed
  note se = sortEdges_effect [OF e5 c5 li w5]
  have el: "edgeListAt h edges = zip e0 e1"
    using e a by (simp add: edgeListAt_def refArrayAt_def nodeArrayAt_def)
  show "sorted (edgeListAt (fst (initializeNetworkBasedOnEdges h n nwa flag edges wr False chk)) edges)"
    unfolding fst_eq by (rule se(1))
  show "mset (edgeListAt (fst (initializeNetworkBasedOnEdges h n nwa flag edges wr False chk)) edges)
         = mset (symmetrized (edgeListAt h edges))"
    unfolding fst_eq se(2) z el ..
  show "\<forall>a<length h. a \<noteq> edges \<longrightarrow>
           fst (initializeNetworkBasedOnEdges h n nwa flag edges wr False chk) ! a = h ! a"
  proof (intro allI impI)
    fix b assume b: "b < length h" "b \<noteq> edges"
    have "Some b \<noteq> wr'"
    proof (cases w2)
      case None
      then have "wr = None" using w2 by simp
      then show ?thesis using None by (simp add: wr'_def)
    next
      case (Some w2')
      then show ?thesis using b l4 by (simp add: wr'_def)
    qed
    then have "sortEdges h5 edges wr' ! b = h5 ! b" using se(3) b l5 by simp
    also have "\<dots> = h ! b" using b h5a [of b] h4a [of b] l4 by (simp add: nth_append)
    finally show "fst (initializeNetworkBasedOnEdges h n nwa flag edges wr False chk) ! b = h ! b"
      unfolding fst_eq .
  qed
qed

lemma constructor_sorted_store:
  "fst (initializeNetworkBasedOnEdges h n nwa flag edges wr True chk) = h"
  by (simp add: initializeNetworkBasedOnEdges_def Let_def split_def)

lemma networkConstructor_edges:
  assumes "selectsEdgeList p"
  shows "\<exists>n. fst (networkConstructor h (Some p))
           = fst (initializeNetworkBasedOnEdges h n (pNodeWeights p)
                    (truthyFlag (pSetNodeWeightsToTotalEdgeWeights p)) (the (pEdges p))
                    (pEdgeWeights p) (truthyFlag (pSortedEdges p)) (truthyFlag (pCheckIntegrity p)))"
  using assms unfolding selectsEdgeList_def networkConstructor_def
  by (auto simp: split_def Let_def)


section \<open>The nodes of a cluster\<close>

lemma filter_upt_Suc:
  "filter P [0..<Suc m] = (if P m then filter P [0..<m] @ [m] else filter P [0..<m])"
  by simp

lemma length_filter_upt_mono:
  "m \<le> n \<Longrightarrow> length (filter P [0..<m]) \<le> length (filter P [0..<n])"
proof -
  assume "m \<le> n"
  then obtain d where "n = m + d" using le_Suc_ex by blast
  then have "[0..<n] = [0..<m] @ [m..<n]" using upt_add_eq_append [of 0 m d] by simp
  then show ?thesis by simp
qed

lemma length_filter_upt_card: "length (filter P [0..<n]) = card {i. i < n \<and> P i}"
proof -
  have "card {i. i < n \<and> P i} = card (set (filter P [0..<n]))"
    by (rule arg_cong [where f = card]) auto
  also have "\<dots> = length (filter P [0..<n])" by (rule distinct_card) simp
  finally show ?thesis by simp
qed

lemma getNNodesPerCluster_nth:
  assumes "k < nClusters c"
  shows "getNNodesPerCluster c ! k = length (members c k)"
  using fold_accum_nat [of k "replicate (nClusters c) 0" "\<lambda>i. clusters c ! i" "cnNodes c"] assms
  by (simp add: getNNodesPerCluster_def members_def length_filter_upt_card)

lemma bucket_step:
  assumes inv: "bucketInv c m (npc, cnt)" and m: "m < cnNodes c" and r: "clusters c ! m < nClusters c"
  shows "bucketInv c (Suc m)
           (npc[clusters c ! m := (npc ! (clusters c ! m))[cnt ! (clusters c ! m) := m]],
            cnt[clusters c ! m := cnt ! (clusters c ! m) + 1])"
proof -
  let ?k = "clusters c ! m"
  let ?F = "\<lambda>k m. filter (\<lambda>i. clusters c ! i = k) [0..<m]"
  from inv have len: "length npc = nClusters c" "length cnt = nClusters c"
    and cnt: "\<And>k. k < nClusters c \<Longrightarrow> cnt ! k = length (?F k m)"
    and npc: "\<And>k. k < nClusters c \<Longrightarrow> npc ! k = ?F k m @ replicate (length (members c k) - cnt ! k) 0"
    by (auto simp: bucketInv_def)
  have "length (?F ?k (Suc m)) \<le> length (members c ?k)"
    unfolding members_def using m by (intro length_filter_upt_mono) simp
  then have lt: "length (?F ?k m) < length (members c ?k)" by simp
  have upd: "(?F ?k m @ replicate (length (members c ?k) - length (?F ?k m)) 0)[length (?F ?k m) := m]
           = ?F ?k (Suc m) @ replicate (length (members c ?k) - Suc (length (?F ?k m))) 0"
  proof -
    obtain d where d: "length (members c ?k) - length (?F ?k m) = Suc d"
      using lt by (metis Suc_diff_Suc)
    then have "length (members c ?k) - Suc (length (?F ?k m)) = d" by simp
    then show ?thesis using d by (simp add: list_update_append)
  qed
  show ?thesis
    unfolding bucketInv_def prod.case
  proof (intro conjI allI impI)
    show "length (npc[?k := (npc ! ?k)[cnt ! ?k := m]]) = nClusters c" using len by simp
    show "length (cnt[?k := cnt ! ?k + 1]) = nClusters c" using len by simp
  next
    fix k assume k: "k < nClusters c"
    show "cnt[?k := cnt ! ?k + 1] ! k = length (?F k (Suc m))"
      using k r len cnt by (cases "k = ?k") simp_all
    show "npc[?k := (npc ! ?k)[cnt ! ?k := m]] ! k
          = ?F k (Suc m) @ replicate (length (members c k) - cnt[?k := cnt ! ?k + 1] ! k) 0"
    proof (cases "k = ?k")
      case True
      then show ?thesis using r len cnt [OF r] npc [OF r] upd by simp
    next
      case False
      then show ?thesis using k len npc [OF k] by simp
    qed
  qed
qed

lemma bucket_loop:
  assumes "rangeInvariant c" "m \<le> cnNodes c"
    and f: "f = (\<lambda>i (npc, cnt).
                 (npc[clusters c ! i := (npc ! (clusters c ! i))[cnt ! (clusters c ! i) := i]],
                  cnt[clusters c ! i := cnt ! (clusters c ! i) + 1]))"
    and st0: "st0 = (map (\<lambda>i. replicate (getNNodesPerCluster c ! i) 0) [0..<nClusters c], replicate (nClusters c) 0)"
  shows "bucketInv c m (fold f [0..<m] st0)"
  using assms(2)
proof (induction m)
  case 0
  have "bucketInv c 0 st0"
    unfolding bucketInv_def st0 prod.case
    by (simp add: getNNodesPerCluster_nth)
  then show ?case by simp
next
  case (Suc m)
  obtain npc cnt where st: "fold f [0..<m] st0 = (npc, cnt)" by (cases "fold f [0..<m] st0")
  have r: "clusters c ! m < nClusters c" using assms(1) Suc.prems by (simp add: rangeInvariant_def)
  from Suc have "bucketInv c m (npc, cnt)" by (simp add: st)
  from bucket_step [OF this _ r] Suc.prems
  have "bucketInv c (Suc m) (f m (npc, cnt))" unfolding f by simp
  then show ?case by (simp add: st)
qed

lemma getNodesPerCluster_members:
  assumes "rangeInvariant c"
  shows "getNodesPerCluster c = map (members c) [0..<nClusters c]"
proof -
  define f where "f = (\<lambda>i (npc, cnt).
                 (npc[clusters c ! i := (npc ! (clusters c ! i))[cnt ! (clusters c ! i) := i]],
                  cnt[clusters c ! i := cnt ! (clusters c ! i) + 1]))"
  define st0 where "st0 = (map (\<lambda>i. replicate (getNNodesPerCluster c ! i) (0::nat)) [0..<nClusters c], replicate (nClusters c) (0::nat))"
  obtain npc cnt where st: "fold f [0..<cnNodes c] st0 = (npc, cnt)"
    by (cases "fold f [0..<cnNodes c] st0")
  from bucket_loop [OF assms le_refl f_def st0_def] have inv: "bucketInv c (cnNodes c) (npc, cnt)"
    by (simp add: st)
  have "npc = map (members c) [0..<nClusters c]"
  proof (rule nth_equalityI)
    show "length npc = length (map (members c) [0..<nClusters c])" using inv by (simp add: bucketInv_def)
  next
    fix k assume "k < length npc"
    then have k: "k < nClusters c" using inv by (simp add: bucketInv_def)
    with inv have "cnt ! k = length (members c k)"
      "npc ! k = members c k @ replicate (length (members c k) - cnt ! k) 0"
      by (auto simp: bucketInv_def members_def)
    then show "npc ! k = map (members c) [0..<nClusters c] ! k" using k by simp
  qed
  moreover have "getNodesPerCluster c = fst (fold f [0..<cnNodes c] st0)"
    unfolding getNodesPerCluster_def Let_def f_def st0_def ..
  ultimately show ?thesis by (simp add: st)
qed

lemma members_singleton: "i < n \<Longrightarrow> members (initializeBasedOnNNodes n) i = [i]"
proof -
  assume i: "i < n"
  have "filter (\<lambda>j. [0..<n] ! j = i) [0..<n] = filter (\<lambda>j. j = i) [0..<n]"
    by (rule filter_cong) auto
  also have "\<dots> = [i]" using i
  proof (induction n)
    case 0 then show ?case by simp
  next
    case (Suc n)
    then show ?case by (cases "i = n") (auto simp: filter_empty_conv)
  qed
  finally show ?thesis by (simp add: members_def)
qed

section \<open>Reducing a network by its singleton clustering\<close>

lemma degree_bound:
  assumes "integrity nw" "noSelfLoops nw" "i < nNodes nw"
  shows "firstNeighborIndices nw ! (i + 1) - firstNeighborIndices nw ! i \<le> nNodes nw - 1"
proof -
  let ?S = "{firstNeighborIndices nw ! i..<firstNeighborIndices nw ! (i + 1)}"
  have inj: "inj_on (\<lambda>k. neighbors nw ! k) ?S"
    by (rule inj_onI) (rule slice_inj [OF assms(1,3)])
  have sub: "(\<lambda>k. neighbors nw ! k) ` ?S \<subseteq> {0..<nNodes nw} - {i}"
    using integrity_neighbor_less [OF assms(1,3)] assms(2,3)
    by (auto simp: noSelfLoops_def)
  have "card ?S = card ((\<lambda>k. neighbors nw ! k) ` ?S)" using inj by (simp add: card_image)
  also have "\<dots> \<le> card ({0..<nNodes nw} - {i})" by (rule card_mono [OF _ sub]) simp
  also have "\<dots> = nNodes nw - 1" using assms(3) by simp
  finally show ?thesis by simp
qed

text \<open>The loop over the neighbours of node \<open>i\<close>, for the singleton clustering.\<close>

lemma reduceEdge_singleton:
  assumes m: "neighbors nw ! m < n" "neighbors nw ! m \<noteq> i" "rEdgeWeights2 st ! (neighbors nw ! m) = 0"
  shows "reduceEdge nw (initializeBasedOnNNodes n) i m st
       = st\<lparr>rNeighbors2 := (rNeighbors2 st)[rJ st := neighbors nw ! m], rJ := rJ st + 1,
            rEdgeWeights2 := (rEdgeWeights2 st)[neighbors nw ! m := edgeWeights nw ! m]\<rparr>"
  using assms by (simp add: reduceEdge_def Let_def)

lemma edge_loop:
  assumes int: "integrity nw" and nsl: "noSelfLoops nw" and i: "i < nNodes nw"
    and st0: "rJ st0 = 0" "rEdgeWeights2 st0 = replicate (nNodes nw) 0"
      "length (rNeighbors2 st0) = nNodes nw - 1"
    and d: "firstNeighborIndices nw ! i + d \<le> firstNeighborIndices nw ! (i + 1)"
  shows "\<exists>nb ew2. fold (reduceEdge nw (initializeBasedOnNNodes (nNodes nw)) i)
           [firstNeighborIndices nw ! i..<firstNeighborIndices nw ! i + d] st0
         = st0\<lparr>rNeighbors2 := nb, rJ := d, rEdgeWeights2 := ew2\<rparr>
         \<and> length nb = nNodes nw - 1 \<and> length ew2 = nNodes nw
         \<and> (\<forall>q<d. nb ! q = neighbors nw ! (firstNeighborIndices nw ! i + q))
         \<and> (\<forall>q<d. ew2 ! (neighbors nw ! (firstNeighborIndices nw ! i + q))
                    = edgeWeights nw ! (firstNeighborIndices nw ! i + q))
         \<and> (\<forall>c<nNodes nw. (\<forall>q<d. neighbors nw ! (firstNeighborIndices nw ! i + q) \<noteq> c) \<longrightarrow> ew2 ! c = 0)"
  using d
proof (induction d)
  case 0
  have "st0 = st0\<lparr>rNeighbors2 := rNeighbors2 st0, rJ := 0, rEdgeWeights2 := rEdgeWeights2 st0\<rparr>"
    using st0(1) by simp
  then show ?case using st0 by (intro exI [of _ "rNeighbors2 st0"] exI [of _ "rEdgeWeights2 st0"]) simp
next
  case (Suc d)
  let ?F = "firstNeighborIndices nw ! i"
  let ?n = "nNodes nw"
  from Suc obtain nb ew2 where
    eq: "fold (reduceEdge nw (initializeBasedOnNNodes ?n) i) [?F..<?F + d] st0
           = st0\<lparr>rNeighbors2 := nb, rJ := d, rEdgeWeights2 := ew2\<rparr>"
    and len: "length nb = ?n - 1" "length ew2 = ?n"
    and nb: "\<forall>q<d. nb ! q = neighbors nw ! (?F + q)"
    and ew: "\<forall>q<d. ew2 ! (neighbors nw ! (?F + q)) = edgeWeights nw ! (?F + q)"
    and zero: "\<forall>c<?n. (\<forall>q<d. neighbors nw ! (?F + q) \<noteq> c) \<longrightarrow> ew2 ! c = 0"
    by auto
  let ?c = "neighbors nw ! (?F + d)"
  have in_slice: "?F + d \<in> {?F..<firstNeighborIndices nw ! (i + 1)}" using Suc.prems by simp
  have c: "?c < ?n" using integrity_neighbor_less [OF int i] Suc.prems by simp
  have ci: "?c \<noteq> i" using nsl i in_slice by (simp add: noSelfLoops_def)
  have fresh: "\<forall>q<d. neighbors nw ! (?F + q) \<noteq> ?c"
  proof (intro allI impI notI)
    fix q assume q: "q < d" "neighbors nw ! (?F + q) = ?c"
    have "?F + q \<in> {?F..<firstNeighborIndices nw ! (i + 1)}" using q Suc.prems by simp
    from slice_inj [OF int i this in_slice q(2)] q(1) show False by simp
  qed
  then have z: "ew2 ! ?c = 0" using zero c by simp
  have dlt: "d < length nb"
    using degree_bound [OF int nsl i] Suc.prems len by simp
  let ?nb = "nb[d := ?c]" and ?ew = "ew2[?c := edgeWeights nw ! (?F + d)]"
  have step: "fold (reduceEdge nw (initializeBasedOnNNodes ?n) i) [?F..<?F + Suc d] st0
        = st0\<lparr>rNeighbors2 := ?nb, rJ := Suc d, rEdgeWeights2 := ?ew\<rparr>"
    using eq reduceEdge_singleton [of nw "?F + d" ?n i "st0\<lparr>rNeighbors2 := nb, rJ := d, rEdgeWeights2 := ew2\<rparr>"] c ci z
    by simp
  have 1: "\<forall>q<Suc d. ?nb ! q = neighbors nw ! (?F + q)"
    using nb dlt by (auto simp: nth_list_update less_Suc_eq)
  have 2: "\<forall>q<Suc d. ?ew ! (neighbors nw ! (?F + q)) = edgeWeights nw ! (?F + q)"
  proof (intro allI impI)
    fix q assume "q < Suc d"
    then consider "q = d" | "q < d" by linarith
    then show "?ew ! (neighbors nw ! (?F + q)) = edgeWeights nw ! (?F + q)"
    proof cases
      case 1 then show ?thesis using c len by simp
    next
      case 2 then show ?thesis using fresh ew by (metis nth_list_update_neq)
    qed
  qed
  have 3: "\<forall>c<?n. (\<forall>q<Suc d. neighbors nw ! (?F + q) \<noteq> c) \<longrightarrow> ?ew ! c = 0"
    using zero by (auto simp: nth_list_update less_Suc_eq)
  show ?case
    using step len 1 2 3
    by (intro exI [of _ ?nb] exI [of _ ?ew]) simp
qed

lemma copy_loop:
  fixes nbr :: "nat \<Rightarrow> nat" and w :: "nat \<Rightarrow> real"
  assumes nb: "\<forall>q<j. rNeighbors2 st ! q = nbr q"
    and inj: "\<forall>q<j. \<forall>q'<j. nbr q = nbr q' \<longrightarrow> q = q'"
    and rng: "\<forall>q<j. nbr q < length (rEdgeWeights2 st)"
    and ew: "\<forall>q<j. rEdgeWeights2 st ! (nbr q) = w q"
    and len: "rNEdges st + j \<le> length (rNeighbors1 st)" "rNEdges st + j \<le> length (rEdgeWeights1 st)"
    and k: "k \<le> j"
  shows "\<exists>n1 e1 e2. fold reduceCopy [0..<k] st
           = st\<lparr>rNeighbors1 := n1, rEdgeWeights1 := e1, rEdgeWeights2 := e2\<rparr>
         \<and> length n1 = length (rNeighbors1 st) \<and> length e1 = length (rEdgeWeights1 st)
         \<and> length e2 = length (rEdgeWeights2 st)
         \<and> (\<forall>q<k. n1 ! (rNEdges st + q) = nbr q \<and> e1 ! (rNEdges st + q) = w q \<and> e2 ! (nbr q) = 0)
         \<and> (\<forall>x. x < rNEdges st \<or> rNEdges st + k \<le> x \<longrightarrow>
                n1 ! x = rNeighbors1 st ! x \<and> e1 ! x = rEdgeWeights1 st ! x)
         \<and> (\<forall>c. (\<forall>q<k. nbr q \<noteq> c) \<longrightarrow> e2 ! c = rEdgeWeights2 st ! c)"
  using k
proof (induction k)
  case 0
  have "st = st\<lparr>rNeighbors1 := rNeighbors1 st, rEdgeWeights1 := rEdgeWeights1 st, rEdgeWeights2 := rEdgeWeights2 st\<rparr>"
    by simp
  then show ?case
    by (intro exI [of _ "rNeighbors1 st"] exI [of _ "rEdgeWeights1 st"] exI [of _ "rEdgeWeights2 st"]) simp
next
  case (Suc k)
  let ?E = "rNEdges st"
  from Suc obtain n1 e1 e2 where
    eq: "fold reduceCopy [0..<k] st = st\<lparr>rNeighbors1 := n1, rEdgeWeights1 := e1, rEdgeWeights2 := e2\<rparr>"
    and l: "length n1 = length (rNeighbors1 st)" "length e1 = length (rEdgeWeights1 st)"
      "length e2 = length (rEdgeWeights2 st)"
    and dn: "\<forall>q<k. n1 ! (?E + q) = nbr q \<and> e1 ! (?E + q) = w q \<and> e2 ! (nbr q) = 0"
    and frame: "\<forall>x. x < ?E \<or> ?E + k \<le> x \<longrightarrow> n1 ! x = rNeighbors1 st ! x \<and> e1 ! x = rEdgeWeights1 st ! x"
    and rest: "\<forall>c. (\<forall>q<k. nbr q \<noteq> c) \<longrightarrow> e2 ! c = rEdgeWeights2 st ! c"
    by auto
  have kj: "k < j" using Suc.prems by simp
  have fresh: "\<forall>q<k. nbr q \<noteq> nbr k" using inj kj by (metis less_trans nat_neq_iff)
  have e2k: "e2 ! (nbr k) = w k" using rest fresh ew kj by simp
  let ?n1 = "n1[?E + k := nbr k]" and ?e1 = "e1[?E + k := w k]" and ?e2 = "e2[nbr k := 0]"
  have step: "fold reduceCopy [0..<Suc k] st
      = st\<lparr>rNeighbors1 := ?n1, rEdgeWeights1 := ?e1, rEdgeWeights2 := ?e2\<rparr>"
    using eq nb kj e2k by (simp add: reduceCopy_def)
  have inr: "?E + k < length n1" "?E + k < length e1" "nbr k < length e2"
    using len l kj rng by simp_all
  have 1: "\<forall>q<Suc k. ?n1 ! (?E + q) = nbr q \<and> ?e1 ! (?E + q) = w q \<and> ?e2 ! (nbr q) = 0"
  proof (intro allI impI)
    fix q assume "q < Suc k"
    then consider "q = k" | "q < k" by linarith
    then show "?n1 ! (?E + q) = nbr q \<and> ?e1 ! (?E + q) = w q \<and> ?e2 ! (nbr q) = 0"
    proof cases
      case 1 then show ?thesis using inr by simp
    next
      case 2
      then have "nbr q \<noteq> nbr k" using fresh by simp
      then show ?thesis using 2 dn by (simp add: nth_list_update)
    qed
  qed
  have 2: "\<forall>x. x < ?E \<or> ?E + Suc k \<le> x \<longrightarrow> ?n1 ! x = rNeighbors1 st ! x \<and> ?e1 ! x = rEdgeWeights1 st ! x"
    using frame by (auto simp: nth_list_update)
  have 3: "\<forall>c. (\<forall>q<Suc k. nbr q \<noteq> c) \<longrightarrow> ?e2 ! c = rEdgeWeights2 st ! c"
    using rest by (auto simp: nth_list_update less_Suc_eq)
  show ?case
    using step l 1 2 3
    by (intro exI [of _ ?n1] exI [of _ ?e1] exI [of _ ?e2]) simp
qed

lemma reduceCluster_singleton:
  assumes int: "integrity nw" and nsl: "noSelfLoops nw" and i: "i < nNodes nw"
    and inv: "reduceInv nw i st"
  shows "reduceInv nw (Suc i)
           (reduceCluster nw (initializeBasedOnNNodes (nNodes nw)) (map (\<lambda>i. [i]) [0..<nNodes nw]) i st)"
proof -
  let ?n = "nNodes nw" and ?F = "firstNeighborIndices nw ! i" and ?G = "firstNeighborIndices nw ! (i + 1)"
  let ?sc = "initializeBasedOnNNodes ?n"
  define d where "d = ?G - ?F"
  have FG: "?F \<le> ?G" using integrity_offsets [OF int] i by simp
  then have G: "?G = ?F + d" by (simp add: d_def)
  have GE: "?G \<le> nEdges nw" using integrity_slice_le_nEdges [OF int i] .
  from inv have I: "rNEdges st = ?F" "rSelfLinks st = totalEdgeWeightSelfLinks nw"
    "rEdgeWeights2 st = replicate ?n 0" "length (rNeighbors2 st) = ?n - 1"
    "length (rNeighbors1 st) = nEdges nw" "length (rEdgeWeights1 st) = nEdges nw"
    "length (rNodeWeights st) = ?n" "length (rFirstNeighborIndices st) = ?n + 1"
    and I1: "\<forall>x<?F. rNeighbors1 st ! x = neighbors nw ! x \<and> rEdgeWeights1 st ! x = edgeWeights nw ! x"
    and I2: "\<forall>x<?n. rNodeWeights st ! x = (if x < i then nodeWeights nw ! x else 0)"
    and I3: "\<forall>x\<le>i. rFirstNeighborIndices st ! x = firstNeighborIndices nw ! x"
    by (simp_all add: reduceInv_def)
  define st1 where "st1 = st\<lparr>rJ := 0, rNodeWeights := (rNodeWeights st)[i := rNodeWeights st ! i + nodeWeights nw ! i]\<rparr>"
  have st1: "rJ st1 = 0" "rEdgeWeights2 st1 = replicate ?n 0" "length (rNeighbors2 st1) = ?n - 1"
    using I by (simp_all add: st1_def)
  from edge_loop [OF int nsl i st1, of d] G
  obtain nb ew2 where
    e_eq: "fold (reduceEdge nw ?sc i) [?F..<?G] st1 = st1\<lparr>rNeighbors2 := nb, rJ := d, rEdgeWeights2 := ew2\<rparr>"
    and e_len: "length nb = ?n - 1" "length ew2 = ?n"
    and e_nb: "\<forall>q<d. nb ! q = neighbors nw ! (?F + q)"
    and e_ew: "\<forall>q<d. ew2 ! (neighbors nw ! (?F + q)) = edgeWeights nw ! (?F + q)"
    and e_zero: "\<forall>c<?n. (\<forall>q<d. neighbors nw ! (?F + q) \<noteq> c) \<longrightarrow> ew2 ! c = 0"
    by auto
  define st2 where "st2 = st1\<lparr>rNeighbors2 := nb, rJ := d, rEdgeWeights2 := ew2\<rparr>"
  have inj: "\<forall>q<d. \<forall>q'<d. neighbors nw ! (?F + q) = neighbors nw ! (?F + q') \<longrightarrow> q = q'"
  proof (intro allI impI)
    fix q q' assume q: "q < d" "q' < d" "neighbors nw ! (?F + q) = neighbors nw ! (?F + q')"
    have "?F + q \<in> {?F..<?G}" "?F + q' \<in> {?F..<?G}" using q G by simp_all
    from slice_inj [OF int i this q(3)] show "q = q'" by simp
  qed
  have rng: "\<forall>q<d. neighbors nw ! (?F + q) < length (rEdgeWeights2 st2)"
    using integrity_neighbor_less [OF int i] G e_len by (simp add: st2_def)
  have c_pre: "\<forall>q<d. rNeighbors2 st2 ! q = neighbors nw ! (?F + q)"
    "\<forall>q<d. rEdgeWeights2 st2 ! (neighbors nw ! (?F + q)) = edgeWeights nw ! (?F + q)"
    "rNEdges st2 + d \<le> length (rNeighbors1 st2)" "rNEdges st2 + d \<le> length (rEdgeWeights1 st2)"
    using e_nb e_ew I G GE by (simp_all add: st2_def st1_def)
  from copy_loop [OF c_pre(1) inj rng c_pre(2) c_pre(3,4) le_refl]
  obtain n1 e1 e2 where
    c_eq: "fold reduceCopy [0..<d] st2 = st2\<lparr>rNeighbors1 := n1, rEdgeWeights1 := e1, rEdgeWeights2 := e2\<rparr>"
    and c_len: "length n1 = length (rNeighbors1 st2)" "length e1 = length (rEdgeWeights1 st2)"
      "length e2 = length (rEdgeWeights2 st2)"
    and c_new: "\<forall>q<d. n1 ! (rNEdges st2 + q) = neighbors nw ! (?F + q)
                  \<and> e1 ! (rNEdges st2 + q) = edgeWeights nw ! (?F + q)
                  \<and> e2 ! (neighbors nw ! (?F + q)) = 0"
    and c_frame: "\<forall>x. x < rNEdges st2 \<or> rNEdges st2 + d \<le> x \<longrightarrow>
                n1 ! x = rNeighbors1 st2 ! x \<and> e1 ! x = rEdgeWeights1 st2 ! x"
    and c_rest: "\<forall>c. (\<forall>q<d. neighbors nw ! (?F + q) \<noteq> c) \<longrightarrow> e2 ! c = rEdgeWeights2 st2 ! c"
    by blast
  have E2: "rNEdges st2 = ?F" using I by (simp add: st2_def st1_def)
  have e2z: "e2 = replicate ?n 0"
  proof (rule nth_equalityI)
    show "length e2 = length (replicate ?n (0::real))" using c_len e_len by (simp add: st2_def)
  next
    fix c assume "c < length e2"
    then have c: "c < ?n" using c_len e_len by (simp add: st2_def)
    show "e2 ! c = replicate ?n 0 ! c"
    proof (cases "\<exists>q<d. neighbors nw ! (?F + q) = c")
      case True then show ?thesis using c_new c by auto
    next
      case False
      then have "e2 ! c = ew2 ! c" using c_rest by (simp add: st2_def)
      then show ?thesis using False e_zero c by simp
    qed
  qed
  have npc: "map (\<lambda>i. [i]) [0..<?n] ! i = [i]" using i by simp
  have res: "reduceCluster nw ?sc (map (\<lambda>i. [i]) [0..<?n]) i st
      = st\<lparr>rJ := d, rNodeWeights := (rNodeWeights st)[i := rNodeWeights st ! i + nodeWeights nw ! i],
           rNeighbors2 := nb, rEdgeWeights2 := e2, rNeighbors1 := n1, rEdgeWeights1 := e1,
           rNEdges := ?G,
           rFirstNeighborIndices := (rFirstNeighborIndices st)[i + 1 := ?G]\<rparr>"
    unfolding reduceCluster_def Let_def npc
    using e_eq c_eq E2 G
    by (simp add: reduceNode_def st1_def [symmetric] st2_def [symmetric])
       (simp add: st2_def st1_def)
  have n1: "\<forall>x<?G. n1 ! x = neighbors nw ! x \<and> e1 ! x = edgeWeights nw ! x"
  proof (intro allI impI)
    fix x assume x: "x < ?G"
    show "n1 ! x = neighbors nw ! x \<and> e1 ! x = edgeWeights nw ! x"
    proof (cases "x < ?F")
      case True
      then show ?thesis using c_frame E2 I1 by (simp add: st2_def st1_def)
    next
      case False
      then obtain q where q: "x = ?F + q" "q < d" using x G by (metis add_diff_inverse_nat nat_add_left_cancel_less)
      then show ?thesis using c_new E2 by simp
    qed
  qed
  have nwt: "\<forall>x<?n. (rNodeWeights st)[i := rNodeWeights st ! i + nodeWeights nw ! i] ! x
                  = (if x < Suc i then nodeWeights nw ! x else 0)"
    using I I2 i by (auto simp: nth_list_update less_Suc_eq)
  have fni: "\<forall>x\<le>Suc i. (rFirstNeighborIndices st)[i + 1 := ?G] ! x = firstNeighborIndices nw ! x"
  proof (intro allI impI)
    fix x assume "x \<le> Suc i"
    then consider "x = Suc i" | "x \<le> i" by linarith
    then show "(rFirstNeighborIndices st)[i + 1 := ?G] ! x = firstNeighborIndices nw ! x"
    proof cases
      case 1 then show ?thesis using I(8) i by simp
    next
      case 2 then show ?thesis using I3 by simp
    qed
  qed
  show ?thesis
    unfolding res reduceInv_def
    using I n1 e2z c_len e_len nwt fni
    by (simp add: st2_def st1_def)
qed

lemma reduce_loop:
  assumes int: "integrity nw" and nsl: "noSelfLoops nw" and m: "m \<le> nNodes nw"
    and inv0: "reduceInv nw 0 st0"
  shows "reduceInv nw m
           (fold (reduceCluster nw (initializeBasedOnNNodes (nNodes nw)) (map (\<lambda>i. [i]) [0..<nNodes nw]))
              [0..<m] st0)"
  using m
proof (induction m)
  case 0
  show ?case using inv0 by simp
next
  case (Suc m)
  then show ?case using reduceCluster_singleton [OF int nsl] by simp
qed

lemma getNodesPerCluster_singleton:
  "getNodesPerCluster (initializeBasedOnNNodes n) = map (\<lambda>i. [i]) [0..<n]"
  using getNodesPerCluster_members [OF rangeInvariant_singleton [of n]]
  by (simp add: members_singleton cong: map_cong)

lemma createReducedNetwork_singleton:
  assumes int: "integrity nw" and nsl: "noSelfLoops nw" and pos: "0 < nNodes nw"
  shows "createReducedNetwork nw (initializeBasedOnNNodes (nNodes nw)) = Inr nw"
proof -
  let ?n = "nNodes nw"
  define st0 where "st0 = \<lparr>rNEdges = 0,
                   rNodeWeights = replicate ?n 0,
                   rFirstNeighborIndices = replicate (?n + 1) 0,
                   rSelfLinks = totalEdgeWeightSelfLinks nw,
                   rNeighbors1 = replicate (nEdges nw) 0,
                   rEdgeWeights1 = replicate (nEdges nw) 0,
                   rNeighbors2 = replicate (?n - 1) 0,
                   rEdgeWeights2 = replicate ?n (0::real),
                   rJ = 0\<rparr>"
  define st where "st = fold (reduceCluster nw (initializeBasedOnNNodes ?n) (map (\<lambda>i. [i]) [0..<?n])) [0..<?n] st0"
  have F0: "firstNeighborIndices nw ! 0 = 0" using int by (simp add: integrity_def)
  have "reduceInv nw 0 st0" by (simp add: reduceInv_def st0_def F0)
  from reduce_loop [OF int nsl le_refl this] have inv: "reduceInv nw ?n st" by (simp add: st_def)
  have Fn: "firstNeighborIndices nw ! ?n = nEdges nw"
    and lens: "length (nodeWeights nw) = ?n" "length (firstNeighborIndices nw) = ?n + 1"
      "length (neighbors nw) = nEdges nw" "length (edgeWeights nw) = nEdges nw"
    using int by (simp_all add: integrity_def)
  from inv have I: "rNEdges st = nEdges nw" "rSelfLinks st = totalEdgeWeightSelfLinks nw"
    "length (rNeighbors1 st) = nEdges nw" "length (rEdgeWeights1 st) = nEdges nw"
    "length (rNodeWeights st) = ?n" "length (rFirstNeighborIndices st) = ?n + 1"
    and I1: "\<forall>x<nEdges nw. rNeighbors1 st ! x = neighbors nw ! x \<and> rEdgeWeights1 st ! x = edgeWeights nw ! x"
    and I2: "\<forall>x<?n. rNodeWeights st ! x = nodeWeights nw ! x"
    and I3: "\<forall>x\<le>?n. rFirstNeighborIndices st ! x = firstNeighborIndices nw ! x"
    by (simp_all add: reduceInv_def Fn)
  have a: "rNodeWeights st = nodeWeights nw"
    by (rule nth_equalityI) (use I I2 lens in simp_all)
  have b: "rFirstNeighborIndices st = firstNeighborIndices nw"
    by (rule nth_equalityI) (use I I3 lens in \<open>simp_all add: less_Suc_eq_le\<close>)
  have c: "take (rNEdges st) (rNeighbors1 st) = neighbors nw"
    by (rule nth_equalityI) (use I I1 lens in simp_all)
  have d: "take (rNEdges st) (rEdgeWeights1 st) = edgeWeights nw"
    by (rule nth_equalityI) (use I I1 lens in simp_all)
  have "createReducedNetwork nw (initializeBasedOnNNodes ?n)
      = Inr \<lparr>nNodes = ?n, nodeWeights = rNodeWeights st,
                firstNeighborIndices = rFirstNeighborIndices st,
                neighbors = take (rNEdges st) (rNeighbors1 st),
                edgeWeights = take (rNEdges st) (rEdgeWeights1 st),
                totalEdgeWeightSelfLinks = rSelfLinks st,
                nEdges = rNEdges st\<rparr>"
    using pos
    by (simp add: createReducedNetwork_def Let_def getNodesPerCluster_singleton st_def st0_def)
  then show ?thesis using a b c d I by simp
qed

section \<open>The refinement of the Leiden algorithm\<close>









lemma clusterWeight_indicator:
  "clusterWeight nw cs k = (\<Sum>i = 0..<nNodes nw. if cs ! i = k then nodeWeights nw ! i else 0)"
proof -
  have "finite {0..<nNodes nw}" by simp
  from sum.inter_filter [OF this, of "\<lambda>i. nodeWeights nw ! i" "\<lambda>i. cs ! i = k"]
  show ?thesis unfolding clusterWeight_def .
qed

lemma cluster_squares_pairs:
  assumes "nNodes nw \<le> length cs"
  shows "(\<Sum>k \<in> set (take (nNodes nw) cs). (clusterWeight nw cs k)\<^sup>2)
       = (\<Sum>i = 0..<nNodes nw. \<Sum>x = 0..<nNodes nw.
            if cs ! i = cs ! x then nodeWeights nw ! i * nodeWeights nw ! x else 0)"
proof -
  let ?n = "nNodes nw" and ?w = "\<lambda>i. nodeWeights nw ! i"
  let ?K = "set (take ?n cs)"
  have mem: "cs ! i \<in> ?K" if "i < ?n" for i
    using that assms by (metis in_set_conv_nth length_take min.absorb2 nth_take)
  have "(\<Sum>k \<in> ?K. (clusterWeight nw cs k)\<^sup>2)
      = (\<Sum>k \<in> ?K. \<Sum>i = 0..<?n. \<Sum>x = 0..<?n.
           if cs ! i = k \<and> cs ! x = k then ?w i * ?w x else 0)"
  proof (rule sum.cong [OF refl])
    fix k
    have "(clusterWeight nw cs k)\<^sup>2
        = (\<Sum>i = 0..<?n. if cs ! i = k then ?w i else 0) * (\<Sum>x = 0..<?n. if cs ! x = k then ?w x else 0)"
      by (simp add: clusterWeight_indicator power2_eq_square)
    also have "\<dots> = (\<Sum>i = 0..<?n. \<Sum>x = 0..<?n.
        (if cs ! i = k then ?w i else 0) * (if cs ! x = k then ?w x else 0))"
      by (simp add: sum_product)
    also have "\<dots> = (\<Sum>i = 0..<?n. \<Sum>x = 0..<?n. if cs ! i = k \<and> cs ! x = k then ?w i * ?w x else 0)"
      by (intro sum.cong refl) simp
    finally show "(clusterWeight nw cs k)\<^sup>2 = (\<Sum>i = 0..<?n. \<Sum>x = 0..<?n.
           if cs ! i = k \<and> cs ! x = k then ?w i * ?w x else 0)" .
  qed
  also have "\<dots> = (\<Sum>i = 0..<?n. \<Sum>k \<in> ?K. \<Sum>x = 0..<?n.
           if cs ! i = k \<and> cs ! x = k then ?w i * ?w x else 0)"
    by (rule sum.swap)
  also have "\<dots> = (\<Sum>i = 0..<?n. \<Sum>x = 0..<?n. \<Sum>k \<in> ?K.
           if cs ! i = k \<and> cs ! x = k then ?w i * ?w x else 0)"
    by (rule sum.cong [OF refl]) (rule sum.swap)
  also have "\<dots> = (\<Sum>i = 0..<?n. \<Sum>x = 0..<?n. if cs ! i = cs ! x then ?w i * ?w x else 0)"
  proof (rule sum.cong [OF refl], rule sum.cong [OF refl])
    fix i x assume i: "i \<in> {0..<?n}"
    have "(\<Sum>k \<in> ?K. if cs ! i = k \<and> cs ! x = k then ?w i * ?w x else 0)
        = (\<Sum>k \<in> ?K. if k = cs ! i then (if cs ! i = cs ! x then ?w i * ?w x else 0) else 0)"
      by (intro sum.cong refl) auto
    also have "\<dots> = (if cs ! i = cs ! x then ?w i * ?w x else 0)"
      using mem [of i] i by (simp add: sum.delta)
    finally show "(\<Sum>k \<in> ?K. if cs ! i = k \<and> cs ! x = k then ?w i * ?w x else 0)
        = (if cs ! i = cs ! x then ?w i * ?w x else 0)" .
  qed
  finally show ?thesis .
qed

lemma cpmNumerator_pairSum:
  assumes "nNodes nw \<le> length cs"
  shows "cpmNumerator resolution nw cs
       = pairSum (nNodes nw)
           (\<lambda>i x. adjacency nw i x - resolution * (nodeWeights nw ! i * nodeWeights nw ! x)) cs
         + totalEdgeWeightSelfLinks nw"
proof -
  have "pairSum (nNodes nw)
           (\<lambda>i x. adjacency nw i x - resolution * (nodeWeights nw ! i * nodeWeights nw ! x)) cs
      = (\<Sum>i = 0..<nNodes nw. \<Sum>x = 0..<nNodes nw. if cs ! i = cs ! x then adjacency nw i x else 0)
        - resolution * (\<Sum>i = 0..<nNodes nw. \<Sum>x = 0..<nNodes nw.
            if cs ! i = cs ! x then nodeWeights nw ! i * nodeWeights nw ! x else 0)"
    unfolding pairSum_def sum_distrib_left sum_subtractf [symmetric]
    by (intro sum.cong refl) simp
  then show ?thesis
    unfolding cpmNumerator_def cluster_squares_pairs [OF assms] by simp
qed

lemma pairSum_relabel:
  assumes "inj_on f (set (take n cs))" "n \<le> length cs"
  shows "pairSum n b (map f cs) = pairSum n b cs"
proof -
  have mem: "cs ! i \<in> set (take n cs)" if "i < n" for i
    using that assms(2) by (metis in_set_conv_nth length_take min.absorb2 nth_take)
  show ?thesis
    unfolding pairSum_def
  proof (intro sum.cong refl)
    fix i x assume "i \<in> {0..<n}" "x \<in> {0..<n}"
    then have "i < n" "x < n" by auto
    then have "f (cs ! i) = f (cs ! x) \<longleftrightarrow> cs ! i = cs ! x"
      using inj_on_eq_iff [OF assms(1) mem mem] by simp
    then show "(if map f cs ! i = map f cs ! x then b i x else 0) = (if cs ! i = cs ! x then b i x else 0)"
      using \<open>i < n\<close> \<open>x < n\<close> assms(2) by simp
  qed
qed

lemma pairSum_move:
  assumes sym: "\<forall>i \<in> {0..<n}. \<forall>x \<in> {0..<n}. b i x = b x i"
    and j: "j < n" and len: "n \<le> length cs"
  shows "pairSum n b (cs[j := c]) - pairSum n b cs
       = 2 * ((\<Sum>x \<in> {0..<n} - {j}. if cs ! x = c then b j x else 0)
              - (\<Sum>x \<in> {0..<n} - {j}. if cs ! x = cs ! j then b j x else 0))"
proof -
  let ?D = "{0..<n} - {j}"
  define f where "f = (\<lambda>cs i x. if (cs :: nat list) ! i = cs ! x then b i x else 0)"
  have split: "pairSum n b cs' = f cs' j j + (\<Sum>x \<in> ?D. f cs' j x)
        + ((\<Sum>i \<in> ?D. f cs' i j) + (\<Sum>i \<in> ?D. \<Sum>x \<in> ?D. f cs' i x))" for cs'
  proof -
    have jin: "j \<in> {0..<n}" using j by simp
    have "pairSum n b cs' = (\<Sum>i = 0..<n. \<Sum>x = 0..<n. f cs' i x)"
      by (simp add: pairSum_def f_def)
    also have "\<dots> = (\<Sum>x = 0..<n. f cs' j x) + (\<Sum>i \<in> ?D. \<Sum>x = 0..<n. f cs' i x)"
      by (rule sum.remove [OF _ jin]) simp
    also have "(\<Sum>x = 0..<n. f cs' j x) = f cs' j j + (\<Sum>x \<in> ?D. f cs' j x)"
      by (rule sum.remove [OF _ jin]) simp
    also have "(\<Sum>i \<in> ?D. \<Sum>x = 0..<n. f cs' i x) = (\<Sum>i \<in> ?D. f cs' i j + (\<Sum>x \<in> ?D. f cs' i x))"
      by (intro sum.cong refl sum.remove [OF _ jin]) simp
    also have "\<dots> = (\<Sum>i \<in> ?D. f cs' i j) + (\<Sum>i \<in> ?D. \<Sum>x \<in> ?D. f cs' i x)"
      by (simp add: sum.distrib)
    finally show ?thesis .
  qed
  have jl: "j < length cs" using j len by simp
  have a: "f (cs[j := c]) j j = f cs j j" by (simp add: f_def)
  have b1: "(\<Sum>x \<in> ?D. f (cs[j := c]) j x) = (\<Sum>x \<in> ?D. if cs ! x = c then b j x else 0)"
    by (intro sum.cong refl) (use jl in \<open>auto simp: f_def\<close>)
  have b2: "(\<Sum>x \<in> ?D. f cs j x) = (\<Sum>x \<in> ?D. if cs ! x = cs ! j then b j x else 0)"
    by (intro sum.cong refl) (auto simp: f_def)
  have c1: "(\<Sum>i \<in> ?D. f (cs[j := c]) i j) = (\<Sum>x \<in> ?D. if cs ! x = c then b j x else 0)"
    by (intro sum.cong refl) (use jl sym j in \<open>auto simp: f_def\<close>)
  have c2: "(\<Sum>i \<in> ?D. f cs i j) = (\<Sum>x \<in> ?D. if cs ! x = cs ! j then b j x else 0)"
    by (intro sum.cong refl) (use sym j in \<open>auto simp: f_def\<close>)
  have d: "(\<Sum>i \<in> ?D. \<Sum>x \<in> ?D. f (cs[j := c]) i x) = (\<Sum>i \<in> ?D. \<Sum>x \<in> ?D. f cs i x)"
    by (intro sum.cong refl) (auto simp: f_def)
  show ?thesis
    unfolding split [of "cs[j := c]"] split [of cs] a b1 b2 c1 c2 d by simp
qed

lemma moveGain_pairs:
  assumes "integrity nw" "noSelfLoops nw" "j < nNodes nw"
  shows "(\<Sum>x \<in> {0..<nNodes nw} - {j}. if cs ! x = c
            then adjacency nw j x - resolution * (nodeWeights nw ! j * nodeWeights nw ! x) else 0)
       = moveGain resolution nw cs j c"
proof -
  let ?n = "nNodes nw" and ?D = "{0..<nNodes nw} - {j}"
  have jin: "j \<in> {0..<?n}" using assms(3) by simp
  have nb: "\<forall>k \<in> {firstNeighborIndices nw ! j..<firstNeighborIndices nw ! (j + 1)}. neighbors nw ! k < ?n"
    using integrity_neighbor_less [OF assms(1,3)] by auto
  have "edgesToCluster nw cs j c
      = (\<Sum>k = firstNeighborIndices nw ! j..<firstNeighborIndices nw ! (j + 1).
           (if cs ! (neighbors nw ! k) = c then 1 else 0) * edgeWeights nw ! k)"
    unfolding edgesToCluster_def by (intro sum.cong refl) simp
  also have "\<dots> = (\<Sum>x = 0..<?n. (if cs ! x = c then 1 else 0) * adjacency nw j x)"
    by (rule slice_sum_adjacency [OF nb])
  also have "\<dots> = (if cs ! j = c then 1 else 0) * adjacency nw j j
                    + (\<Sum>x \<in> ?D. (if cs ! x = c then 1 else 0) * adjacency nw j x)"
    by (rule sum.remove [OF _ jin]) simp
  also have "\<dots> = (\<Sum>x \<in> ?D. if cs ! x = c then adjacency nw j x else 0)"
    unfolding adjacency_diag [OF assms(2,3)] by (simp add: if_distrib [of "\<lambda>z. z * _"] cong: if_cong)
  finally have e: "edgesToCluster nw cs j c = (\<Sum>x \<in> ?D. if cs ! x = c then adjacency nw j x else 0)" .
  have "(\<Sum>x \<in> ?D. if cs ! x = c
            then adjacency nw j x - resolution * (nodeWeights nw ! j * nodeWeights nw ! x) else 0)
      = (\<Sum>x \<in> ?D. (if cs ! x = c then adjacency nw j x else 0)
            - nodeWeights nw ! j * resolution * (if cs ! x = c then nodeWeights nw ! x else 0))"
    by (intro sum.cong refl) simp
  also have "\<dots> = (\<Sum>x \<in> ?D. if cs ! x = c then adjacency nw j x else 0)
            - nodeWeights nw ! j * resolution * (\<Sum>x \<in> ?D. if cs ! x = c then nodeWeights nw ! x else 0)"
    unfolding sum_subtractf sum_distrib_left ..
  finally show ?thesis
    unfolding moveGain_def weightOn_def e by simp
qed

lemma cpmNumerator_move:
  assumes "integrity nw" "noSelfLoops nw" "j < nNodes nw" "nNodes nw \<le> length cs"
  shows "cpmNumerator resolution nw (cs[j := c]) - cpmNumerator resolution nw cs
       = 2 * (moveGain resolution nw cs j c - moveGain resolution nw cs j (cs ! j))"
proof -
  let ?b = "\<lambda>i x. adjacency nw i x - resolution * (nodeWeights nw ! i * nodeWeights nw ! x)"
  have sym: "\<forall>i \<in> {0..<nNodes nw}. \<forall>x \<in> {0..<nNodes nw}. ?b i x = ?b x i"
    using adjacency_sym [OF assms(1)] by (simp add: mult.commute)
  have len: "nNodes nw \<le> length (cs[j := c])" using assms(4) by simp
  show ?thesis
    unfolding cpmNumerator_pairSum [OF len] cpmNumerator_pairSum [OF assms(4)]
    using pairSum_move [OF sym assms(3,4), of c]
    unfolding moveGain_pairs [OF assms(1,2,3)] by simp
qed


lemma weightOn_remove:
  assumes "finite D" "j \<in> D"
  shows "weightOn nw D cs c = (if cs ! j = c then nodeWeights nw ! j else 0) + weightOn nw (D - {j}) cs c"
  unfolding weightOn_def by (rule sum.remove [OF assms])

lemma count_remove:
  assumes "finite D" "j \<in> D"
  shows "int (card {v \<in> D. cs ! v = c}) = (if cs ! j = c then 1 else 0) + int (card {v \<in> D - {j}. cs ! v = (c::nat)})"
proof -
  have fin: "finite {v \<in> D - {j}. cs ! v = c}" using assms(1) by simp
  have nin: "j \<notin> {v \<in> D - {j}. cs ! v = c}" by simp
  show ?thesis
  proof (cases "cs ! j = c")
    case True
    then have "{v \<in> D. cs ! v = c} = insert j {v \<in> D - {j}. cs ! v = c}" using assms(2) by auto
    then show ?thesis using True card_insert_disjoint [OF fin nin] by simp
  next
    case False
    then have "{v \<in> D. cs ! v = c} = {v \<in> D - {j}. cs ! v = c}" by auto
    then show ?thesis using False by simp
  qed
qed

lemma count_zero_iff:
  assumes "finite D"
  shows "card {v \<in> D. cs ! v = c} = 0 \<longleftrightarrow> c \<notin> (\<lambda>v. cs ! v) ` D"
  using assms by auto

lemma stack_card:
  assumes "distinct (take k xs)" "k \<le> length xs"
  shows "card (set (take k xs)) = k"
  using assms by (simp add: distinct_card)

lemma image_remove_bounds:
  assumes "2 \<le> n" "j < n" "\<forall>v < n. cs ! v < (n::nat)"
  shows "card ({0..<n} - (\<lambda>v. cs ! v) ` ({0..<n} - {j})) \<le> n - 1"
    and "1 \<le> card ({0..<n} - (\<lambda>v. cs ! v) ` ({0..<n} - {j}))"
proof -
  let ?D = "{0..<n} - {j}" and ?f = "\<lambda>v. cs ! v"
  have sub: "?f ` ?D \<subseteq> {0..<n}" using assms(3) by auto
  have cD: "card ?D = n - 1" using assms(2) by simp
  have "card (?f ` ?D) \<le> n - 1" using card_image_le [of ?D ?f] cD by simp
  moreover have "card ({0..<n} - ?f ` ?D) = n - card (?f ` ?D)"
    using card_Diff_subset [of "?f ` ?D" "{0..<n}"] sub by (simp add: finite_subset)
  ultimately show "1 \<le> card ({0..<n} - ?f ` ?D)" using assms(1) by simp
  obtain v0 where v0: "v0 \<in> ?D" using assms(1,2) by (cases "j = 0") (auto intro: that [of 1] that [of 0])
  then have "?f v0 \<in> ?f ` ?D" by blast
  then have "1 \<le> card (?f ` ?D)" by (metis One_nat_def Suc_leI card_gt_0_iff empty_iff finite_Diff finite_atLeastLessThan finite_imageI)
  then show "card ({0..<n} - ?f ` ?D) \<le> n - 1"
    using \<open>card ({0..<n} - ?f ` ?D) = n - card (?f ` ?D)\<close> by simp
qed

lemma removeNode_fields [simp]:
  "mClusters (removeNode nw j st) = mClusters st"
  "mNClusters (removeNode nw j st) = mNClusters st"
  "edgeWeightPerCluster (removeNode nw j st) = edgeWeightPerCluster st"
  "neighboringClusters (removeNode nw j st) = neighboringClusters st"
  "nUnstableNodes (removeNode nw j st) = nUnstableNodes st"
  "pos (removeNode nw j st) = pos st"
  "update (removeNode nw j st) = update st"
  "movingState.more (removeNode nw j st) = movingState.more st"
  by (simp_all add: removeNode_def Let_def)

lemma removeNode_stats:
  assumes inv: "statsInv nw {0..<nNodes nw} cs st"
    and cs: "mClusters st = cs" "\<forall>v < nNodes nw. cs ! v < nNodes nw"
    and n: "2 \<le> nNodes nw" and j: "j < nNodes nw"
  shows "statsInv nw ({0..<nNodes nw} - {j}) cs (removeNode nw j st)"
    and "1 \<le> nUnusedClusters (removeNode nw j st)"
    and "cs ! j \<notin> (\<lambda>v. cs ! v) ` ({0..<nNodes nw} - {j}) \<longrightarrow>
           unusedClusters (removeNode nw j st) ! (nUnusedClusters (removeNode nw j st) - 1) = cs ! j"
proof -
  let ?n = "nNodes nw" and ?D = "{0..<nNodes nw}" and ?D' = "{0..<nNodes nw} - {j}"
  let ?f = "\<lambda>v. cs ! v"
  let ?cur = "cs ! j"
  let ?st' = "removeNode nw j st"
  let ?U = "unusedClusters st" and ?k = "nUnusedClusters st"
  have jin: "j \<in> ?D" using j by simp
  have cur: "?cur < ?n" using cs(2) j by simp
  from inv have lw: "length (clusterWeights st) = ?n"
    and w: "\<And>c. c < ?n \<Longrightarrow> clusterWeights st ! c = weightOn nw ?D cs c"
    and lc: "length (nNodesPerCluster st) = ?n"
    and c: "\<And>c. c < ?n \<Longrightarrow> nNodesPerCluster st ! c = int (card {v \<in> ?D. cs ! v = c})"
    and lu: "length ?U = ?n - 1" and k: "?k \<le> ?n - 1"
    and dist: "distinct (take ?k ?U)" and set: "set (take ?k ?U) = ?D - ?f ` ?D"
    unfolding statsInv_def by auto
  define cnt where "cnt = int (card {v \<in> ?D'. cs ! v = ?cur})"
  have cnt: "nNodesPerCluster st ! ?cur - 1 = cnt"
    using c [OF cur] count_remove [of ?D j cs ?cur] jin by (simp add: cnt_def)
  have cnt0: "cnt = 0 \<longleftrightarrow> ?cur \<notin> ?f ` ?D'"
    unfolding cnt_def using count_zero_iff [of ?D' cs ?cur] by simp
  have E: "?D - ?f ` ?D' = (?D - ?f ` ?D) \<union> (if cnt = 0 then {?cur} else {})"
    using cnt0 cur jin by auto
  have curnot: "?cur \<notin> set (take ?k ?U)" unfolding set using jin by blast
  have cardE: "card (?D - ?f ` ?D') \<le> ?n - 1" "1 \<le> card (?D - ?f ` ?D')"
    using image_remove_bounds [OF n j cs(2)] by auto
  have cardk: "card (set (take ?k ?U)) = ?k"
    using stack_card [OF dist] k lu by simp
  have w': "clusterWeights ?st' = (clusterWeights st)[?cur := clusterWeights st ! ?cur - nodeWeights nw ! j]"
    and c': "nNodesPerCluster ?st' = (nNodesPerCluster st)[?cur := cnt]"
    by (simp_all add: removeNode_def Let_def cs(1) cnt)
  have W: "\<forall>c < ?n. clusterWeights ?st' ! c = weightOn nw ?D' cs c"
  proof (intro allI impI)
    fix c assume "c < ?n"
    then show "clusterWeights ?st' ! c = weightOn nw ?D' cs c"
      unfolding w' using w [of c] lw cur weightOn_remove [of ?D j nw cs c] jin
      by (cases "c = ?cur") auto
  qed
  have C: "\<forall>c < ?n. nNodesPerCluster ?st' ! c = int (card {v \<in> ?D'. cs ! v = c})"
  proof (intro allI impI)
    fix c assume "c < ?n"
    then show "nNodesPerCluster ?st' ! c = int (card {v \<in> ?D'. cs ! v = c})"
      unfolding c' using c [of c] lc cur count_remove [of ?D j cs c] jin
      by (cases "c = ?cur") (auto simp: cnt_def)
  qed
  have stack: "length (unusedClusters ?st') = ?n - 1 \<and> nUnusedClusters ?st' \<le> ?n - 1
      \<and> distinct (take (nUnusedClusters ?st') (unusedClusters ?st'))
      \<and> set (take (nUnusedClusters ?st') (unusedClusters ?st')) = ?D - ?f ` ?D'
      \<and> (cnt = 0 \<longrightarrow> unusedClusters ?st' ! (nUnusedClusters ?st' - 1) = ?cur)"
  proof (cases "cnt = 0")
    case True
    have u': "unusedClusters ?st' = ?U[?k := ?cur]" "nUnusedClusters ?st' = ?k + 1"
      using True lc cur by (simp_all add: removeNode_def Let_def cs(1) cnt)
    have "card (?D - ?f ` ?D') = ?k + 1"
      unfolding E using True curnot cardk set [symmetric] by simp
    then have klt: "?k < ?n - 1" using cardE(1) by simp
    then have tk: "take (?k + 1) (?U[?k := ?cur]) = take ?k ?U @ [?cur]"
      using lu by (simp add: take_Suc_conv_app_nth)
    show ?thesis
      unfolding u' tk using klt lu dist curnot set E True by auto
  next
    case False
    have u': "unusedClusters ?st' = ?U" "nUnusedClusters ?st' = ?k"
      using False lc cur by (simp_all add: removeNode_def Let_def cs(1) cnt)
    show ?thesis unfolding u' using False lu k dist set E by simp
  qed
  show "statsInv nw ?D' cs ?st'"
    unfolding statsInv_def using W C stack lw lc by (simp add: w' c')
  have "card (set (take (nUnusedClusters ?st') (unusedClusters ?st'))) = nUnusedClusters ?st'"
    by (rule stack_card) (use stack in simp_all)
  moreover have "set (take (nUnusedClusters ?st') (unusedClusters ?st')) = ?D - ?f ` ?D'"
    using stack by blast
  ultimately show "1 \<le> nUnusedClusters ?st'" using cardE(2) by simp
  show "?cur \<notin> ?f ` ?D' \<longrightarrow> unusedClusters ?st' ! (nUnusedClusters ?st' - 1) = ?cur"
    using stack cnt0 by simp
qed

lemma fold_preserves:
  assumes "\<And>x s. g (f x s) = g s"
  shows "g (fold f xs s) = g s"
  using assms by (induction xs arbitrary: s) simp_all

lemma collectNeighbor_fields [simp]:
  "mClusters (collectNeighbor nw k st) = mClusters st"
  "mNClusters (collectNeighbor nw k st) = mNClusters st"
  "clusterWeights (collectNeighbor nw k st) = clusterWeights st"
  "nNodesPerCluster (collectNeighbor nw k st) = nNodesPerCluster st"
  "unusedClusters (collectNeighbor nw k st) = unusedClusters st"
  "nUnusedClusters (collectNeighbor nw k st) = nUnusedClusters st"
  "nUnstableNodes (collectNeighbor nw k st) = nUnstableNodes st"
  "pos (collectNeighbor nw k st) = pos st"
  "update (collectNeighbor nw k st) = update st"
  "movingState.more (collectNeighbor nw k st) = movingState.more st"
  by (simp_all add: collectNeighbor_def Let_def)

lemma identifyNeighboringClusters_fields [simp]:
  "mClusters (identifyNeighboringClusters nw j st) = mClusters st"
  "mNClusters (identifyNeighboringClusters nw j st) = mNClusters st"
  "clusterWeights (identifyNeighboringClusters nw j st) = clusterWeights st"
  "nNodesPerCluster (identifyNeighboringClusters nw j st) = nNodesPerCluster st"
  "unusedClusters (identifyNeighboringClusters nw j st) = unusedClusters st"
  "nUnusedClusters (identifyNeighboringClusters nw j st) = nUnusedClusters st"
  "nUnstableNodes (identifyNeighboringClusters nw j st) = nUnstableNodes st"
  "pos (identifyNeighboringClusters nw j st) = pos st"
  "update (identifyNeighboringClusters nw j st) = update st"
  "movingState.more (identifyNeighboringClusters nw j st) = movingState.more st"
  unfolding identifyNeighboringClusters_def
  by (simp_all add: fold_preserves [where f = "collectNeighbor nw"])

lemma collected_step:
  assumes c: "collected nw cs tc a p st" and cs: "mClusters st = cs"
    and l: "cs ! (neighbors nw ! (a + p)) < nNodes nw" and p: "1 + p < nNodes nw"
  shows "collected nw cs tc a (Suc p) (collectNeighbor nw (a + p) st)"
proof -
  let ?n = "nNodes nw" and ?l = "cs ! (neighbors nw ! (a + p))"
  let ?N = "neighboringClusters st" and ?k = "nNeighboringClusters st"
  let ?E = "edgeWeightPerCluster st"
  let ?st' = "collectNeighbor nw (a + p) st"
  from c have lN: "length ?N = ?n" and k1: "1 \<le> ?k" and kp: "?k \<le> 1 + p" and tc: "?N ! 0 = tc"
    and sub: "set (take ?k ?N) \<subseteq> insert tc ((\<lambda>k. cs ! (neighbors nw ! k)) ` {a..<a + p})"
    and lE: "length ?E = ?n"
    and E: "\<And>l. l < ?n \<Longrightarrow> ?E ! l = (\<Sum>k = a..<a + p. if cs ! (neighbors nw ! k) = l then edgeWeights nw ! k else 0)"
    and cov: "\<And>l. l < ?n \<Longrightarrow> ?E ! l \<noteq> 0 \<Longrightarrow> l \<in> set (take ?k ?N)"
    unfolding collected_def by auto
  have E': "edgeWeightPerCluster ?st' = ?E[?l := ?E ! ?l + edgeWeights nw ! (a + p)]"
    by (simp add: collectNeighbor_def Let_def cs)
  have img: "(\<lambda>k. cs ! (neighbors nw ! k)) ` {a..<a + Suc p}
      = insert ?l ((\<lambda>k. cs ! (neighbors nw ! k)) ` {a..<a + p})"
    by (auto simp: less_Suc_eq)
  have sumE: "\<forall>l < ?n. edgeWeightPerCluster ?st' ! l
          = (\<Sum>k = a..<a + Suc p. if cs ! (neighbors nw ! k) = l then edgeWeights nw ! k else 0)"
  proof (intro allI impI)
    fix l' assume "l' < ?n"
    then show "edgeWeightPerCluster ?st' ! l'
          = (\<Sum>k = a..<a + Suc p. if cs ! (neighbors nw ! k) = l' then edgeWeights nw ! k else 0)"
      unfolding E' using E [of l'] lE l by (cases "l' = ?l") auto
  qed
  show ?thesis
  proof (cases "?E ! ?l = 0")
    case True
    have N': "neighboringClusters ?st' = ?N[?k := ?l]" "nNeighboringClusters ?st' = ?k + 1"
      using True by (simp_all add: collectNeighbor_def Let_def cs)
    have klt: "?k < length ?N" using kp p lN by simp
    have tk: "take (?k + 1) (?N[?k := ?l]) = take ?k ?N @ [?l]"
      using klt by (simp add: take_Suc_conv_app_nth)
    have cov': "\<forall>l' < ?n. edgeWeightPerCluster ?st' ! l' \<noteq> 0 \<longrightarrow> l' \<in> set (take ?k ?N @ [?l])"
    proof (intro allI impI)
      fix l' assume "l' < ?n" "edgeWeightPerCluster ?st' ! l' \<noteq> 0"
      then show "l' \<in> set (take ?k ?N @ [?l])"
        unfolding E' using cov [of l'] by (cases "l' = ?l") auto
    qed
    show ?thesis
      unfolding collected_def N' tk img
      using lN k1 kp tc sub lE sumE cov' E' by auto
  next
    case False
    have N': "neighboringClusters ?st' = ?N" "nNeighboringClusters ?st' = ?k"
      using False by (simp_all add: collectNeighbor_def Let_def cs)
    have cov': "\<forall>l' < ?n. edgeWeightPerCluster ?st' ! l' \<noteq> 0 \<longrightarrow> l' \<in> set (take ?k ?N)"
    proof (intro allI impI)
      fix l' assume "l' < ?n" "edgeWeightPerCluster ?st' ! l' \<noteq> 0"
      then show "l' \<in> set (take ?k ?N)"
        unfolding E' using cov [of l'] cov [OF l False] by (cases "l' = ?l") auto
    qed
    show ?thesis
      unfolding collected_def N' img
      using lN k1 kp tc sub lE sumE cov' E' by auto
  qed
qed

lemma collected_loop:
  assumes "collected nw cs tc a 0 st0" "mClusters st0 = cs"
    and "\<forall>k \<in> {a..<a + d}. cs ! (neighbors nw ! k) < nNodes nw" "1 + d \<le> nNodes nw"
    and "p \<le> d"
  shows "collected nw cs tc a p (fold (collectNeighbor nw) [a..<a + p] st0)"
  using assms(5)
proof (induction p)
  case 0
  then show ?case using assms(1) by simp
next
  case (Suc p)
  let ?st = "fold (collectNeighbor nw) [a..<a + p] st0"
  have c: "collected nw cs tc a p ?st" using Suc by simp
  have m: "mClusters ?st = cs"
    using assms(2) by (simp add: fold_preserves [where f = "collectNeighbor nw"])
  have l: "cs ! (neighbors nw ! (a + p)) < nNodes nw" using assms(3) Suc.prems by simp
  have p: "1 + p < nNodes nw" using assms(4) Suc.prems by simp
  show ?case using collected_step [OF c m l p] by simp
qed

lemma identifyNeighboringClusters_collected:
  assumes "integrity nw" "noSelfLoops nw" "j < nNodes nw"
    and cs: "mClusters st = cs" "\<forall>v < nNodes nw. cs ! v < nNodes nw"
    and init: "edgeWeightPerCluster st = replicate (nNodes nw) 0"
      "length (neighboringClusters st) = nNodes nw"
  shows "collected nw cs (unusedClusters st ! (nUnusedClusters st - 1))
           (firstNeighborIndices nw ! j)
           (firstNeighborIndices nw ! (j + 1) - firstNeighborIndices nw ! j)
           (identifyNeighboringClusters nw j st)"
proof -
  let ?a = "firstNeighborIndices nw ! j" and ?b = "firstNeighborIndices nw ! (j + 1)"
  let ?tc = "unusedClusters st ! (nUnusedClusters st - 1)"
  let ?st0 = "st\<lparr>neighboringClusters := (neighboringClusters st)[0 := ?tc], nNeighboringClusters := 1\<rparr>"
  have ab: "?a \<le> ?b" using integrity_offsets [OF assms(1)] assms(3) by simp
  then have b: "?b = ?a + (?b - ?a)" by simp
  have d: "1 + (?b - ?a) \<le> nNodes nw" using degree_bound [OF assms(1,2,3)] assms(3) by simp
  have "take (Suc 0) ((neighboringClusters st)[0 := ?tc]) = [?tc]"
    using init(2) assms(3) by (cases "neighboringClusters st") simp_all
  then have c0: "collected nw cs ?tc ?a 0 ?st0"
    unfolding collected_def using init assms(3) by simp
  have m0: "mClusters ?st0 = cs" using cs(1) by simp
  have nb: "\<forall>k \<in> {?a..<?a + (?b - ?a)}. cs ! (neighbors nw ! k) < nNodes nw"
    using integrity_neighbor_less [OF assms(1,3)] cs(2) ab by simp
  have "collected nw cs ?tc ?a (?b - ?a) (fold (collectNeighbor nw) [?a..<?a + (?b - ?a)] ?st0)"
    by (rule collected_loop [OF c0 m0 nb d order_refl])
  then show ?thesis unfolding identifyNeighboringClusters_def using ab by simp
qed

lemma considerCluster_fields [simp]:
  "mClusters (considerCluster r nw j k st) = mClusters st"
  "mNClusters (considerCluster r nw j k st) = mNClusters st"
  "clusterWeights (considerCluster r nw j k st) = clusterWeights st"
  "nNodesPerCluster (considerCluster r nw j k st) = nNodesPerCluster st"
  "unusedClusters (considerCluster r nw j k st) = unusedClusters st"
  "nUnusedClusters (considerCluster r nw j k st) = nUnusedClusters st"
  "neighboringClusters (considerCluster r nw j k st) = neighboringClusters st"
  "nNeighboringClusters (considerCluster r nw j k st) = nNeighboringClusters st"
  "nUnstableNodes (considerCluster r nw j k st) = nUnstableNodes st"
  "pos (considerCluster r nw j k st) = pos st"
  "update (considerCluster r nw j k st) = update st"
  "movingState.more (considerCluster r nw j k st) = movingState.more st"
  by (simp_all add: considerCluster_def Let_def)

lemma findBestCluster_fields [simp]:
  "mClusters (findBestCluster r nw j st) = mClusters st"
  "mNClusters (findBestCluster r nw j st) = mNClusters st"
  "clusterWeights (findBestCluster r nw j st) = clusterWeights st"
  "nNodesPerCluster (findBestCluster r nw j st) = nNodesPerCluster st"
  "unusedClusters (findBestCluster r nw j st) = unusedClusters st"
  "nUnusedClusters (findBestCluster r nw j st) = nUnusedClusters st"
  "neighboringClusters (findBestCluster r nw j st) = neighboringClusters st"
  "nUnstableNodes (findBestCluster r nw j st) = nUnstableNodes st"
  "pos (findBestCluster r nw j st) = pos st"
  "update (findBestCluster r nw j st) = update st"
  "movingState.more (findBestCluster r nw j st) = movingState.more st"
  unfolding findBestCluster_def Let_def
  by (simp_all add: fold_preserves [where f = "considerCluster r nw j"])

lemma considered_step:
  assumes c: "considered r nw cs j N t st"
    and N: "neighboringClusters st = N" "t < length N" "N ! t < nNodes nw"
    and w: "clusterWeights st ! (N ! t) = weightOn nw ({0..<nNodes nw} - {j}) cs (N ! t)"
  shows "considered r nw cs j N (Suc t) (considerCluster r nw j t st)"
proof -
  let ?n = "nNodes nw" and ?l = "N ! t" and ?E = "edgeWeightPerCluster st"
  let ?g = "moveGain r nw cs j"
  let ?st' = "considerCluster r nw j t st"
  let ?q = "?E ! ?l - nodeWeights nw ! j * clusterWeights st ! ?l * r"
  from c have lE: "length ?E = ?n"
    and E: "\<And>l. l < ?n \<Longrightarrow> ?E ! l = (if l \<in> set (take t N) then 0 else edgesToCluster nw cs j l)"
    and b: "bestCluster st \<in> insert (cs ! j) (set (take t N))"
    and m: "(\<forall>l. 0 \<le> edgesToCluster nw cs j l) \<Longrightarrow>
       bestCluster st = cs ! j \<and> maxQualityValueIncrement st = ?g (cs ! j)
       \<or> ?g (cs ! j) < maxQualityValueIncrement st \<and> maxQualityValueIncrement st \<le> ?g (bestCluster st)"
    unfolding considered_def by auto
  have tk: "take (Suc t) N = take t N @ [?l]" using N(2) by (simp add: take_Suc_conv_app_nth)
  have q: "?q \<le> ?g ?l" if e: "\<forall>l. 0 \<le> edgesToCluster nw cs j l"
  proof -
    have "?E ! ?l \<le> edgesToCluster nw cs j ?l" using E [OF N(3)] e by simp
    then show ?thesis unfolding moveGain_def w by simp
  qed
  have E': "edgeWeightPerCluster ?st' = ?E[?l := 0]"
    by (simp add: considerCluster_def Let_def N(1))
  have EE: "\<forall>l < ?n. edgeWeightPerCluster ?st' ! l
          = (if l \<in> set (take (Suc t) N) then 0 else edgesToCluster nw cs j l)"
  proof (intro allI impI)
    fix l assume "l < ?n"
    then show "edgeWeightPerCluster ?st' ! l
          = (if l \<in> set (take (Suc t) N) then 0 else edgesToCluster nw cs j l)"
      unfolding E' tk using E [of l] lE N(3) by (cases "l = ?l") auto
  qed
  have lE': "length (edgeWeightPerCluster ?st') = ?n" unfolding E' using lE by simp
  have mem: "?l \<in> set (take (Suc t) N)" unfolding tk by simp
  have sub: "set (take t N) \<subseteq> set (take (Suc t) N)" unfolding tk by auto
  show ?thesis
  proof (cases "?q > maxQualityValueIncrement st")
    case True
    have bm: "bestCluster ?st' = ?l" "maxQualityValueIncrement ?st' = ?q"
      using True by (simp_all add: considerCluster_def Let_def N(1))
    have "?g (cs ! j) < ?q \<and> ?q \<le> ?g ?l" if "\<forall>l. 0 \<le> edgesToCluster nw cs j l"
      using m [OF that] q [OF that] True by auto
    then show ?thesis
      unfolding considered_def bm using EE lE' mem by blast
  next
    case False
    have bm: "bestCluster ?st' = bestCluster st" "maxQualityValueIncrement ?st' = maxQualityValueIncrement st"
      using False by (simp_all add: considerCluster_def Let_def N(1))
    have "bestCluster st \<in> insert (cs ! j) (set (take (Suc t) N))" using b sub by auto
    then show ?thesis
      unfolding considered_def bm using EE lE' m by blast
  qed
qed

lemma considered_loop:
  assumes "considered r nw cs j N 0 st0" "neighboringClusters st0 = N"
    and "clusterWeights st0 = W"
    and "k \<le> length N" "\<forall>t < k. N ! t < nNodes nw"
    and "\<forall>l < nNodes nw. W ! l = weightOn nw ({0..<nNodes nw} - {j}) cs l"
    and "t \<le> k"
  shows "considered r nw cs j N t (fold (considerCluster r nw j) [0..<t] st0)"
  using assms(7)
proof (induction t)
  case 0
  then show ?case using assms(1) by simp
next
  case (Suc t)
  let ?st = "fold (considerCluster r nw j) [0..<t] st0"
  have c: "considered r nw cs j N t ?st" using Suc by simp
  have N: "neighboringClusters ?st = N"
    using assms(2) by (simp add: fold_preserves [where f = "considerCluster r nw j"])
  have W: "clusterWeights ?st = W"
    using assms(3) by (simp add: fold_preserves [where f = "considerCluster r nw j"])
  have t: "t < length N" "N ! t < nNodes nw" using Suc.prems assms(4,5) by auto
  have w: "clusterWeights ?st ! (N ! t) = weightOn nw ({0..<nNodes nw} - {j}) cs (N ! t)"
    unfolding W using assms(6) t(2) by simp
  show ?case using considered_step [OF c N t w] by simp
qed

lemma edgesToCluster_nonneg:
  assumes "integrity nw" "nonNegativeEdgeWeights nw" "j < nNodes nw"
  shows "0 \<le> edgesToCluster nw cs j c"
proof -
  have "firstNeighborIndices nw ! (j + 1) \<le> nEdges nw"
    using integrity_slice_le_nEdges [OF assms(1,3)] .
  then have "\<forall>k \<in> {firstNeighborIndices nw ! j..<firstNeighborIndices nw ! (j + 1)}. 0 \<le> edgeWeights nw ! k"
    using assms(2) unfolding nonNegativeEdgeWeights_def by auto
  then show ?thesis unfolding edgesToCluster_def by (intro sum_nonneg) auto
qed

lemma findBestCluster_result:
  assumes col: "collected nw cs tc a d st" and cs: "mClusters st = cs" "cs ! j < nNodes nw"
    and ad: "a = firstNeighborIndices nw ! j" "a + d = firstNeighborIndices nw ! (j + 1)"
    and tc: "tc < nNodes nw"
    and nb: "\<forall>k \<in> {a..<a + d}. cs ! (neighbors nw ! k) < nNodes nw"
    and d: "1 + d \<le> nNodes nw"
    and w: "\<forall>l < nNodes nw. clusterWeights st ! l = weightOn nw ({0..<nNodes nw} - {j}) cs l"
  shows "edgeWeightPerCluster (findBestCluster r nw j st) = replicate (nNodes nw) 0"
    and "bestCluster (findBestCluster r nw j st)
           \<in> insert (cs ! j) (insert tc ((\<lambda>k. cs ! (neighbors nw ! k)) ` {a..<a + d}))"
    and "(\<forall>l. 0 \<le> edgesToCluster nw cs j l) \<longrightarrow>
         bestCluster (findBestCluster r nw j st) = cs ! j
         \<or> moveGain r nw cs j (cs ! j) < moveGain r nw cs j (bestCluster (findBestCluster r nw j st))"
proof -
  let ?n = "nNodes nw" and ?N = "neighboringClusters st" and ?k = "nNeighboringClusters st"
  let ?E = "edgeWeightPerCluster st"
  let ?cur = "cs ! j"
  let ?st0 = "st\<lparr>bestCluster := ?cur,
      maxQualityValueIncrement := ?E ! ?cur - nodeWeights nw ! j * clusterWeights st ! ?cur * r\<rparr>"
  let ?st' = "findBestCluster r nw j st"
  from col have lN: "length ?N = ?n" and kp: "?k \<le> 1 + d"
    and sub: "set (take ?k ?N) \<subseteq> insert tc ((\<lambda>k. cs ! (neighbors nw ! k)) ` {a..<a + d})"
    and lE: "length ?E = ?n"
    and E: "\<And>l. l < ?n \<Longrightarrow> ?E ! l = (\<Sum>k = a..<a + d. if cs ! (neighbors nw ! k) = l then edgeWeights nw ! k else 0)"
    and cov: "\<And>l. l < ?n \<Longrightarrow> ?E ! l \<noteq> 0 \<Longrightarrow> l \<in> set (take ?k ?N)"
    unfolding collected_def by auto
  have E2: "?E ! l = edgesToCluster nw cs j l" if "l < ?n" for l
    using E [OF that] unfolding edgesToCluster_def ad [symmetric] .
  have kl: "?k \<le> length ?N" using kp d lN by simp
  have Nlt: "\<forall>t < ?k. ?N ! t < ?n"
  proof (intro allI impI)
    fix t assume t: "t < ?k"
    then have "?N ! t \<in> set (take ?k ?N)"
      using kl by (metis in_set_conv_nth length_take min.absorb2 nth_take)
    then show "?N ! t < ?n" using sub tc nb by auto
  qed
  have c0: "considered r nw cs j ?N 0 ?st0"
    unfolding considered_def moveGain_def using lE E2 w cs(2) by simp
  have st': "?st' = fold (considerCluster r nw j) [0..<?k] ?st0"
    by (simp add: findBestCluster_def Let_def cs(1))
  have c: "considered r nw cs j ?N ?k ?st'"
    unfolding st'
    by (rule considered_loop [OF c0 _ _ kl Nlt w order_refl]) simp_all
  then have lE': "length (edgeWeightPerCluster ?st') = ?n"
    and E': "\<And>l. l < ?n \<Longrightarrow> edgeWeightPerCluster ?st' ! l
          = (if l \<in> set (take ?k ?N) then 0 else edgesToCluster nw cs j l)"
    and b: "bestCluster ?st' \<in> insert ?cur (set (take ?k ?N))"
    and m: "(\<forall>l. 0 \<le> edgesToCluster nw cs j l) \<Longrightarrow>
       bestCluster ?st' = ?cur \<and> maxQualityValueIncrement ?st' = moveGain r nw cs j ?cur
       \<or> moveGain r nw cs j ?cur < maxQualityValueIncrement ?st'
         \<and> maxQualityValueIncrement ?st' \<le> moveGain r nw cs j (bestCluster ?st')"
    unfolding considered_def by auto
  show "edgeWeightPerCluster ?st' = replicate ?n 0"
  proof (rule nth_equalityI)
    show "length (edgeWeightPerCluster ?st') = length (replicate ?n (0::real))" using lE' by simp
  next
    fix l assume "l < length (edgeWeightPerCluster ?st')"
    then have l: "l < ?n" using lE' by simp
    have "edgeWeightPerCluster ?st' ! l = 0"
      using E' [OF l] cov [OF l] E2 [OF l] by auto
    then show "edgeWeightPerCluster ?st' ! l = replicate ?n 0 ! l" using l by simp
  qed
  show "bestCluster ?st' \<in> insert ?cur (insert tc ((\<lambda>k. cs ! (neighbors nw ! k)) ` {a..<a + d}))"
    using b sub by auto
  show "(\<forall>l. 0 \<le> edgesToCluster nw cs j l) \<longrightarrow>
        bestCluster ?st' = ?cur \<or> moveGain r nw cs j ?cur < moveGain r nw cs j (bestCluster ?st')"
    using m by auto
qed

lemma addNode_fields [simp]:
  "mClusters (addNode nw j st) = mClusters st"
  "mNClusters (addNode nw j st) = mNClusters st"
  "edgeWeightPerCluster (addNode nw j st) = edgeWeightPerCluster st"
  "neighboringClusters (addNode nw j st) = neighboringClusters st"
  "bestCluster (addNode nw j st) = bestCluster st"
  "nUnstableNodes (addNode nw j st) = nUnstableNodes st"
  "pos (addNode nw j st) = pos st"
  "update (addNode nw j st) = update st"
  "movingState.more (addNode nw j st) = movingState.more st"
  by (simp_all add: addNode_def Let_def)

lemma weightOn_cong:
  assumes "\<forall>v \<in> D. cs' ! v = cs ! v"
  shows "weightOn nw D cs' c = weightOn nw D cs c"
  unfolding weightOn_def using assms by (intro sum.cong refl) simp

lemma count_cong:
  assumes "\<forall>v \<in> D. cs' ! v = cs ! v"
  shows "{v \<in> D. cs' ! v = c} = {v \<in> D. cs ! v = c}"
  using assms by auto

lemma addNode_stats:
  assumes inv: "statsInv nw ({0..<nNodes nw} - {j}) cs st"
    and b: "bestCluster st = b" "b < nNodes nw" and j: "j < nNodes nw" "j < length cs"
    and k1: "1 \<le> nUnusedClusters st"
    and tc: "b \<notin> (\<lambda>v. cs ! v) ` ({0..<nNodes nw} - {j})
             \<longrightarrow> unusedClusters st ! (nUnusedClusters st - 1) = b"
  shows "statsInv nw {0..<nNodes nw} (cs[j := b]) (addNode nw j st)"
proof -
  let ?n = "nNodes nw" and ?D = "{0..<nNodes nw}" and ?D' = "{0..<nNodes nw} - {j}"
  let ?f = "\<lambda>v. cs ! v" and ?cs' = "cs[j := b]"
  let ?st' = "addNode nw j st"
  let ?U = "unusedClusters st" and ?k = "nUnusedClusters st"
  let ?tc = "?U ! (?k - 1)"
  have jin: "j \<in> ?D" using j by simp
  from inv have lw: "length (clusterWeights st) = ?n"
    and w: "\<And>c. c < ?n \<Longrightarrow> clusterWeights st ! c = weightOn nw ?D' cs c"
    and lc: "length (nNodesPerCluster st) = ?n"
    and c: "\<And>c. c < ?n \<Longrightarrow> nNodesPerCluster st ! c = int (card {v \<in> ?D'. cs ! v = c})"
    and lu: "length ?U = ?n - 1" and k: "?k \<le> ?n - 1"
    and dist: "distinct (take ?k ?U)" and set: "set (take ?k ?U) = ?D - ?f ` ?D'"
    unfolding statsInv_def by auto
  have agree: "\<forall>v \<in> ?D'. ?cs' ! v = cs ! v" by simp
  have csj: "?cs' ! j = b" using j(2) by simp
  have w': "clusterWeights ?st' = (clusterWeights st)[b := clusterWeights st ! b + nodeWeights nw ! j]"
    and c': "nNodesPerCluster ?st' = (nNodesPerCluster st)[b := nNodesPerCluster st ! b + 1]"
    and u': "unusedClusters ?st' = ?U"
    and k': "nUnusedClusters ?st' = (if b = ?tc then ?k - 1 else ?k)"
    by (simp_all add: addNode_def Let_def b(1))
  have W: "\<forall>c < ?n. clusterWeights ?st' ! c = weightOn nw ?D ?cs' c"
  proof (intro allI impI)
    fix c assume "c < ?n"
    then show "clusterWeights ?st' ! c = weightOn nw ?D ?cs' c"
      unfolding w' weightOn_remove [of ?D j nw ?cs' c, OF _ jin, simplified]
        weightOn_cong [OF agree] csj
      using w [of c] lw b(2) by (cases "c = b") auto
  qed
  have C: "\<forall>c < ?n. nNodesPerCluster ?st' ! c = int (card {v \<in> ?D. ?cs' ! v = c})"
  proof (intro allI impI)
    fix c assume "c < ?n"
    have "int (card {v \<in> ?D. ?cs' ! v = c})
        = (if ?cs' ! j = c then 1 else 0) + int (card {v \<in> ?D'. ?cs' ! v = c})"
      by (rule count_remove) (use jin in simp_all)
    also have "{v \<in> ?D'. ?cs' ! v = c} = {v \<in> ?D'. cs ! v = c}"
      by (rule count_cong [OF agree])
    finally have cr: "int (card {v \<in> ?D. ?cs' ! v = c})
        = (if b = c then 1 else 0) + int (card {v \<in> ?D'. cs ! v = c})"
      unfolding csj .
    show "nNodesPerCluster ?st' ! c = int (card {v \<in> ?D. ?cs' ! v = c})"
      unfolding c' cr using c [OF \<open>c < ?n\<close>] lc b(2) by (cases "c = b") simp_all
  qed
  have img: "(\<lambda>v. ?cs' ! v) ` ?D = insert b (?f ` ?D')"
  proof -
    have "?D = insert j ?D'" using jin by auto
    then have "(\<lambda>v. ?cs' ! v) ` ?D = insert (?cs' ! j) ((\<lambda>v. ?cs' ! v) ` ?D')"
      by (metis image_insert)
    also have "(\<lambda>v. ?cs' ! v) ` ?D' = ?f ` ?D'" by (rule image_cong) simp_all
    finally show ?thesis unfolding csj .
  qed
  have kl: "?k \<le> length ?U" using k lu by simp
  have tk: "take ?k ?U = take (?k - 1) ?U @ [?tc]"
    using k1 kl take_Suc_conv_app_nth [of "?k - 1" ?U] by simp
  have stack: "nUnusedClusters ?st' \<le> ?n - 1
      \<and> distinct (take (nUnusedClusters ?st') ?U)
      \<and> set (take (nUnusedClusters ?st') ?U) = ?D - insert b (?f ` ?D')"
  proof (cases "b = ?tc")
    case True
    have "distinct (take (?k - 1) ?U)" "?tc \<notin> set (take (?k - 1) ?U)"
      using dist unfolding tk by simp_all
    moreover have "set (take (?k - 1) ?U) \<union> {?tc} = ?D - ?f ` ?D'"
      using set unfolding tk by simp
    ultimately show ?thesis unfolding k' using True k by auto
  next
    case False
    then have "b \<in> ?f ` ?D'" using tc by blast
    then have "?D - insert b (?f ` ?D') = ?D - ?f ` ?D'" by blast
    then show ?thesis unfolding k' using False k dist set by simp
  qed
  show ?thesis
    unfolding statsInv_def img u' using W C stack lw lc lu by (simp add: w' c')
qed

lemma moveNode_fields [simp]:
  "mClusters (moveNode r nw j st) = mClusters st"
  "mNClusters (moveNode r nw j st) = mNClusters st"
  "nUnstableNodes (moveNode r nw j st) = nUnstableNodes st"
  "pos (moveNode r nw j st) = pos st"
  "update (moveNode r nw j st) = update st"
  "movingState.more (moveNode r nw j st) = movingState.more st"
  by (simp_all add: moveNode_def)

lemma moveNode_result:
  assumes nw: "integrity nw" "noSelfLoops nw"
    and n: "2 \<le> nNodes nw" and j: "j < nNodes nw"
    and inv: "movingInv nw st" and cs: "mClusters st = cs"
  shows "bestCluster (moveNode r nw j st) < nNodes nw"
    and "nonNegativeEdgeWeights nw \<longrightarrow> bestCluster (moveNode r nw j st) = cs ! j
         \<or> moveGain r nw cs j (cs ! j) < moveGain r nw cs j (bestCluster (moveNode r nw j st))"
    and "statsInv nw {0..<nNodes nw} (cs[j := bestCluster (moveNode r nw j st)]) (moveNode r nw j st)"
    and "edgeWeightPerCluster (moveNode r nw j st) = replicate (nNodes nw) 0"
    and "length (neighboringClusters (moveNode r nw j st)) = nNodes nw"
proof -
  let ?n = "nNodes nw" and ?D' = "{0..<nNodes nw} - {j}"
  let ?a = "firstNeighborIndices nw ! j" and ?b = "firstNeighborIndices nw ! (j + 1)"
  let ?s1 = "removeNode nw j st"
  let ?s2 = "identifyNeighboringClusters nw j ?s1"
  let ?s3 = "findBestCluster r nw j ?s2"
  let ?tc = "unusedClusters ?s1 ! (nUnusedClusters ?s1 - 1)"
  from inv cs have len: "length cs = ?n" and lt: "\<forall>v < ?n. cs ! v < ?n"
    and st: "statsInv nw {0..<?n} cs st"
    and E0: "edgeWeightPerCluster st = replicate ?n 0"
    and lN: "length (neighboringClusters st) = ?n"
    unfolding movingInv_def by auto
  have r1: "statsInv nw ?D' cs ?s1" and r2: "1 \<le> nUnusedClusters ?s1"
    and r3: "cs ! j \<notin> (\<lambda>v. cs ! v) ` ?D' \<longrightarrow> ?tc = cs ! j"
    using removeNode_stats [OF st cs lt n j] by auto
  from r1 have w1: "\<forall>l < ?n. clusterWeights ?s1 ! l = weightOn nw ?D' cs l"
    and lu: "length (unusedClusters ?s1) = ?n - 1" and k: "nUnusedClusters ?s1 \<le> ?n - 1"
    and set: "set (take (nUnusedClusters ?s1) (unusedClusters ?s1)) = {0..<?n} - (\<lambda>v. cs ! v) ` ?D'"
    unfolding statsInv_def by auto
  have "?tc \<in> set (take (nUnusedClusters ?s1) (unusedClusters ?s1))"
    using r2 k lu
    by (metis (no_types, lifting) One_nat_def Suc_pred diff_less in_set_conv_nth length_take less_Suc_eq_le
        less_numeral_extra(1) min.absorb2 nth_take order_less_le_trans zero_less_one)
  then have tcE: "?tc \<in> {0..<?n} - (\<lambda>v. cs ! v) ` ?D'" unfolding set .
  then have tc: "?tc < ?n" by simp
  have ab: "?a \<le> ?b" using integrity_offsets [OF nw(1)] j by simp
  then have b: "?a + (?b - ?a) = ?b" by simp
  have d: "1 + (?b - ?a) \<le> ?n" using degree_bound [OF nw(1,2) j] j by simp
  have col: "collected nw cs ?tc ?a (?b - ?a) ?s2"
    using identifyNeighboringClusters_collected [OF nw(1,2) j, of ?s1 cs] cs lt E0 lN by simp
  have nbj: "neighbors nw ! k < ?n \<and> neighbors nw ! k \<noteq> j" if "k \<in> {?a..<?a + (?b - ?a)}" for k
    using that integrity_neighbor_less [OF nw(1) j, of k] nw(2) j ab
    unfolding noSelfLoops_def by auto
  have nbl: "\<forall>k \<in> {?a..<?a + (?b - ?a)}. cs ! (neighbors nw ! k) < ?n"
    using nbj lt by blast
  have e: "\<forall>l. 0 \<le> edgesToCluster nw cs j l" if "nonNegativeEdgeWeights nw"
    using edgesToCluster_nonneg [OF nw(1) that j] by simp
  have curlt: "cs ! j < ?n" using lt j by simp
  have w2: "\<forall>l < ?n. clusterWeights ?s2 ! l = weightOn nw ?D' cs l" using w1 by simp
  have m2: "mClusters ?s2 = cs" using cs by simp
  note fb = findBestCluster_result [OF col m2 curlt refl b tc nbl d w2, of r]
  have s3: "moveNode r nw j st = addNode nw j ?s3" by (simp add: moveNode_def)
  have best: "bestCluster (moveNode r nw j st) = bestCluster ?s3" unfolding s3 by simp
  have bin: "bestCluster ?s3 \<in> insert (cs ! j) (insert ?tc ((\<lambda>k. cs ! (neighbors nw ! k)) ` {?a..<?a + (?b - ?a)}))"
    using fb(2) by simp
  show blt: "bestCluster (moveNode r nw j st) < ?n"
    unfolding best using bin curlt tc nbl by auto
  show "nonNegativeEdgeWeights nw \<longrightarrow> bestCluster (moveNode r nw j st) = cs ! j
         \<or> moveGain r nw cs j (cs ! j) < moveGain r nw cs j (bestCluster (moveNode r nw j st))"
    unfolding best using fb(3) e by blast
  have img: "(\<lambda>k. cs ! (neighbors nw ! k)) ` {?a..<?a + (?b - ?a)} \<subseteq> (\<lambda>v. cs ! v) ` ?D'"
    using nbj by auto
  have tcb: "bestCluster ?s3 \<notin> (\<lambda>v. cs ! v) ` ?D'
       \<longrightarrow> unusedClusters ?s3 ! (nUnusedClusters ?s3 - 1) = bestCluster ?s3"
    using bin r3 img by auto
  have st3: "statsInv nw ?D' cs ?s3" using r1 unfolding statsInv_def by simp
  have k3: "1 \<le> nUnusedClusters ?s3" using r2 by simp
  have jl: "j < length cs" using j len by simp
  show "statsInv nw {0..<?n} (cs[j := bestCluster (moveNode r nw j st)]) (moveNode r nw j st)"
    unfolding best unfolding s3
    by (rule addNode_stats [OF st3 refl _ j jl k3 tcb]) (use blt best in simp)
  show "edgeWeightPerCluster (moveNode r nw j st) = replicate ?n 0"
    unfolding s3 using fb(1) by simp
  show "length (neighboringClusters (moveNode r nw j st)) = ?n"
    unfolding s3 using col unfolding collected_def by simp
qed


lemma statsInv_cong:
  assumes "clusterWeights s' = clusterWeights s" "nNodesPerCluster s' = nNodesPerCluster s"
    "unusedClusters s' = unusedClusters s" "nUnusedClusters s' = nUnusedClusters s"
  shows "statsInv nw D cs s' = statsInv nw D cs s"
  unfolding statsInv_def assms ..

lemma movingInv_after:
  assumes nw: "integrity nw" "noSelfLoops nw"
    and n: "2 \<le> nNodes nw" and j: "j < nNodes nw"
    and inv: "movingInv nw st"
    and b: "b = bestCluster (moveNode r nw j st)"
    and s': "mClusters s' = (mClusters st)[j := b]"
      "mNClusters st \<le> mNClusters s'" "b < mNClusters s'"
      "clusterWeights s' = clusterWeights (moveNode r nw j st)"
      "nNodesPerCluster s' = nNodesPerCluster (moveNode r nw j st)"
      "unusedClusters s' = unusedClusters (moveNode r nw j st)"
      "nUnusedClusters s' = nUnusedClusters (moveNode r nw j st)"
      "edgeWeightPerCluster s' = edgeWeightPerCluster (moveNode r nw j st)"
      "neighboringClusters s' = neighboringClusters (moveNode r nw j st)"
  shows "movingInv nw s'"
proof -
  let ?n = "nNodes nw" and ?cs = "mClusters st"
  note mr = moveNode_result [OF nw n j inv refl, of r]
  from inv have len: "length ?cs = ?n" and lt: "\<forall>v < ?n. ?cs ! v < ?n"
    and ltN: "\<forall>v < ?n. ?cs ! v < mNClusters st"
    unfolding movingInv_def by auto
  have blt: "b < ?n" using mr(1) b by simp
  have 1: "\<forall>v < ?n. ?cs[j := b] ! v < ?n"
  proof (intro allI impI)
    fix v assume "v < ?n"
    then show "?cs[j := b] ! v < ?n" using lt blt len by (cases "v = j") simp_all
  qed
  have 2: "\<forall>v < ?n. ?cs[j := b] ! v < mNClusters s'"
  proof (intro allI impI)
    fix v assume "v < ?n"
    then have "?cs ! v < mNClusters s'" using ltN s'(2) by (meson less_le_trans)
    then show "?cs[j := b] ! v < mNClusters s'" using s'(3) len \<open>v < ?n\<close> by (cases "v = j") simp_all
  qed
  have 3: "statsInv nw {0..<?n} (?cs[j := b]) s'"
    unfolding statsInv_cong [OF s'(4,5,6,7)] b using mr(3) .
  show ?thesis
    unfolding movingInv_def s'(1) s'(8,9) using len 1 2 3 mr(4,5) by simp
qed

lemma moveNode_gain:
  assumes nw: "integrity nw" "noSelfLoops nw" and nn: "nonNegativeEdgeWeights nw"
    and n: "2 \<le> nNodes nw" and j: "j < nNodes nw"
    and inv: "movingInv nw st"
    and b: "bestCluster (moveNode r nw j st) \<noteq> mClusters st ! j"
  shows "cpmNumerator r nw (mClusters st)
       < cpmNumerator r nw ((mClusters st)[j := bestCluster (moveNode r nw j st)])"
proof -
  from inv have len: "nNodes nw \<le> length (mClusters st)" unfolding movingInv_def by simp
  have "moveGain r nw (mClusters st) j (mClusters st ! j)
      < moveGain r nw (mClusters st) j (bestCluster (moveNode r nw j st))"
    using moveNode_result(2) [OF nw n j inv refl, of r] nn b by simp
  then show ?thesis
    using cpmNumerator_move [OF nw(1,2) j len, of r "bestCluster (moveNode r nw j st)"] by simp
qed

lemma standardStep_result:
  assumes nw: "integrity nw" "noSelfLoops nw"
    and n: "2 \<le> nNodes nw"
    and inv: "movingInv nw st" and p: "pos st < nNodes nw"
    and ord: "\<forall>t < nNodes nw. order ! t < nNodes nw"
  shows "movingInv nw (standardStep r nw order st)"
    and "pos (standardStep r nw order st) < nNodes nw"
    and "nonNegativeEdgeWeights nw \<longrightarrow>
         mClusters (standardStep r nw order st) = mClusters st
         \<and> nUnstableNodes (standardStep r nw order st) = nUnstableNodes st - 1
       \<or> cpmNumerator r nw (mClusters st) < cpmNumerator r nw (mClusters (standardStep r nw order st))
         \<and> nUnstableNodes (standardStep r nw order st) = nNodes nw"
proof -
  let ?n = "nNodes nw" and ?j = "order ! pos st"
  let ?s = "moveNode r nw ?j st"
  let ?b = "bestCluster ?s"
  let ?st' = "standardStep r nw order st"
  have j: "?j < ?n" using ord p by simp
  from inv have len: "length (mClusters st) = ?n" unfolding movingInv_def by simp
  show "pos ?st' < ?n" using p n by (auto simp add: standardStep_def Let_def)
  show "movingInv nw ?st'"
  proof (cases "?b = mClusters st ! ?j")
    case True
    have id: "(mClusters st)[?j := ?b] = mClusters st" unfolding True by simp
    have cur: "mClusters st ! ?j < mNClusters st"
      using inv j unfolding movingInv_def by simp
    show ?thesis
      by (rule movingInv_after [OF nw n j inv refl, of _ r])
        (use True id cur in \<open>simp_all add: standardStep_def Let_def\<close>)
  next
    case False
    show ?thesis
      by (rule movingInv_after [OF nw n j inv refl, of _ r])
        (use False in \<open>simp_all add: standardStep_def Let_def\<close>)
  qed
  show "nonNegativeEdgeWeights nw \<longrightarrow>
        mClusters ?st' = mClusters st \<and> nUnstableNodes ?st' = nUnstableNodes st - 1
       \<or> cpmNumerator r nw (mClusters st) < cpmNumerator r nw (mClusters ?st')
         \<and> nUnstableNodes ?st' = ?n"
  proof (cases "?b = mClusters st ! ?j")
    case True
    then show ?thesis by (simp add: standardStep_def Let_def)
  next
    case False
    have "mClusters ?st' = (mClusters st)[?j := ?b]" "nUnstableNodes ?st' = ?n"
      using False by (simp_all add: standardStep_def Let_def)
    then show ?thesis using moveNode_gain [OF nw _ n j inv False] by simp
  qed
qed

lemma finite_assignments: "finite (assignments n)"
  unfolding assignments_def by (rule finite_lists_length_eq) simp

lemma potential_less:
  assumes "cs1 \<in> assignments (nNodes nw)" "cpmNumerator r nw cs0 < cpmNumerator r nw cs1"
  shows "potential r nw cs1 < potential r nw cs0"
  unfolding potential_def
proof (rule psubset_card_mono)
  show "finite {cs' \<in> assignments (nNodes nw). cpmNumerator r nw cs0 < cpmNumerator r nw cs'}"
    using finite_assignments by simp
  show "{cs' \<in> assignments (nNodes nw). cpmNumerator r nw cs1 < cpmNumerator r nw cs'}
      \<subset> {cs' \<in> assignments (nNodes nw). cpmNumerator r nw cs0 < cpmNumerator r nw cs'}"
    using assms by auto
qed

lemma movingInv_assignment:
  assumes "movingInv nw st"
  shows "mClusters st \<in> assignments (nNodes nw)"
  using assms unfolding movingInv_def assignments_def by (auto simp: in_set_conv_nth)

lemma standardLoop_total:
  assumes nw: "integrity nw" "noSelfLoops nw" and nn: "nonNegativeEdgeWeights nw"
    and n: "2 \<le> nNodes nw"
    and ord: "\<forall>t < nNodes nw. order ! t < nNodes nw"
    and inv: "movingInv nw st" and p: "pos st < nNodes nw"
  shows "\<exists>st'. standardLoop r nw order st = Some st' \<and> movingInv nw st'
           \<and> cpmNumerator r nw (mClusters st) \<le> cpmNumerator r nw (mClusters st')"
proof -
  let ?R = "inv_image (less_than <*lex*> less_than)
              (\<lambda>st :: movingState. (potential r nw (mClusters st), nUnstableNodes st))"
  have wf: "wf ?R" by (intro wf_inv_image wf_lex_prod wf_less_than)
  show ?thesis using inv p
  proof (induction st rule: wf_induct_rule [OF wf])
    case (1 st)
    let ?s = "standardStep r nw order st"
    note sr = standardStep_result [OF nw n "1.prems" ord, of r]
    note sr3 = sr(3) [rule_format, OF nn]
    show ?case
    proof (cases "nUnstableNodes ?s > 0")
      case False
      then have "standardLoop r nw order st = Some ?s"
        by (subst standardLoop.simps) (simp add: Let_def)
      moreover have "cpmNumerator r nw (mClusters st) \<le> cpmNumerator r nw (mClusters ?s)"
        using sr3 by auto
      ultimately show ?thesis using sr(1) by simp
    next
      case True
      then have eq: "standardLoop r nw order st = standardLoop r nw order ?s"
        by (subst standardLoop.simps) (simp add: Let_def)
      have "(?s, st) \<in> ?R"
        using sr3 True potential_less [OF movingInv_assignment [OF sr(1)], of r "mClusters st"]
        by auto
      from "1.IH" [OF this sr(1,2)] obtain st' where
        "standardLoop r nw order ?s = Some st'" "movingInv nw st'"
        "cpmNumerator r nw (mClusters ?s) \<le> cpmNumerator r nw (mClusters st')"
        by blast
      moreover have "cpmNumerator r nw (mClusters st) \<le> cpmNumerator r nw (mClusters ?s)"
        using sr3 by auto
      ultimately show ?thesis unfolding eq by auto
    qed
  qed
qed


lemma fold_accum_int:
  fixes a :: "int list"
  assumes "k < length a"
  shows "fold (\<lambda>i a. a[g i := a ! g i + 1]) [0..<n] a ! k
         = a ! k + int (card {i. i < n \<and> g i = k})"
proof (induction n)
  case 0 show ?case by simp
next
  case (Suc n)
  let ?F = "fold (\<lambda>i a. a[g i := a ! g i + 1]) [0..<n] a"
  have len: "length ?F = length a" by (rule fold_accum_length)
  have set_eq: "{i. i < Suc n \<and> g i = k} = (if g n = k then insert n {i. i < n \<and> g i = k} else {i. i < n \<and> g i = k})"
    by (auto simp: less_Suc_eq)
  show ?case
  proof (cases "g n = k")
    case True
    then show ?thesis using Suc assms len set_eq by simp
  next
    case False
    then show ?thesis using Suc assms len set_eq by simp
  qed
qed

lemma unused_loop:
  assumes "k0 + length (filter P xs) \<le> length u0"
  shows "snd (fold (\<lambda>i (u, k). if P i then (u[k := i], k + 1) else (u, k)) xs (u0, k0))
           = k0 + length (filter P xs)
       \<and> length (fst (fold (\<lambda>i (u, k). if P i then (u[k := i], k + 1) else (u, k)) xs (u0, k0)))
           = length u0
       \<and> take (k0 + length (filter P xs))
           (fst (fold (\<lambda>i (u, k). if P i then (u[k := i], k + 1) else (u, k)) xs (u0, k0)))
           = take k0 u0 @ filter P xs"
  using assms
proof (induction xs arbitrary: u0 k0)
  case Nil
  then show ?case by simp
next
  case (Cons x xs)
  show ?case
  proof (cases "P x")
    case True
    have k0: "k0 < length u0" using Cons.prems True by simp
    have "Suc k0 + length (filter P xs) \<le> length (u0[k0 := x])" using Cons.prems True by simp
    from Cons.IH [OF this] show ?thesis
      using True k0 by (simp add: take_Suc_conv_app_nth)
  next
    case False
    have "k0 + length (filter P xs) \<le> length u0" using Cons.prems False by simp
    from Cons.IH [OF this] show ?thesis using False by simp
  qed
qed

lemma initialMovingState_inv:
  assumes n: "1 \<le> nNodes nw" and fit: "fitsNetwork nw cl"
  shows "movingInv nw (initialMovingState nw cl)"
proof -
  let ?n = "nNodes nw" and ?cs = "clusters cl"
  let ?counts = "initialNNodesPerCluster nw cl"
  let ?P = "\<lambda>i. ?counts ! i = 0"
  let ?r = "initialUnusedClusters ?n ?counts"
  from fit have len: "length ?cs = ?n" and lt: "\<forall>v < ?n. ?cs ! v < ?n"
    and ltN: "\<forall>v < ?n. ?cs ! v < nClusters cl"
    unfolding fitsNetwork_def rangeInvariant_def by auto
  have lw: "length (initialClusterWeights nw cl) = ?n"
    unfolding initialClusterWeights_def
    using fold_accum_length [of "\<lambda>i. ?cs ! i" "\<lambda>i x. x + nodeWeights nw ! i" "[0..<?n]" "replicate ?n 0"]
    by simp
  have w: "\<forall>c < ?n. initialClusterWeights nw cl ! c = weightOn nw {0..<?n} ?cs c"
    unfolding initialClusterWeights_def weightOn_def
    using clusterWeights_fold [of _ ?n ?cs nw] by (simp add: clusterWeight_indicator)
  have lc: "length ?counts = ?n"
    unfolding initialNNodesPerCluster_def
    using fold_accum_length [of "\<lambda>i. ?cs ! i" "\<lambda>i x. x + 1" "[0..<?n]" "replicate ?n (0::int)"]
    by simp
  have c: "?counts ! c = int (card {v \<in> {0..<?n}. ?cs ! v = c})" if "c < ?n" for c
  proof -
    have "{v \<in> {0..<?n}. ?cs ! v = c} = {i. i < ?n \<and> ?cs ! i = c}" by auto
    then show ?thesis
      unfolding initialNNodesPerCluster_def
      using fold_accum_int [of c "replicate ?n 0" "\<lambda>i. ?cs ! i" ?n] that by simp
  qed
  have P: "?P c \<longleftrightarrow> c \<notin> (\<lambda>v. ?cs ! v) ` {0..<?n}" if "c < ?n" for c
    unfolding c [OF that] using count_zero_iff [of "{0..<?n}" ?cs c] by simp
  have setF: "set (filter ?P (rev [0..<?n])) = {0..<?n} - (\<lambda>v. ?cs ! v) ` {0..<?n}"
    using P by auto
  have distF: "distinct (filter ?P (rev [0..<?n]))" by simp
  have "?cs ! 0 \<in> (\<lambda>v. ?cs ! v) ` {0..<?n}" using n by auto
  moreover have "?cs ! 0 < ?n" using lt n by simp
  ultimately have "{0..<?n} - (\<lambda>v. ?cs ! v) ` {0..<?n} \<subseteq> {0..<?n} - {?cs ! 0}" by blast
  then have "card ({0..<?n} - (\<lambda>v. ?cs ! v) ` {0..<?n}) \<le> card ({0..<?n} - {?cs ! 0})"
    by (intro card_mono) simp_all
  also have "\<dots> = ?n - 1" using \<open>?cs ! 0 < ?n\<close> by simp
  finally have "length (filter ?P (rev [0..<?n])) \<le> ?n - 1"
    using distinct_card [OF distF] setF by simp
  then have le: "0 + length (filter ?P (rev [0..<?n])) \<le> length (replicate (?n - 1) (0::nat))"
    by simp
  note ul = unused_loop [OF le]
  have r: "snd ?r = length (filter ?P (rev [0..<?n]))" "length (fst ?r) = ?n - 1"
    "take (snd ?r) (fst ?r) = filter ?P (rev [0..<?n])"
    unfolding initialUnusedClusters_def using ul by simp_all
  have st: "statsInv nw {0..<?n} ?cs (initialMovingState nw cl)"
    unfolding statsInv_def initialMovingState_def Let_def
    using lw w lc c r distF setF \<open>length (filter ?P (rev [0..<?n])) \<le> ?n - 1\<close>
    by simp
  show ?thesis
    unfolding movingInv_def using st len lt ltN
    by (simp add: initialMovingState_def Let_def)
qed

lemma generateRandomPermutation_mset:
  assumes "validDraws n nextInt"
  shows "mset (generateRandomPermutation n nextInt) = mset [0..<n]"
proof -
  let ?f = "\<lambda>i permutation. let j = nextInt i; k = permutation ! i
               in permutation[i := permutation ! j, j := k]"
  have step: "mset (fold ?f [0..<m] p) = mset p \<and> length (fold ?f [0..<m] p) = length p"
    if "m \<le> n" "length p = n" for m p
    using that
  proof (induction m)
    case 0
    then show ?case by simp
  next
    case (Suc m)
    let ?q = "fold ?f [0..<m] p"
    have q: "mset ?q = mset p" "length ?q = n" using Suc by simp_all
    have j: "nextInt m < n" using assms Suc.prems unfolding validDraws_def by simp
    have m: "m < n" using Suc.prems by simp
    have "mset (?q[m := ?q ! nextInt m, nextInt m := ?q ! m]) = mset ?q"
      by (rule mset_swap) (use q j m in simp_all)
    then show ?case using q Suc.prems by (simp add: Let_def)
  qed
  have init: "fold (\<lambda>i permutation. permutation[i := i]) [0..<n] (replicate n 0) = [0..<n]"
    using fold_init_index [of "\<lambda>i. i" n 0] by (simp add: map_idI)
  show ?thesis
    unfolding generateRandomPermutation_def init using step [of n "[0..<n]"] by simp
qed

lemma generateRandomPermutation_bounds:
  assumes "validDraws n nextInt"
  shows "length (generateRandomPermutation n nextInt) = n"
    and "\<forall>t < n. generateRandomPermutation n nextInt ! t < n"
proof -
  note m = generateRandomPermutation_mset [OF assms]
  show l: "length (generateRandomPermutation n nextInt) = n"
    using mset_eq_length [OF m] by simp
  have "set (generateRandomPermutation n nextInt) = {0..<n}"
    using mset_eq_setD [OF m] by simp
  then show "\<forall>t < n. generateRandomPermutation n nextInt ! t < n"
    using l by (metis atLeastLessThan_iff nth_mem)
qed

lemma rank_inj:
  "inj_on (rank P) {a. P a}"
proof (rule inj_onI)
  fix a b assume "a \<in> {a. P a}" "b \<in> {a. P a}" "rank P a = rank P b"
  then show "a = b"
    using rank_less [of a b P] rank_less [of b a P] by (cases a b rule: linorder_cases) auto
qed

lemma cpmNumerator_removeEmptyClusters:
  assumes "rangeInvariant c" "cnNodes c = nNodes nw"
  shows "cpmNumerator r nw (clusters (removeEmptyClusters c)) = cpmNumerator r nw (clusters c)"
proof -
  from assms have len: "length (clusters c) = nNodes nw" unfolding rangeInvariant_def by simp
  have cl: "clusters (removeEmptyClusters c) = map (rank (nonEmpty c)) (clusters c)"
    unfolding removeEmptyClusters_eq [OF assms(1)] by simp
  have "set (take (nNodes nw) (clusters c)) \<subseteq> {a. nonEmpty c a}"
    using nonEmpty_set [of c] assms len by auto
  then have inj: "inj_on (rank (nonEmpty c)) (set (take (nNodes nw) (clusters c)))"
    using rank_inj [of "nonEmpty c"] by (rule inj_on_subset [rotated])
  show ?thesis
    unfolding cl
    using pairSum_relabel [OF inj] len by (simp add: cpmNumerator_pairSum)
qed

lemma clusteringOf_range:
  assumes "movingInv nw st" "cnNodes cl = nNodes nw"
  shows "rangeInvariant (clusteringOf cl st)" "cnNodes (clusteringOf cl st) = nNodes nw"
    "clusters (clusteringOf cl st) = mClusters st"
  using assms unfolding movingInv_def rangeInvariant_def clusteringOf_def by simp_all

lemma improveClusteringStandard_result:
  assumes nw: "integrity nw" "noSelfLoops nw" "nonNegativeEdgeWeights nw"
    and n: "1 \<le> nNodes nw" and fit: "fitsNetwork nw cl"
    and draws: "validDraws (nNodes nw) nextInt"
  shows "\<exists>cl' u. improveClusteringStandard r nextInt nw cl = Some (Inr (cl', u))
           \<and> rangeInvariant cl' \<and> cnNodes cl' = nNodes nw
           \<and> cpmNumerator r nw (clusters cl) \<le> cpmNumerator r nw (clusters cl')"
proof (cases "nNodes nw = 1")
  case True
  have "improveClusteringStandard r nextInt nw cl = Some (Inr (cl, False))"
    using True by (simp add: improveClusteringStandard_def)
  moreover have "rangeInvariant cl \<and> cnNodes cl = nNodes nw"
    using fit unfolding fitsNetwork_def by simp
  ultimately show ?thesis by blast
next
  case False
  then have n2: "2 \<le> nNodes nw" using n by simp
  let ?order = "generateRandomPermutation (nNodes nw) nextInt"
  let ?st0 = "initialMovingState nw cl"
  have inv0: "movingInv nw ?st0" by (rule initialMovingState_inv [OF n fit])
  have p0: "pos ?st0 < nNodes nw" using n by (simp add: initialMovingState_def Let_def)
  have cs0: "mClusters ?st0 = clusters cl" by (simp add: initialMovingState_def Let_def)
  from standardLoop_total [OF nw n2 generateRandomPermutation_bounds(2) [OF draws] inv0 p0, of r]
  obtain st where st: "standardLoop r nw ?order ?st0 = Some st" "movingInv nw st"
    "cpmNumerator r nw (clusters cl) \<le> cpmNumerator r nw (mClusters st)"
    unfolding cs0 by blast
  have cn: "cnNodes cl = nNodes nw" using fit unfolding fitsNetwork_def by simp
  note co = clusteringOf_range [OF st(2) cn]
  let ?cl' = "if update st then removeEmptyClusters (clusteringOf cl st) else clusteringOf cl st"
  have res: "improveClusteringStandard r nextInt nw cl = Some (Inr (?cl', update st))"
    using False n2 st(1) by (simp add: improveClusteringStandard_def)
  have 1: "rangeInvariant ?cl'" using co(1) rangeInvariant_removeEmptyClusters by simp
  have 2: "cnNodes ?cl' = nNodes nw"
    using co(2) by (simp add: removeEmptyClusters_eq [OF co(1)])
  have 3: "cpmNumerator r nw (clusters ?cl') = cpmNumerator r nw (mClusters st)"
    using cpmNumerator_removeEmptyClusters [OF co(1,2), of r] co(3) by simp
  show ?thesis using res 1 2 3 st(3) by simp
qed


lemma movingInv_cong:
  assumes "mClusters s' = mClusters s" "mNClusters s' = mNClusters s"
    "clusterWeights s' = clusterWeights s" "nNodesPerCluster s' = nNodesPerCluster s"
    "unusedClusters s' = unusedClusters s" "nUnusedClusters s' = nUnusedClusters s"
    "edgeWeightPerCluster s' = edgeWeightPerCluster s"
    "neighboringClusters s' = neighboringClusters s"
  shows "movingInv nw s' = movingInv nw s"
  unfolding movingInv_def statsInv_def assms ..

lemma fold_invariant:
  assumes "\<And>x s. x \<in> set xs \<Longrightarrow> Q s \<Longrightarrow> Q (f x s)" "Q s"
  shows "Q (fold f xs s)"
  using assms by (induction xs arbitrary: s) simp_all

lemma queue_fields [simp]:
  fixes st :: fastState
  shows "nodeOrder (moveNode r nw j st) = nodeOrder st"
    and "stableNodes (moveNode r nw j st) = stableNodes st"
proof -
  have 1: "nodeOrder (removeNode nw j s) = nodeOrder s" "stableNodes (removeNode nw j s) = stableNodes s"
    for s :: fastState by (simp_all add: removeNode_def Let_def)
  have 2: "nodeOrder (collectNeighbor nw k s) = nodeOrder s" "stableNodes (collectNeighbor nw k s) = stableNodes s"
    for s :: fastState and k by (simp_all add: collectNeighbor_def Let_def)
  have 3: "nodeOrder (identifyNeighboringClusters nw j s) = nodeOrder s"
    "stableNodes (identifyNeighboringClusters nw j s) = stableNodes s"
    for s :: fastState
    unfolding identifyNeighboringClusters_def
    by (simp_all add: fold_preserves [where f = "collectNeighbor nw"] 2)
  have 4: "nodeOrder (considerCluster r nw j k s) = nodeOrder s" "stableNodes (considerCluster r nw j k s) = stableNodes s"
    for s :: fastState and k by (simp_all add: considerCluster_def Let_def)
  have 5: "nodeOrder (findBestCluster r nw j s) = nodeOrder s"
    "stableNodes (findBestCluster r nw j s) = stableNodes s"
    for s :: fastState
    unfolding findBestCluster_def Let_def
    by (simp_all add: fold_preserves [where f = "considerCluster r nw j"] 4)
  have 6: "nodeOrder (addNode nw j s) = nodeOrder s" "stableNodes (addNode nw j s) = stableNodes s"
    for s :: fastState by (simp_all add: addNode_def Let_def)
  show "nodeOrder (moveNode r nw j st) = nodeOrder st" "stableNodes (moveNode r nw j st) = stableNodes st"
    by (simp_all add: moveNode_def 1 3 5 6)
qed

lemma enqueueNeighbor_fields [simp]:
  "mClusters (enqueueNeighbor nw k st) = mClusters st"
  "mNClusters (enqueueNeighbor nw k st) = mNClusters st"
  "clusterWeights (enqueueNeighbor nw k st) = clusterWeights st"
  "nNodesPerCluster (enqueueNeighbor nw k st) = nNodesPerCluster st"
  "unusedClusters (enqueueNeighbor nw k st) = unusedClusters st"
  "nUnusedClusters (enqueueNeighbor nw k st) = nUnusedClusters st"
  "edgeWeightPerCluster (enqueueNeighbor nw k st) = edgeWeightPerCluster st"
  "neighboringClusters (enqueueNeighbor nw k st) = neighboringClusters st"
  "bestCluster (enqueueNeighbor nw k st) = bestCluster st"
  "pos (enqueueNeighbor nw k st) = pos st"
  "update (enqueueNeighbor nw k st) = update st"
  by (simp_all add: enqueueNeighbor_def Let_def)

lemma enqueueNeighbor_movingInv [simp]:
  "movingInv nw (enqueueNeighbor nw k st) = movingInv nw st"
  by (rule movingInv_cong) simp_all

text \<open>The entry of \<open>nodeOrder\<close> that \<open>enqueueNeighbor\<close> writes exists: the array never grows.\<close>

lemma enqueueNeighbor_index:
  assumes "queueInv nw st" "stableNodes st ! (neighbors nw ! k)" "neighbors nw ! k < nNodes nw"
  shows "(if pos st + (nUnstableNodes st + 1) < nNodes nw
          then pos st + (nUnstableNodes st + 1)
          else pos st + (nUnstableNodes st + 1) - nNodes nw) < length (nodeOrder st)"
proof -
  let ?n = "nNodes nw" and ?U = "{v \<in> {0..<nNodes nw}. \<not> stableNodes st ! v}"
  have "?U \<subseteq> {0..<?n} - {neighbors nw ! k}" using assms(2) by auto
  then have "card ?U \<le> card ({0..<?n} - {neighbors nw ! k})" by (intro card_mono) simp_all
  also have "\<dots> = ?n - 1" using assms(3) by simp
  finally have "card ?U \<le> ?n - 1" .
  moreover have "nUnstableNodes st \<le> card ?U" using assms(1) unfolding queueInv_def by simp
  ultimately have "nUnstableNodes st + 1 \<le> ?n" using assms(3) by linarith
  moreover have "pos st < ?n" "length (nodeOrder st) = ?n"
    using assms(1) unfolding queueInv_def by simp_all
  ultimately show ?thesis by auto
qed

lemma enqueueNeighbor_queueInv:
  assumes q: "queueInv nw st" and k: "neighbors nw ! k < nNodes nw"
  shows "queueInv nw (enqueueNeighbor nw k st)"
proof (cases "stableNodes st ! (neighbors nw ! k) \<and> mClusters st ! (neighbors nw ! k) \<noteq> bestCluster st")
  case False
  have "enqueueNeighbor nw k st = st"
    unfolding enqueueNeighbor_def using False by (simp only: if_False)
  then show ?thesis using q by simp
next
  case True
  let ?n = "nNodes nw" and ?x = "neighbors nw ! k"
  let ?U = "{v \<in> {0..<nNodes nw}. \<not> stableNodes st ! v}"
  let ?st' = "enqueueNeighbor nw k st"
  from q have p: "pos st < ?n" and lo: "length (nodeOrder st) = ?n"
    and o: "\<forall>t < ?n. nodeOrder st ! t < ?n" and ls: "length (stableNodes st) = ?n"
    and c: "nUnstableNodes st \<le> card ?U"
    unfolding queueInv_def by auto
  have s': "stableNodes ?st' = (stableNodes st)[?x := False]"
    "nUnstableNodes ?st' = nUnstableNodes st + 1"
    using True by (simp_all add: enqueueNeighbor_def Let_def)
  obtain i where o': "nodeOrder ?st' = (nodeOrder st)[i := ?x]"
    using True by (simp add: enqueueNeighbor_def Let_def)
  have "{v \<in> {0..<?n}. \<not> (stableNodes st)[?x := False] ! v} = insert ?x ?U"
    using k ls by (auto simp: nth_list_update)
  moreover have "?x \<notin> ?U" using True by simp
  ultimately have card: "card {v \<in> {0..<?n}. \<not> (stableNodes st)[?x := False] ! v} = card ?U + 1"
    by simp
  have ord: "\<forall>t < ?n. (nodeOrder st)[i := ?x] ! t < ?n"
  proof (intro allI impI)
    fix t assume "t < ?n"
    then show "(nodeOrder st)[i := ?x] ! t < ?n"
      using o k lo by (cases "t = i") simp_all
  qed
  show ?thesis
    unfolding queueInv_def s' o' card using p lo ls c ord by simp
qed

lemma fastStep_result:
  assumes nw: "integrity nw" "noSelfLoops nw"
    and n: "2 \<le> nNodes nw"
    and inv: "movingInv nw st" and q: "queueInv nw st"
  shows "movingInv nw (fastStep r nw st)"
    and "queueInv nw (fastStep r nw st)"
    and "nonNegativeEdgeWeights nw \<longrightarrow>
         mClusters (fastStep r nw st) = mClusters st
         \<and> nUnstableNodes (fastStep r nw st) = nUnstableNodes st - 1
       \<or> cpmNumerator r nw (mClusters st) < cpmNumerator r nw (mClusters (fastStep r nw st))"
proof -
  let ?n = "nNodes nw" and ?j = "nodeOrder st ! pos st"
  let ?s = "moveNode r nw ?j st"
  let ?b = "bestCluster ?s"
  let ?a = "firstNeighborIndices nw ! ?j" and ?e = "firstNeighborIndices nw ! (?j + 1)"
  let ?U = "{v \<in> {0..<nNodes nw}. \<not> stableNodes st ! v}"
  let ?s2 = "?s\<lparr>stableNodes := (stableNodes ?s)[?j := True],
                nUnstableNodes := nUnstableNodes ?s - 1\<rparr>"
  let ?s3 = "?s2\<lparr>mClusters := (mClusters ?s2)[?j := ?b],
                 mNClusters := (if ?b \<ge> mNClusters ?s2 then ?b + 1 else mNClusters ?s2)\<rparr>"
  let ?s4 = "fold (enqueueNeighbor nw) [?a..<?e] ?s3"
  let ?st' = "fastStep r nw st"
  from q have p: "pos st < ?n" and lo: "length (nodeOrder st) = ?n"
    and o: "\<forall>t < ?n. nodeOrder st ! t < ?n" and ls: "length (stableNodes st) = ?n"
    and c: "nUnstableNodes st \<le> card ?U"
    unfolding queueInv_def by auto
  have j: "?j < ?n" using o p by simp
  have pos': "(if pos st < ?n - 1 then pos st + 1 else 0) < ?n" using p n by auto
  have "{v \<in> {0..<?n}. \<not> (stableNodes st)[?j := True] ! v} = ?U - {?j}"
    using j ls by (auto simp: nth_list_update)
  then have "card ?U - 1 \<le> card {v \<in> {0..<?n}. \<not> (stableNodes st)[?j := True] ! v}"
    by (simp add: card_Diff_singleton_if)
  then have c2: "nUnstableNodes st - 1 \<le> card {v \<in> {0..<?n}. \<not> (stableNodes st)[?j := True] ! v}"
    using c by simp
  have q2: "queueInv nw ?s2"
    unfolding queueInv_def using p lo o ls c2 by simp
  have nb: "\<forall>k \<in> set [?a..<?e]. neighbors nw ! k < ?n"
    using integrity_neighbor_less [OF nw(1) j] by auto
  have cur: "mClusters st ! ?j < mNClusters st"
    using inv j unfolding movingInv_def by simp
  have stT: "?st' = ?s2\<lparr>pos := (if pos st < ?n - 1 then pos st + 1 else 0)\<rparr>"
    if "?b = mClusters st ! ?j"
    using that by (simp add: fastStep_def Let_def)
  have stF: "?st' = ?s4\<lparr>update := True, pos := (if pos ?s4 < ?n - 1 then pos ?s4 + 1 else 0)\<rparr>"
    if "?b \<noteq> mClusters st ! ?j"
    using that by (simp add: fastStep_def Let_def)
  have p4: "pos ?s4 = pos st"
    by (simp add: fold_preserves [where f = "enqueueNeighbor nw" and g = pos])
  have m4: "mClusters ?s4 = (mClusters st)[?j := ?b]"
    by (simp add: fold_preserves [where f = "enqueueNeighbor nw" and g = mClusters])
  show "movingInv nw ?st'"
  proof (cases "?b = mClusters st ! ?j")
    case True
    have id: "(mClusters st)[?j := ?b] = mClusters st" unfolding True by simp
    show ?thesis
      unfolding stT [OF True]
      by (rule movingInv_after [OF nw n j inv refl, of _ r]) (use True id cur in simp_all)
  next
    case False
    have i3: "movingInv nw ?s3"
      by (rule movingInv_after [OF nw n j inv refl, of _ r]) simp_all
    have i4: "movingInv nw ?s4"
      using i3 by (simp add: fold_preserves [where f = "enqueueNeighbor nw" and g = "movingInv nw"])
    show ?thesis
      unfolding stF [OF False]
      using i4 movingInv_cong [of "?s4\<lparr>update := True, pos := (if pos ?s4 < ?n - 1 then pos ?s4 + 1 else 0)\<rparr>" ?s4 nw]
      by simp
  qed
  show "queueInv nw ?st'"
  proof (cases "?b = mClusters st ! ?j")
    case True
    show ?thesis
      unfolding stT [OF True] using q2 pos' unfolding queueInv_def by simp
  next
    case False
    have q3: "queueInv nw ?s3" using q2 unfolding queueInv_def by simp
    have q4: "queueInv nw ?s4"
      by (rule fold_invariant [where Q = "queueInv nw"])
        (use nb q3 enqueueNeighbor_queueInv in auto)
    show ?thesis
      unfolding stF [OF False] p4 using q4 pos' unfolding queueInv_def by simp
  qed
  show "nonNegativeEdgeWeights nw \<longrightarrow>
        mClusters ?st' = mClusters st \<and> nUnstableNodes ?st' = nUnstableNodes st - 1
       \<or> cpmNumerator r nw (mClusters st) < cpmNumerator r nw (mClusters ?st')"
  proof (cases "?b = mClusters st ! ?j")
    case True
    show ?thesis unfolding stT [OF True] by simp
  next
    case False
    have "mClusters ?st' = (mClusters st)[?j := ?b]" unfolding stF [OF False] using m4 by simp
    then show ?thesis using moveNode_gain [OF nw _ n j inv False] by simp
  qed
qed

lemma fastLoop_total:
  assumes nw: "integrity nw" "noSelfLoops nw" and nn: "nonNegativeEdgeWeights nw"
    and n: "2 \<le> nNodes nw"
    and inv: "movingInv nw st" and q: "queueInv nw st"
  shows "\<exists>st'. fastLoop r nw st = Some st' \<and> movingInv nw st'
           \<and> cpmNumerator r nw (mClusters st) \<le> cpmNumerator r nw (mClusters st')"
proof -
  let ?R = "inv_image (less_than <*lex*> less_than)
              (\<lambda>st :: fastState. (potential r nw (mClusters st), nUnstableNodes st))"
  have wf: "wf ?R" by (intro wf_inv_image wf_lex_prod wf_less_than)
  show ?thesis using inv q
  proof (induction st rule: wf_induct_rule [OF wf])
    case (1 st)
    let ?s = "fastStep r nw st"
    note sr = fastStep_result [OF nw n "1.prems", of r]
    note sr3 = sr(3) [rule_format, OF nn]
    have mono: "cpmNumerator r nw (mClusters st) \<le> cpmNumerator r nw (mClusters ?s)"
      using sr3 by auto
    show ?case
    proof (cases "nUnstableNodes ?s > 0")
      case False
      then have "fastLoop r nw st = Some ?s"
        by (subst fastLoop.simps) (simp add: Let_def)
      then show ?thesis using sr(1) mono by simp
    next
      case True
      then have eq: "fastLoop r nw st = fastLoop r nw ?s"
        by (subst fastLoop.simps) (simp add: Let_def)
      have "(?s, st) \<in> ?R"
        using sr3 True potential_less [OF movingInv_assignment [OF sr(1)], of r "mClusters st"]
        by auto
      from "1.IH" [OF this sr(1,2)] obtain st' where
        "fastLoop r nw ?s = Some st'" "movingInv nw st'"
        "cpmNumerator r nw (mClusters ?s) \<le> cpmNumerator r nw (mClusters st')"
        by blast
      then show ?thesis unfolding eq using mono by auto
    qed
  qed
qed

lemma initialFastState_inv:
  assumes n: "1 \<le> nNodes nw" and fit: "fitsNetwork nw cl"
    and ord: "length order = nNodes nw" "\<forall>t < nNodes nw. order ! t < nNodes nw"
  shows "movingInv nw (initialFastState nw cl order)"
    and "queueInv nw (initialFastState nw cl order)"
    and "mClusters (initialFastState nw cl order) = clusters cl"
proof -
  have "movingInv nw (initialFastState nw cl order) = movingInv nw (initialMovingState nw cl)"
    by (rule movingInv_cong) (simp_all add: initialFastState_def movingState.defs)
  then show "movingInv nw (initialFastState nw cl order)"
    using initialMovingState_inv [OF n fit] by simp
  have "{v \<in> {0..<nNodes nw}. \<not> replicate (nNodes nw) False ! v} = {0..<nNodes nw}" by auto
  then have "card {v \<in> {0..<nNodes nw}. \<not> replicate (nNodes nw) False ! v} = nNodes nw"
    by (simp only: card_atLeastLessThan diff_zero)
  then show "queueInv nw (initialFastState nw cl order)"
    unfolding queueInv_def using n ord
    by (simp add: initialFastState_def movingState.defs initialMovingState_def Let_def)
  show "mClusters (initialFastState nw cl order) = clusters cl"
    by (simp add: initialFastState_def movingState.defs initialMovingState_def Let_def)
qed

lemma improveClusteringOneIterationFast_result:
  assumes nw: "integrity nw" "noSelfLoops nw" "nonNegativeEdgeWeights nw"
    and n: "1 \<le> nNodes nw" and fit: "fitsNetwork nw cl"
    and draws: "validDraws (nNodes nw) nextInt"
  shows "\<exists>cl' u. improveClusteringOneIterationFast r nextInt nw cl = Some (Inr (cl', u))
           \<and> rangeInvariant cl' \<and> cnNodes cl' = nNodes nw
           \<and> cpmNumerator r nw (clusters cl) \<le> cpmNumerator r nw (clusters cl')"
proof (cases "nNodes nw = 1")
  case True
  have "improveClusteringOneIterationFast r nextInt nw cl = Some (Inr (cl, False))"
    using True by (simp add: improveClusteringOneIterationFast_def)
  moreover have "rangeInvariant cl \<and> cnNodes cl = nNodes nw"
    using fit unfolding fitsNetwork_def by simp
  ultimately show ?thesis by blast
next
  case False
  then have n2: "2 \<le> nNodes nw" using n by simp
  let ?order = "generateRandomPermutation (nNodes nw) nextInt"
  let ?st0 = "initialFastState nw cl ?order"
  note i0 = initialFastState_inv [OF n fit generateRandomPermutation_bounds [OF draws]]
  from fastLoop_total [OF nw n2 i0(1,2), of r]
  obtain st where st: "fastLoop r nw ?st0 = Some st" "movingInv nw st"
    "cpmNumerator r nw (clusters cl) \<le> cpmNumerator r nw (mClusters st)"
    unfolding i0(3) by blast
  have cn: "cnNodes cl = nNodes nw" using fit unfolding fitsNetwork_def by simp
  note co = clusteringOf_range [OF st(2) cn]
  let ?cl' = "if update st then removeEmptyClusters (clusteringOf cl st) else clusteringOf cl st"
  have res: "improveClusteringOneIterationFast r nextInt nw cl = Some (Inr (?cl', update st))"
    using False n2 st(1) by (simp add: improveClusteringOneIterationFast_def)
  have 1: "rangeInvariant ?cl'" using co(1) rangeInvariant_removeEmptyClusters by simp
  have 2: "cnNodes ?cl' = nNodes nw"
    using co(2) by (simp add: removeEmptyClusters_eq [OF co(1)])
  have 3: "cpmNumerator r nw (clusters ?cl') = cpmNumerator r nw (mClusters st)"
    using cpmNumerator_removeEmptyClusters [OF co(1,2), of r] co(3) by simp
  show ?thesis using res 1 2 3 st(3) by simp
qed

lemma quality_mono:
  assumes "integrity nw" "rangeInvariant cl" "cnNodes cl = nNodes nw"
    "rangeInvariant cl'" "cnNodes cl' = nNodes nw"
    and d: "0 < 2 * getTotalEdgeWeight nw + totalEdgeWeightSelfLinks nw"
    and h: "cpmNumerator r nw (clusters cl) \<le> cpmNumerator r nw (clusters cl')"
  shows "\<exists>q q'. calcQuality r nw cl = Inr q \<and> calcQuality r nw cl' = Inr q' \<and> q \<le> q'"
  unfolding calcQuality_numerator [OF assms(1,2,3)] calcQuality_numerator [OF assms(1,4,5)]
  using d h by (simp add: divide_number_def divide_right_mono)


section \<open>The claims\<close>

text \<open>
  C1.  For a network whose CSR arrays pass the integrity conditions and hold no self-loop,
  and a clustering of its nodes (one entry per node, every id below \<open>nClusters\<close>),
  \<open>calcQuality\<close> returns the quotient of the specification: the sum of \<open>a\<^sub>i\<^sub>j\<close> over the
  ordered pairs of nodes in one cluster, plus the self-link weight \<open>S\<close>, minus the resolution
  times the sum of the squared cluster weights, divided by \<open>2W + S\<close>, where \<open>W\<close> counts every
  undirected edge once.  Both sides are the same failure when \<open>2W + S = 0\<close>.
\<close>

theorem C1_calcQuality_formula:
  assumes "integrity nw" "noSelfLoops nw" "rangeInvariant cl" "cnNodes cl = nNodes nw"
  shows "calcQuality resolution nw cl = cpmQualitySpec resolution nw cl"
  using assms by (rule calcQuality_cpmQualitySpec)

theorem C1_calcQuality_formula_witness:
  "integrity pathNetwork \<and> noSelfLoops pathNetwork \<and> rangeInvariant pathClustering
   \<and> cnNodes pathClustering = nNodes pathNetwork
   \<and> calcQuality 1 pathNetwork pathClustering = cpmQualitySpec 1 pathNetwork pathClustering
   \<and> cpmQualitySpec 1 pathNetwork pathClustering = Inr (- 3 / 5)"
proof -
  have h1: "integrity pathNetwork" by code_simp
  have h2: "noSelfLoops pathNetwork" by code_simp
  have h3: "rangeInvariant pathClustering" by code_simp
  have h4: "cnNodes pathClustering = nNodes pathNetwork" by code_simp
  have v: "cpmQualitySpec 1 pathNetwork pathClustering = Inr (- 3 / 5)" by code_simp
  from C1_calcQuality_formula [OF h1 h2 h3 h4, of 1] h1 h2 h3 h4 v show ?thesis by simp
qed

text \<open>
  C5.  For a network that passes the integrity conditions and whose node weights are all
  positive, \<open>createNormalizedNetworkUsingAssociationStrength\<close> keeps \<open>nNodes\<close>, \<open>nEdges\<close>, the
  offsets and the neighbour array, replaces the weight stored at every position \<open>k\<close> of the
  slice of a node \<open>i\<close> by \<open>w\<^sub>k / (n\<^sub>i n\<^sub>j / T)\<close> with \<open>j\<close> the neighbour at \<open>k\<close> and \<open>T\<close> the total
  node weight (a divisor that is not zero), sets every node weight to \<open>1\<close>, so that the total
  node weight of the result is \<open>nNodes\<close>, and sets the self-link weight to \<open>0\<close>.
\<close>

theorem C5_associationStrength:
  assumes "integrity nw" "positiveNodeWeights nw"
  shows "nNodes (createNormalizedNetworkUsingAssociationStrength nw) = nNodes nw
       \<and> nEdges (createNormalizedNetworkUsingAssociationStrength nw) = nEdges nw
       \<and> firstNeighborIndices (createNormalizedNetworkUsingAssociationStrength nw) = firstNeighborIndices nw
       \<and> neighbors (createNormalizedNetworkUsingAssociationStrength nw) = neighbors nw
       \<and> length (edgeWeights (createNormalizedNetworkUsingAssociationStrength nw)) = nEdges nw
       \<and> (\<forall>i \<in> {0..<nNodes nw}.
            \<forall>k \<in> {firstNeighborIndices nw ! i..<firstNeighborIndices nw ! (i + 1)}.
              edgeWeights (createNormalizedNetworkUsingAssociationStrength nw) ! k
              = edgeWeights nw ! k /
                  (nodeWeights nw ! i * nodeWeights nw ! (neighbors nw ! k) / getTotalNodeWeight nw)
              \<and> nodeWeights nw ! i * nodeWeights nw ! (neighbors nw ! k) / getTotalNodeWeight nw \<noteq> 0)
       \<and> nodeWeights (createNormalizedNetworkUsingAssociationStrength nw) = replicate (nNodes nw) 1
       \<and> getTotalNodeWeight (createNormalizedNetworkUsingAssociationStrength nw) = real (nNodes nw)
       \<and> totalEdgeWeightSelfLinks (createNormalizedNetworkUsingAssociationStrength nw) = 0"
proof -
  let ?h = "\<lambda>i j. edgeWeights nw ! j /
                  (nodeWeights nw ! i * nodeWeights nw ! (neighbors nw ! j) / getTotalNodeWeight nw)"
  let ?F = "firstNeighborIndices nw"
  have entries: "edgeWeights (createNormalizedNetworkUsingAssociationStrength nw) ! k = ?h i k"
    if "i < nNodes nw" "?F ! i \<le> k" "k < ?F ! (i + 1)" for i k
  proof -
    have "k < nEdges nw" using integrity_slice_le_nEdges [OF assms(1) that(1)] that(3) by simp
    then show ?thesis
      using fold_slices_nth [OF integrity_offsets [OF assms(1)] le_refl that, of "replicate (nEdges nw) 0" ?h]
      by (simp add: createNormalizedNetworkUsingAssociationStrength_def)
  qed
  have pos: "0 < getTotalNodeWeight nw" if "i < nNodes nw" for i
  proof -
    have "length (nodeWeights nw) = nNodes nw" using assms(1) by (simp add: integrity_def)
    then show ?thesis
      unfolding getTotalNodeWeight_def calcSum_sum
      using that assms(2) by (intro sum_pos) (auto simp: positiveNodeWeights_def)
  qed
  have nz: "nodeWeights nw ! i * nodeWeights nw ! (neighbors nw ! k) / getTotalNodeWeight nw \<noteq> 0"
    if "i < nNodes nw" "?F ! i \<le> k" "k < ?F ! (i + 1)" for i k
  proof -
    have "neighbors nw ! k < nNodes nw" using integrity_neighbor_less [OF assms(1) that] .
    then have "0 < nodeWeights nw ! (neighbors nw ! k)" "0 < nodeWeights nw ! i"
      using assms(2) that(1) by (simp_all add: positiveNodeWeights_def)
    then show ?thesis using pos [OF that(1)] by simp
  qed
  have rest: "nNodes (createNormalizedNetworkUsingAssociationStrength nw) = nNodes nw"
    "nEdges (createNormalizedNetworkUsingAssociationStrength nw) = nEdges nw"
    "firstNeighborIndices (createNormalizedNetworkUsingAssociationStrength nw) = firstNeighborIndices nw"
    "neighbors (createNormalizedNetworkUsingAssociationStrength nw) = neighbors nw"
    "length (edgeWeights (createNormalizedNetworkUsingAssociationStrength nw)) = nEdges nw"
    "nodeWeights (createNormalizedNetworkUsingAssociationStrength nw) = replicate (nNodes nw) 1"
    "getTotalNodeWeight (createNormalizedNetworkUsingAssociationStrength nw) = real (nNodes nw)"
    "totalEdgeWeightSelfLinks (createNormalizedNetworkUsingAssociationStrength nw) = 0"
    by (simp_all add: createNormalizedNetworkUsingAssociationStrength_def fold_slices_length
          getTotalNodeWeight_def calcSum_replicate)
  have "\<forall>i \<in> {0..<nNodes nw}.
            \<forall>k \<in> {firstNeighborIndices nw ! i..<firstNeighborIndices nw ! (i + 1)}.
              edgeWeights (createNormalizedNetworkUsingAssociationStrength nw) ! k = ?h i k
              \<and> nodeWeights nw ! i * nodeWeights nw ! (neighbors nw ! k) / getTotalNodeWeight nw \<noteq> 0"
  proof (intro ballI conjI)
    fix i k assume "i \<in> {0..<nNodes nw}" "k \<in> {firstNeighborIndices nw ! i..<firstNeighborIndices nw ! (i + 1)}"
    then have ik: "i < nNodes nw" "?F ! i \<le> k" "k < ?F ! (i + 1)" by simp_all
    show "edgeWeights (createNormalizedNetworkUsingAssociationStrength nw) ! k = ?h i k"
      by (rule entries [OF ik])
    show "nodeWeights nw ! i * nodeWeights nw ! (neighbors nw ! k) / getTotalNodeWeight nw \<noteq> 0"
      by (rule nz [OF ik])
  qed
  with rest show ?thesis by blast
qed

theorem C5_associationStrength_witness:
  "integrity pathNetwork \<and> positiveNodeWeights pathNetwork
   \<and> firstNeighborIndices (createNormalizedNetworkUsingAssociationStrength pathNetwork) = [0, 1, 3, 4]
   \<and> neighbors (createNormalizedNetworkUsingAssociationStrength pathNetwork) = [1, 0, 2, 1]
   \<and> edgeWeights (createNormalizedNetworkUsingAssociationStrength pathNetwork) = [4, 4, 6, 6]
   \<and> nodeWeights (createNormalizedNetworkUsingAssociationStrength pathNetwork) = [1, 1, 1]
   \<and> getTotalNodeWeight (createNormalizedNetworkUsingAssociationStrength pathNetwork) = 3
   \<and> totalEdgeWeightSelfLinks (createNormalizedNetworkUsingAssociationStrength pathNetwork) = 0"
proof -
  have h1: "integrity pathNetwork" by code_simp
  have h2: "positiveNodeWeights pathNetwork" by code_simp
  have e: "edgeWeights (createNormalizedNetworkUsingAssociationStrength pathNetwork) = [4, 4, 6, 6]"
    by code_simp
  have n: "nNodes pathNetwork = 3" "firstNeighborIndices pathNetwork = [0, 1, 3, 4]"
    "neighbors pathNetwork = [1, 0, 2, 1]"
    by (simp_all add: pathNetwork_def)
  from C5_associationStrength [OF h1 h2] h1 h2 e n show ?thesis
    by (simp add: numeral_3_eq_3)
qed

text \<open>
  C6, as amended.  At resolution \<open>0\<close> the singleton clustering of a network that passes the
  integrity conditions and has no self-loop in its arrays has the quality \<open>S / (2W + S)\<close>,
  where \<open>S\<close> is the self-link weight the network carries; so the quality is exactly \<open>0\<close> when
  \<open>S = 0\<close> and the total edge weight is not zero.
\<close>

theorem C6_singleton_quality:
  assumes "integrity nw" "noSelfLoops nw"
  shows "calcQuality 0 nw (initializeBasedOnNNodes (nNodes nw))
           = divide_number (totalEdgeWeightSelfLinks nw)
               (2 * totalUndirectedEdgeWeight nw + totalEdgeWeightSelfLinks nw)
       \<and> (totalEdgeWeightSelfLinks nw = 0 \<and> totalUndirectedEdgeWeight nw \<noteq> 0
            \<longrightarrow> calcQuality 0 nw (initializeBasedOnNNodes (nNodes nw)) = Inr 0)"
  using singleton_quality_value [OF assms] by (simp add: divide_number_def)

theorem C6_singleton_quality_witness:
  "integrity pathNetwork \<and> noSelfLoops pathNetwork
   \<and> totalEdgeWeightSelfLinks pathNetwork = 0 \<and> totalUndirectedEdgeWeight pathNetwork = 5
   \<and> calcQuality 0 pathNetwork (initializeBasedOnNNodes (nNodes pathNetwork)) = Inr 0"
proof -
  have h1: "integrity pathNetwork" by code_simp
  have h2: "noSelfLoops pathNetwork" by code_simp
  have s: "totalEdgeWeightSelfLinks pathNetwork = 0" by (simp add: pathNetwork_def)
  have w: "totalUndirectedEdgeWeight pathNetwork = 5" by code_simp
  from C6_singleton_quality [OF h1 h2] h1 h2 s w show ?thesis
    by (simp add: divide_number_def)
qed

text \<open>
  The claim as stated fails on a network with a self-link: the constructor turns the edge
  list \<open>(0,0), (0,1)\<close> into \<open>selfLinkNetwork\<close>, whose singleton clustering has quality
  \<open>1/3\<close> at resolution \<open>0\<close>.
\<close>

theorem C6_singleton_quality_counterexample:
  "integrity selfLinkNetwork \<and> noSelfLoops selfLinkNetwork
   \<and> calcQuality 0 selfLinkNetwork (initializeBasedOnNNodes (nNodes selfLinkNetwork)) = Inr (1 / 3)"
  by code_simp

text \<open>
  C7, as amended.  For every clustering with at least one node that is reached through the
  public operations called within their domains (\<open>setCluster\<close> on a node below \<open>nNodes\<close>,
  \<open>orderClustersByWeight\<close> with a weight for every node, \<open>mergeClusters\<close> with a clustering
  whose array has an entry for every cluster id that is read), \<open>nClusters\<close> is at least one
  more than the largest cluster id in the array; it is exactly one more right after either
  constructor, right after \<open>removeEmptyClusters\<close> and right after either ordering operation.
\<close>

theorem C7_nClusters_bound:
  "(reachable c \<and> clusters c \<noteq> [] \<longrightarrow> Max (set (clusters c)) + 1 \<le> nClusters c)
   \<and> (0 < n \<longrightarrow> nClusters (initializeBasedOnNNodes n)
                    = Max (set (clusters (initializeBasedOnNNodes n))) + 1)
   \<and> (initializeBasedOnClusters cs = Inr c0 \<longrightarrow> nClusters c0 = Max (set (clusters c0)) + 1)
   \<and> (reachable c \<and> clusters c \<noteq> [] \<longrightarrow>
        nClusters (removeEmptyClusters c) = Max (set (clusters (removeEmptyClusters c))) + 1)
   \<and> (reachable c \<and> clusters c \<noteq> [] \<and> cnNodes c \<le> length ws
        \<and> orderClustersByWeight ws c = Inr c1 \<longrightarrow>
        nClusters c1 = Max (set (clusters c1)) + 1)
   \<and> (reachable c \<and> clusters c \<noteq> [] \<and> orderClustersByNNodes c = Inr c2 \<longrightarrow>
        nClusters c2 = Max (set (clusters c2)) + 1)"
  using reachable_rangeInvariant [of c] rangeInvariant_Max [of c] removeEmptyClusters_Max [of c]
    singleton_Max [of n] orderClustersByWeight_Max [of c ws c1] orderClustersByNNodes_Max [of c c2]
  by (auto simp: initializeBasedOnClusters_Inr)

text \<open>
  The claim as stated fails after \<open>setCluster\<close>, which never lowers \<open>nClusters\<close>: the
  singleton clustering of two nodes after \<open>setCluster(1, 0)\<close> holds the ids \<open>0, 0\<close> and
  \<open>nClusters = 2\<close>.  Outside the domain even the bound fails: \<open>setCluster(2, 7)\<close> on two
  nodes appends an entry that \<open>removeEmptyClusters\<close> does not renumber.  And \<open>mergeClusters\<close>
  takes over the \<open>nClusters\<close> of its argument whether or not its last cluster is hit.
\<close>

theorem C7_nClusters_counterexample:
  "reachable pairAfterSetCluster
   \<and> nClusters pairAfterSetCluster = 2
   \<and> Max (set (clusters pairAfterSetCluster)) + 1 = 1
   \<and> removeEmptyClusters (setCluster 2 7 (initializeBasedOnNNodes 2))
       = \<lparr>clusters = [0, 1, 7], nClusters = 2, cnNodes = 2\<rparr>
   \<and> initializeBasedOnClusters [0, 2] = Inr \<lparr>clusters = [0, 2], nClusters = 3, cnNodes = 2\<rparr>
   \<and> initializeBasedOnClusters [0, 1, 0] = Inr \<lparr>clusters = [0, 1, 0], nClusters = 2, cnNodes = 3\<rparr>
   \<and> mergeClusters \<lparr>clusters = [0, 1, 0], nClusters = 2, cnNodes = 3\<rparr>
         \<lparr>clusters = [0, 2], nClusters = 3, cnNodes = 2\<rparr>
       = Inr \<lparr>clusters = [0, 0], nClusters = 2, cnNodes = 2\<rparr>"
proof -
  have "reachable (setCluster 1 0 (initializeBasedOnNNodes 2))"
    by (rule reachable.bySetCluster [OF reachable.fromNNodes]) simp
  then have "reachable pairAfterSetCluster" unfolding setCluster_pair .
  moreover have "nClusters pairAfterSetCluster = 2" "Max (set (clusters pairAfterSetCluster)) + 1 = 1"
    by (simp_all add: pairAfterSetCluster_def)
  moreover have "removeEmptyClusters (setCluster 2 7 (initializeBasedOnNNodes 2))
       = \<lparr>clusters = [0, 1, 7], nClusters = 2, cnNodes = 2\<rparr>"
    "initializeBasedOnClusters [0, 2] = Inr \<lparr>clusters = [0, 2], nClusters = 3, cnNodes = 2\<rparr>"
    "initializeBasedOnClusters [0, 1, 0] = Inr \<lparr>clusters = [0, 1, 0], nClusters = 2, cnNodes = 3\<rparr>"
    "mergeClusters \<lparr>clusters = [0, 1, 0], nClusters = 2, cnNodes = 3\<rparr>
         \<lparr>clusters = [0, 2], nClusters = 3, cnNodes = 2\<rparr>
       = Inr \<lparr>clusters = [0, 0], nClusters = 2, cnNodes = 2\<rparr>"
    by code_simp+
  ultimately show ?thesis by simp
qed

theorem C7_nClusters_bound_witness:
  "reachable pairAfterSetCluster \<and> clusters pairAfterSetCluster \<noteq> []
   \<and> Max (set (clusters pairAfterSetCluster)) + 1 \<le> nClusters pairAfterSetCluster
   \<and> nClusters (initializeBasedOnNNodes 2) = Max (set (clusters (initializeBasedOnNNodes 2))) + 1
   \<and> initializeBasedOnClusters [0, 2, 2] = Inr \<lparr>clusters = [0, 2, 2], nClusters = 3, cnNodes = 3\<rparr>
   \<and> nClusters (removeEmptyClusters pairAfterSetCluster)
       = Max (set (clusters (removeEmptyClusters pairAfterSetCluster))) + 1
   \<and> nClusters (removeEmptyClusters pairAfterSetCluster) = 1
   \<and> orderClustersByWeight [1, 1] pairAfterSetCluster
       = Inr \<lparr>clusters = [0, 0], nClusters = 1, cnNodes = 2\<rparr>
   \<and> orderClustersByNNodes pairAfterSetCluster
       = Inr \<lparr>clusters = [0, 0], nClusters = 1, cnNodes = 2\<rparr>"
proof -
  have "reachable (setCluster 1 0 (initializeBasedOnNNodes 2))"
    by (rule reachable.bySetCluster [OF reachable.fromNNodes]) simp
  then have r: "reachable pairAfterSetCluster" unfolding setCluster_pair .
  have ne: "clusters pairAfterSetCluster \<noteq> []" by (simp add: pairAfterSetCluster_def)
  have i: "initializeBasedOnClusters [0, 2, 2] = Inr \<lparr>clusters = [0, 2, 2], nClusters = 3, cnNodes = 3\<rparr>"
    by code_simp
  have v: "nClusters (removeEmptyClusters pairAfterSetCluster) = 1" by code_simp
  have o: "orderClustersByWeight [1, 1] pairAfterSetCluster
             = Inr \<lparr>clusters = [0, 0], nClusters = 1, cnNodes = 2\<rparr>"
    "orderClustersByNNodes pairAfterSetCluster
             = Inr \<lparr>clusters = [0, 0], nClusters = 1, cnNodes = 2\<rparr>"
    by code_simp+
  have l: "cnNodes pairAfterSetCluster \<le> length [1::real, 1]" "0 < (2::nat)"
    by (simp_all add: pairAfterSetCluster_def)
  note t = C7_nClusters_bound [of pairAfterSetCluster 2 "[0, 2, 2]"
      "\<lparr>clusters = [0, 2, 2], nClusters = 3, cnNodes = 3\<rparr>" "[1, 1]"
      "\<lparr>clusters = [0, 0], nClusters = 1, cnNodes = 2\<rparr>"
      "\<lparr>clusters = [0, 0], nClusters = 1, cnNodes = 2\<rparr>"]
  from t r ne
  have b1: "Max (set (clusters pairAfterSetCluster)) + 1 \<le> nClusters pairAfterSetCluster"
    and b3: "nClusters (removeEmptyClusters pairAfterSetCluster)
       = Max (set (clusters (removeEmptyClusters pairAfterSetCluster))) + 1"
    by blast+
  from t l(2)
  have b2: "nClusters (initializeBasedOnNNodes 2) = Max (set (clusters (initializeBasedOnNNodes 2))) + 1"
    by blast
  show ?thesis using r ne b1 b2 i b3 v o by blast
qed

text \<open>
  C10, as amended.  When the constructor is given an edge list together with node weights
  or with a number of nodes that is not \<open>0\<close>, and \<open>sortedEdges\<close> is false or absent, it
  leaves in \<open>edges[0]\<close> and \<open>edges[1]\<close> of the caller the symmetrised edge list (both
  directions of every edge that is not a self-link, a self-link once) in lexicographic
  order.  Every other array the caller had is unchanged, the array of edge weights among
  them: the weights are sorted in a copy.
\<close>

theorem C10_constructor_overwrites_edges:
  assumes "wellTypedArgs h edges (pEdgeWeights p)" "pEdges p = Some edges" "selectsEdgeList p"
    "\<not> truthyFlag (pSortedEdges p)"
  shows "sorted (edgeListAt (fst (networkConstructor h (Some p))) edges)
       \<and> mset (edgeListAt (fst (networkConstructor h (Some p))) edges)
           = mset (symmetrized (edgeListAt h edges))
       \<and> (\<forall>a<length h. a \<noteq> edges \<longrightarrow> fst (networkConstructor h (Some p)) ! a = h ! a)
       \<and> (\<forall>w. pEdgeWeights p = Some w \<longrightarrow> fst (networkConstructor h (Some p)) ! w = h ! w)"
proof -
  from networkConstructor_edges [OF assms(3), of h] obtain n where
    eq: "fst (networkConstructor h (Some p))
           = fst (initializeNetworkBasedOnEdges h n (pNodeWeights p)
                    (truthyFlag (pSetNodeWeightsToTotalEdgeWeights p)) edges
                    (pEdgeWeights p) False (truthyFlag (pCheckIntegrity p)))"
    using assms(2,4) by auto
  from assms(1) have "\<forall>w. pEdgeWeights p = Some w \<longrightarrow> w < length h \<and> w \<noteq> edges"
    by (rule wellTypedArgs_D) blast
  with constructor_store [OF assms(1)] show ?thesis unfolding eq by blast
qed

theorem C10_constructor_overwrites_edges_witness:
  "wellTypedArgs callerHeap 2 (pEdgeWeights edgeListParameters)
   \<and> pEdges edgeListParameters = Some 2
   \<and> selectsEdgeList edgeListParameters
   \<and> \<not> truthyFlag (pSortedEdges edgeListParameters)
   \<and> edgeListAt callerHeap 2 = [(0, 1), (0, 0)]
   \<and> edgeListAt (fst (networkConstructor callerHeap (Some edgeListParameters))) 2
       = [(0, 0), (0, 1), (1, 0)]
   \<and> fst (networkConstructor callerHeap (Some edgeListParameters)) ! 3 = WeightArray [1, 1]
   \<and> snd (networkConstructor callerHeap (Some edgeListParameters)) = Inr (Some selfLinkNetwork)"
proof -
  have h: "wellTypedArgs callerHeap 2 (pEdgeWeights edgeListParameters)"
    "pEdges edgeListParameters = Some 2" "selectsEdgeList edgeListParameters"
    "\<not> truthyFlag (pSortedEdges edgeListParameters)"
    by code_simp+
  have v: "edgeListAt callerHeap 2 = [(0, 1), (0, 0)]"
    "edgeListAt (fst (networkConstructor callerHeap (Some edgeListParameters))) 2
       = [(0, 0), (0, 1), (1, 0)]"
    "callerHeap ! 3 = WeightArray [1, 1]"
    "snd (networkConstructor callerHeap (Some edgeListParameters)) = Inr (Some selfLinkNetwork)"
    by code_simp+
  have w: "pEdgeWeights edgeListParameters = Some 3" by (simp add: edgeListParameters_def)
  from C10_constructor_overwrites_edges [OF h] w
  have "fst (networkConstructor callerHeap (Some edgeListParameters)) ! 3 = callerHeap ! 3"
    by blast
  with h v show ?thesis by simp
qed

text \<open>
  Without node weights and without a number of nodes (or with the number \<open>0\<close>, which the
  constructor's test takes for absent) none of the initialisation methods is called: the
  object stays uninitialised and the caller's edge list is what it was.
\<close>

theorem C10_constructor_counterexample:
  "wellTypedArgs callerHeap 2 (pEdgeWeights edgesOnlyParameters)
   \<and> pEdges edgesOnlyParameters = Some 2
   \<and> \<not> truthyFlag (pSortedEdges edgesOnlyParameters)
   \<and> networkConstructor callerHeap (Some edgesOnlyParameters) = (callerHeap, Inr None)
   \<and> networkConstructor callerHeap (Some (edgesOnlyParameters\<lparr>pNNodes := Some 0\<rparr>))
       = (callerHeap, Inr None)
   \<and> edgeListAt callerHeap 2 = [(0, 1), (0, 0)]
   \<and> symmetrized (edgeListAt callerHeap 2) = [(0, 1), (1, 0), (0, 0)]"
  by code_simp

text \<open>
  C4, as amended.  For every network with at least one node that passes the integrity
  conditions and has no self-loop in its arrays, \<open>createReducedNetwork\<close> applied to the
  singleton clustering returns the network itself: the same \<open>nNodes\<close>, \<open>nEdges\<close>,
  \<open>nodeWeights\<close>, \<open>firstNeighborIndices\<close>, \<open>neighbors\<close>, \<open>edgeWeights\<close> and
  \<open>totalEdgeWeightSelfLinks\<close>.
\<close>

theorem C4_reduce_singleton:
  assumes "integrity nw" "noSelfLoops nw" "0 < nNodes nw"
  shows "createReducedNetwork nw (initializeBasedOnNNodes (nNodes nw)) = Inr nw"
  using assms by (rule createReducedNetwork_singleton)

theorem C4_reduce_singleton_witness:
  "integrity pathNetwork \<and> noSelfLoops pathNetwork \<and> 0 < nNodes pathNetwork
   \<and> createReducedNetwork pathNetwork (initializeBasedOnNNodes (nNodes pathNetwork)) = Inr pathNetwork"
proof -
  have h1: "integrity pathNetwork" by code_simp
  have h2: "noSelfLoops pathNetwork" by code_simp
  have h3: "0 < nNodes pathNetwork" by code_simp
  from C4_reduce_singleton [OF h1 h2 h3] h1 h2 h3 show ?thesis by simp
qed

text \<open>
  The claim as stated fails on the network without nodes: it passes the integrity
  conditions, and \<open>createReducedNetwork\<close> throws a RangeError when it allocates its scratch
  array of \<open>nClusters - 1\<close> entries.
\<close>

theorem C4_reduce_singleton_counterexample:
  "integrity emptyNetwork \<and> noSelfLoops emptyNetwork
   \<and> createReducedNetwork emptyNetwork (initializeBasedOnNNodes (nNodes emptyNetwork)) = Inl RangeError"
  by code_simp



end
